(* ===== verification/Lwip_Prelude.thy ===== *)
theory Lwip_Prelude
  imports Main "HOL-Library.Word"
begin

text \<open>
  Shared vocabulary of the development: the integer types of \<open>arch/cc.h\<close>, the error codes of
  \<open>lwip/err.h\<close>, the conversions that a C assignment to an unsigned object performs, byte-level
  memory copies on lists, and the generic lemmas the component theories rest on.

  Two styles of machine integer are used.  Code that works bitwise (byte order, checksums,
  addresses, descriptor flags) is modelled on \<open>'n word\<close>.  Code that only counts
  (lengths, offsets, reference counts) is modelled on \<open>nat\<close>, and every C assignment that can wrap
  goes through \<open>to_u16\<close> or \<open>sub_u16\<close> and their relatives, which spell the wrap-around out.
\<close>

unbundle bit_operations_syntax

named_theorems wrap_simps \<open>wrap-around arithmetic when no wrap-around happens\<close>
named_theorems lwip_defs \<open>configuration constants of the port\<close>

section \<open>Integer types and error codes\<close>

type_synonym u8 = "8 word"
type_synonym u16 = "16 word"
type_synonym u32 = "32 word"

datatype err_t =
    ERR_OK | ERR_MEM | ERR_BUF | ERR_TIMEOUT | ERR_RTE | ERR_INPROGRESS | ERR_VAL
  | ERR_WOULDBLOCK | ERR_USE | ERR_ALREADY | ERR_ISCONN | ERR_CONN | ERR_IF | ERR_ABRT
  | ERR_RST | ERR_CLSD | ERR_ARG

section \<open>Assignment to unsigned objects\<close>

definition to_u8 :: "nat \<Rightarrow> nat" where
  "to_u8 n = n mod 2 ^ 8"

definition to_u16 :: "nat \<Rightarrow> nat" where
  "to_u16 n = n mod 2 ^ 16"

definition to_u32 :: "nat \<Rightarrow> nat" where
  "to_u32 n = n mod 2 ^ 32"

text \<open>\<open>a - b\<close> computed modulo the width, for operands that fit the width.\<close>

definition sub_u16 :: "nat \<Rightarrow> nat \<Rightarrow> nat" where
  "sub_u16 a b = (a + (2 ^ 16 - b mod 2 ^ 16)) mod 2 ^ 16"

definition sub_u32 :: "nat \<Rightarrow> nat \<Rightarrow> nat" where
  "sub_u32 a b = (a + (2 ^ 32 - b mod 2 ^ 32)) mod 2 ^ 32"

lemma to_u8_id [wrap_simps]: "n < 256 \<Longrightarrow> to_u8 n = n"
  by (simp add: to_u8_def)

lemma to_u16_id [wrap_simps]: "n < 65536 \<Longrightarrow> to_u16 n = n"
  by (simp add: to_u16_def)

lemma to_u32_id [wrap_simps]: "n < 4294967296 \<Longrightarrow> to_u32 n = n"
  by (simp add: to_u32_def)

lemma to_u16_less [simp]: "to_u16 n < 65536"
  by (simp add: to_u16_def)

lemma to_u32_less [simp]: "to_u32 n < 4294967296"
  by (simp add: to_u32_def)

lemma sub_u16_less [simp]: "sub_u16 a b < 65536"
  by (simp add: sub_u16_def)

lemma sub_u32_less [simp]: "sub_u32 a b < 4294967296"
  by (simp add: sub_u32_def)

lemma mod_sub_le:
  fixes a b m :: nat
  assumes "b \<le> a" and "a < m"
  shows "(a + (m - b mod m)) mod m = a - b"
proof -
  have "a + (m - b mod m) = (a - b) + m"
    using assms by simp
  then have "(a + (m - b mod m)) mod m = ((a - b) + m) mod m"
    by (rule arg_cong)
  then show ?thesis
    using assms(2) by simp
qed

lemma sub_u16_le [wrap_simps]: "b \<le> a \<Longrightarrow> a < 65536 \<Longrightarrow> sub_u16 a b = a - b"
  using mod_sub_le [of b a "2 ^ 16"] by (simp add: sub_u16_def)

lemma sub_u32_le [wrap_simps]: "b \<le> a \<Longrightarrow> a < 4294967296 \<Longrightarrow> sub_u32 a b = a - b"
  using mod_sub_le [of b a "2 ^ 32"] by (simp add: sub_u32_def)

section \<open>Words and the numbers they stand for\<close>

lemma unat_u8_less [simp]: "unat (x :: u8) < 256"
proof -
  have "unat x < 2 ^ LENGTH(8)"
    by (rule unsigned_less)
  then show ?thesis by simp
qed

lemma unat_u16_less [simp]: "unat (x :: u16) < 65536"
proof -
  have "unat x < 2 ^ LENGTH(16)"
    by (rule unsigned_less)
  then show ?thesis by simp
qed

lemma unat_u32_less [simp]: "unat (x :: u32) < 4294967296"
proof -
  have "unat x < 2 ^ LENGTH(32)"
    by (rule unsigned_less)
  then show ?thesis by simp
qed

lemma unat_u8_le: "unat (x :: u8) \<le> 255"
  and unat_u16_le: "unat (y :: u16) \<le> 65535"
  and unat_u32_le: "unat (z :: u32) \<le> 4294967295"
  using unat_u8_less [of x] unat_u16_less [of y] unat_u32_less [of z] by linarith+

lemma unat_ucast_up: "LENGTH('a) \<le> LENGTH('b) \<Longrightarrow> unat (ucast (x :: 'a::len word) :: 'b::len word) = unat x"
  by (simp add: unsigned_ucast_eq take_bit_nat_eq_self_iff)
     (meson le_trans less_le_trans one_le_numeral power_increasing unsigned_less)

lemma unat_add_small:
  fixes x y :: "'a::len word"
  assumes "unat x + unat y < 2 ^ LENGTH('a)"
  shows "unat (x + y) = unat x + unat y"
  using assms by (simp add: unat_word_ariths)

lemma unat_ucast_mod: "unat (ucast (x :: 'a::len word) :: 'b::len word) = unat x mod 2 ^ LENGTH('b)"
  by (simp add: unsigned_ucast_eq take_bit_eq_mod)

lemma or_push_bit_add:
  fixes x y :: "'a::len word"
  assumes "take_bit n y = y"
  shows "push_bit n x OR y = push_bit n x + y"
proof (rule disjunctive_add [symmetric])
  fix i
  show "\<not> bit (push_bit n x) i \<or> \<not> bit y i"
    using assms by (metis bit_push_bit_iff bit_take_bit_iff not_le)
qed

lemma unat_push_bit: "unat (x::'a::len word) * 2 ^ n < 2 ^ LENGTH('a) \<Longrightarrow> unat (push_bit n x) = unat x * 2 ^ n"
  by (simp only: unsigned_push_bit_eq) (simp add: push_bit_eq_mult take_bit_eq_mod)

lemma unat_and_mask: "unat ((x::'a::len word) AND mask n) = unat x mod 2 ^ n"
  by (simp only: take_bit_eq_mask [symmetric] unsigned_take_bit_eq) (simp add: take_bit_eq_mod)

lemma unat_drop_bit_div: "unat (drop_bit n (x::'a::len word)) = unat x div 2 ^ n"
  by (simp only: unat_drop_bit_eq) (simp add: drop_bit_eq_div)

lemma unat_concat_bytes:
  fixes a b :: "'a::len word"
  assumes "unat b < 2 ^ n" and "unat a * 2 ^ n + unat b < 2 ^ LENGTH('a)"
  shows "unat (push_bit n a OR b) = unat a * 2 ^ n + unat b"
proof -
  have "take_bit n b = b"
    using assms(1) by (simp only: word_unat_eq_iff unsigned_take_bit_eq) (simp add: take_bit_eq_mod)
  then have "push_bit n a OR b = push_bit n a + b"
    by (rule or_push_bit_add)
  moreover have "unat (push_bit n a) = unat a * 2 ^ n"
    using assms(2) by (intro unat_push_bit) simp
  ultimately show ?thesis
    using assms(2) by (simp add: unat_word_ariths)
qed

section \<open>Copies between byte arrays\<close>

text \<open>
  \<open>write_at dst off src\<close> is the array after \<open>memcpy (dst + off, src, length src)\<close>; a copy that
  would leave the array is the business of the caller, who has to show that it fits.
\<close>

definition write_at :: "'a list \<Rightarrow> nat \<Rightarrow> 'a list \<Rightarrow> 'a list" where
  "write_at dst off src = take off dst @ src @ drop (off + length src) dst"

lemma length_write_at [simp]:
  "off + length src \<le> length dst \<Longrightarrow> length (write_at dst off src) = length dst"
  by (simp add: write_at_def)

lemma write_at_Nil [simp]: "write_at dst off [] = dst"
  by (simp add: write_at_def)

lemma nth_write_at:
  assumes "off + length src \<le> length dst" and "i < length dst"
  shows "write_at dst off src ! i =
    (if off \<le> i \<and> i < off + length src then src ! (i - off) else dst ! i)"
  using assms by (auto simp: write_at_def nth_append)

lemma take_write_at [simp]: "off \<le> length dst \<Longrightarrow> take off (write_at dst off src) = take off dst"
  by (simp add: write_at_def)

lemma read_write_at:
  "off + length src \<le> length dst \<Longrightarrow>
   take (length src) (drop off (write_at dst off src)) = src"
  by (simp add: write_at_def)

lemma read_write_at_disjoint:
  assumes "off + length src \<le> length dst"
    and "a + n \<le> off \<or> off + length src \<le> a"
  shows "take n (drop a (write_at dst off src)) = take n (drop a dst)"
proof (rule nth_equalityI)
  show "length (take n (drop a (write_at dst off src))) = length (take n (drop a dst))"
    using assms(1) by simp
next
  fix i
  assume "i < length (take n (drop a (write_at dst off src)))"
  then have "i < n" and "a + i < length dst"
    using assms(1) by auto
  then show "take n (drop a (write_at dst off src)) ! i = take n (drop a dst) ! i"
    using assms by (auto simp: nth_write_at)
qed

section \<open>Lists\<close>

lemma take_drop_concat_split:
  "m \<le> n \<Longrightarrow> take m xs @ take (n - m) (drop m xs) = take n xs"
  by (metis le_add_diff_inverse take_add)

lemma sum_list_nth_update:
  fixes xs :: "nat list"
  assumes "i < length xs"
  shows "sum_list (xs[i := v]) + xs ! i = sum_list xs + v"
  using assms
proof (induction xs arbitrary: i)
  case Nil
  then show ?case by simp
next
  case (Cons x xs)
  then show ?case by (cases i) auto
qed

end
