(* ===== verification/Lwip_Def.thy ===== *)
theory Lwip_Def
  imports Lwip_Prelude
begin

text \<open>
  \<open>core/def.c\<close>: byte-order conversion for the little-endian target, and the substitutes for the
  non-standard string functions \<open>strnstr\<close>, \<open>stricmp\<close>, \<open>strnicmp\<close> and \<open>itoa\<close>.

  A C string is the list of its bytes before the terminating zero; \<open>cchar\<close> reads the byte a
  pointer into it points at, the terminator included.  \<open>char\<close> is unsigned on this target.
\<close>

section \<open>Byte order\<close>

definition lwip_htons :: "u16 \<Rightarrow> u16" where
  "lwip_htons n =
     (let x = ucast n :: u32
      in ucast (push_bit 8 (x AND 0x00ff) OR drop_bit 8 (x AND 0xff00)))"

definition lwip_htonl :: "u32 \<Rightarrow> u32" where
  "lwip_htonl x = push_bit 24 (x AND 0x000000ff) OR push_bit 8 (x AND 0x0000ff00) OR
     drop_bit 8 (x AND 0x00ff0000) OR drop_bit 24 (x AND 0xff000000)"

section \<open>String functions\<close>

definition cchar :: "u8 list \<Rightarrow> u8" where
  "cchar s = (case s of [] \<Rightarrow> 0 | c # _ \<Rightarrow> c)"

fun strncmp_eq :: "u8 list \<Rightarrow> u8 list \<Rightarrow> nat \<Rightarrow> bool" where
  "strncmp_eq s t 0 = True"
| "strncmp_eq s t (Suc n) =
     (if cchar s \<noteq> cchar t then False
      else if cchar s = 0 then True else strncmp_eq (tl s) (tl t) n)"

fun strnstr_loop :: "u8 list \<Rightarrow> u8 list \<Rightarrow> nat \<Rightarrow> nat \<Rightarrow> nat option" where
  "strnstr_loop token p i n =
     (case p of [] \<Rightarrow> None
      | c # p' \<Rightarrow>
         if i + length token \<le> n
         then if c = cchar token \<and> strncmp_eq p token (length token) then Some i
              else strnstr_loop token p' (Suc i) n
         else None)"

definition lwip_strnstr :: "u8 list \<Rightarrow> u8 list \<Rightarrow> nat \<Rightarrow> nat option" where
  "lwip_strnstr buffer token n =
     (if length token = 0 then Some 0 else strnstr_loop token buffer 0 n)"

definition icmp_step :: "u8 \<Rightarrow> u8 \<Rightarrow> bool" where
  "icmp_step c1 c2 =
     (if c1 \<noteq> c2 then
        (let c1_upc = c1 OR 0x20 in
         if 0x61 \<le> c1_upc \<and> c1_upc \<le> 0x7a
         then (let c2_upc = c2 OR 0x20 in c1_upc \<noteq> c2_upc)
         else True)
      else False)"

fun lwip_stricmp :: "u8 list \<Rightarrow> u8 list \<Rightarrow> int" where
  "lwip_stricmp [] str2 = (if icmp_step 0 (cchar str2) then 1 else 0)"
| "lwip_stricmp (c1 # str1) str2 =
     (if icmp_step c1 (cchar str2) then 1
      else if c1 \<noteq> 0 then lwip_stricmp str1 (tl str2) else 0)"

fun lwip_strnicmp :: "u8 list \<Rightarrow> u8 list \<Rightarrow> nat \<Rightarrow> int" where
  "lwip_strnicmp [] str2 len = (if icmp_step 0 (cchar str2) then 1 else 0)"
| "lwip_strnicmp (c1 # str1) str2 len =
     (if icmp_step c1 (cchar str2) then 1
      else if len \<noteq> 0 \<and> c1 \<noteq> 0 then lwip_strnicmp str1 (tl str2) (len - 1) else 0)"

section \<open>Number to text\<close>

text \<open>C division on \<open>int\<close> truncates towards zero.\<close>

definition cdiv :: "int \<Rightarrow> int \<Rightarrow> int" where
  "cdiv a b = sgn a * sgn b * (\<bar>a\<bar> div \<bar>b\<bar>)"

definition itoa_table :: string where
  "itoa_table = ''zyxwvutsrqponmlkjihgfedcba9876543210123456789abcdefghijklmnopqrstuvwxyz''"

function itoa_loop :: "int \<Rightarrow> string \<Rightarrow> string \<times> int" where
  "itoa_loop number out =
     (let tmp_value = number;
          number' = cdiv number 10;
          out' = out @ [itoa_table ! nat (35 + (tmp_value - number' * 10))]
      in if number' \<noteq> 0 then itoa_loop number' out' else (out', tmp_value))"
  by pat_completeness auto
termination
  by (relation "measure (\<lambda>(number, out). nat \<bar>number\<bar>)") (auto simp: cdiv_def abs_mult sgn_if)

function itoa_reverse :: "string \<Rightarrow> nat \<Rightarrow> nat \<Rightarrow> string" where
  "itoa_reverse buf ptr1 ptr =
     (if ptr1 < ptr
      then itoa_reverse (buf[ptr := buf ! ptr1, ptr1 := buf ! ptr]) (Suc ptr1) (ptr - 1)
      else buf)"
  by pat_completeness auto
termination
  by (relation "measure (\<lambda>(buf, ptr1, ptr). ptr - ptr1)") auto

definition lwip_itoa :: "int \<Rightarrow> string" where
  "lwip_itoa number =
     (let (digits, tmp_value) = itoa_loop number [];
          buf = (if tmp_value < 0 then digits @ ''-'' else digits)
      in itoa_reverse buf 0 (length buf - 1))"

declare strnstr_loop.simps [simp del] itoa_loop.simps [simp del] itoa_reverse.simps [simp del]

section \<open>Byte order: facts\<close>

lemma unat_lwip_htons: "unat (lwip_htons n) = unat n mod 256 * 256 + unat n div 256"
proof -
  define x where "x = (ucast n :: u32)"
  have x: "unat x = unat n" by (simp add: x_def unat_ucast_up)
  have lo: "unat (x AND 0xff) = unat n mod 256"
    using unat_and_mask [of x 8] by (simp add: x mask_eq_exp_minus_1)
  have "drop_bit 8 (x AND 0xff00) = drop_bit 8 x AND 0xff"
    by (simp add: drop_bit_and)
  then have hi: "unat (drop_bit 8 x AND 0xff) = unat n div 256"
    using unat_and_mask [of "drop_bit 8 x" 8] unat_u16_less [of n]
    by (simp add: mask_eq_exp_minus_1 unat_drop_bit_div x)
  have "unat (push_bit 8 (x AND 0xff) OR drop_bit 8 (x AND 0xff00)) = unat n mod 256 * 256 + unat n div 256"
  proof (subst unat_concat_bytes)
    have "unat n div 256 < 256" and "unat n mod 256 < 256"
      using unat_u16_less [of n] by linarith+
    then show "unat (drop_bit 8 (x AND 0xff00)) < 2 ^ 8"
      and "unat (x AND 0xff) * 2 ^ 8 + unat (drop_bit 8 (x AND 0xff00)) < 2 ^ LENGTH(32)"
      by (simp_all add: lo hi)
  qed (simp add: lo hi)
  moreover have "unat n mod 256 * 256 + unat n div 256 < 65536"
    using unat_u16_less [of n] by linarith
  ultimately show ?thesis
    by (simp only: lwip_htons_def Let_def x_def [symmetric] unat_ucast_mod) simp
qed

lemma lwip_htons_lwip_htons [simp]: "lwip_htons (lwip_htons n) = n"
proof -
  have "unat n = unat n div 256 * 256 + unat n mod 256" and "unat n div 256 < 256"
    using unat_u16_less [of n] by (simp, linarith)
  then show ?thesis by (simp add: word_unat_eq_iff unat_lwip_htons)
qed

lemma u32_masks:
  "(0x000000ff :: u32) = push_bit 0 (mask 8)" "(0x0000ff00 :: u32) = push_bit 8 (mask 8)"
  "(0x00ff0000 :: u32) = push_bit 16 (mask 8)" "(0xff000000 :: u32) = push_bit 24 (mask 8)"
  by (simp_all add: mask_eq_exp_minus_1)

lemma bit_lwip_htonl:
  assumes "q < 4" and "r < 8"
  shows "bit (lwip_htonl x) (8 * q + r) = bit x (8 * (3 - q) + r)"
proof -
  from assms(1) consider "q = 0" | "q = 1" | "q = 2" | "q = 3" by linarith
  then show ?thesis
    using assms(2) by cases (simp_all only: lwip_htonl_def u32_masks, auto simp: bit_simps)
qed

lemma lwip_htonl_lwip_htonl [simp]: "lwip_htonl (lwip_htonl x) = x"
proof (rule bit_word_eqI)
  fix i
  assume "i < LENGTH(32)"
  then have q: "i div 8 < 4" and r: "i mod 8 < 8" and "3 - i div 8 < 4"
    by auto
  then have "bit (lwip_htonl (lwip_htonl x)) (8 * (i div 8) + i mod 8) = bit x (8 * (i div 8) + i mod 8)"
    by (simp only: bit_lwip_htonl) simp
  then show "bit (lwip_htonl (lwip_htonl x)) i = bit x i"
    by simp
qed

text \<open>The byte a little-endian host stores at address offset \<open>k\<close> of a \<open>u32_t\<close>.\<close>

definition byte_at :: "nat \<Rightarrow> u32 \<Rightarrow> nat" where
  "byte_at k x = unat x div 2 ^ (8 * k) mod 256"

lemma byte_at_word: "byte_at k x = unat (take_bit 8 (drop_bit (8*k) x))"
  by (simp only: unsigned_take_bit_eq unat_drop_bit_eq byte_at_def) (simp add: take_bit_eq_mod drop_bit_eq_div)

lemma byte_at_htonl: "k < 4 \<Longrightarrow> byte_at k (lwip_htonl x) = byte_at (3 - k) x"
proof -
  assume "k < 4"
  have "take_bit 8 (drop_bit (8 * k) (lwip_htonl x)) = take_bit 8 (drop_bit (8 * (3 - k)) x)"
    using \<open>k < 4\<close> by (intro bit_word_eqI) (simp add: bit_simps bit_lwip_htonl cong: conj_cong)
  then show ?thesis by (simp add: byte_at_word)
qed

lemma byte_at_less [simp]: "byte_at k x < 256"
  by (simp add: byte_at_def)

lemma base256_digits:
  fixes n :: nat
  assumes "n = 256 * a + r0" and "a = 256 * b + r1" and "b = 256 * c + r2"
  shows "n = r0 + 256 * r1 + 65536 * r2 + 16777216 * c"
  using assms by simp

lemma unat_u32_bytes:
  "unat x = byte_at 0 x + 256 * byte_at 1 x + 65536 * byte_at 2 x + 16777216 * byte_at 3 x"
proof -
  define n where "n = unat x"
  have step: "m = 256 * (m div 256) + m mod 256" for m :: nat
    by simp
  have "n = n mod 256 + 256 * (n div 256 mod 256) + 65536 * (n div 256 div 256 mod 256)
      + 16777216 * (n div 256 div 256 div 256)"
    by (rule base256_digits [OF step step step])
  moreover have "n div 16777216 < 256"
    unfolding n_def by (rule less_mult_imp_div_less) simp
  ultimately show ?thesis
    by (simp add: byte_at_def n_def [symmetric] div_mult2_eq [symmetric])
qed

lemma u32_eq_bytesI: "(\<And>k. k < 4 \<Longrightarrow> byte_at k x = byte_at k y) \<Longrightarrow> x = y"
  by (simp add: word_unat_eq_iff unat_u32_bytes [of x] unat_u32_bytes [of y])

section \<open>String functions: facts\<close>

text \<open>A C string holds no zero byte; \<open>ascii_lower\<close> is the case folding the comparisons mean.\<close>

definition cstring :: "u8 list \<Rightarrow> bool" where
  "cstring s \<longleftrightarrow> 0 \<notin> set s"

definition ascii_lower :: "u8 \<Rightarrow> u8" where
  "ascii_lower c = (if 0x41 \<le> c \<and> c \<le> 0x5a then c + 0x20 else c)"

lemma or_20: "unat (c OR (0x20 :: u8)) = (if odd (unat c div 32) then unat c else unat c + 32)"
proof -
  have b32: "bit (0x20 :: u8) i \<longleftrightarrow> i = 5" for i
    using bit_exp_iff [of 5 i, where 'a = u8] by auto
  have b5: "bit c 5 \<longleftrightarrow> odd (unat c div 32)"
    using bit_unsigned_iff [of c 5, where 'a = nat] by (simp add: bit_iff_odd)
  show ?thesis
  proof (cases "bit c 5")
    case True
    then have "c OR 0x20 = c"
      by (intro bit_word_eqI) (metis b32 bit_or_iff)
    with True b5 show ?thesis by simp
  next
    case False
    then have "c OR 0x20 = c + 0x20"
      by (intro disjunctive_add [symmetric]) (metis b32)
    moreover have "unat c + 32 < 256"
      using False b5 unat_u8_less [of c] by presburger
    ultimately show ?thesis
      using False b5 by (simp add: unat_word_ariths)
  qed
qed

lemma or_20_letter:
  assumes "97 \<le> v" and "v \<le> 122"
  shows "unat (c OR (0x20 :: u8)) = v \<longleftrightarrow> unat c = v \<or> unat c + 32 = v"
proof -
  have "v div 32 = 3" using assms by linarith
  moreover have "unat c div 32 = 2" if "unat c + 32 = v"
    using that assms by linarith
  ultimately show ?thesis by (auto simp: or_20)
qed

lemma icmp_step_iff: "icmp_step c1 c2 \<longleftrightarrow> ascii_lower c1 \<noteq> ascii_lower c2"
proof (cases "0x61 \<le> c1 OR 0x20 \<and> c1 OR 0x20 \<le> 0x7a")
  case True
  then have v: "97 \<le> unat (c1 OR 0x20)" "unat (c1 OR 0x20) \<le> 122"
    by (simp_all add: word_le_nat_alt)
  have c1: "unat c1 = unat (c1 OR 0x20) \<or> unat c1 + 32 = unat (c1 OR 0x20)"
    using or_20_letter [OF v, of c1] by simp
  have c2: "c1 OR 0x20 = c2 OR 0x20 \<longleftrightarrow> unat c2 = unat (c1 OR 0x20) \<or> unat c2 + 32 = unat (c1 OR 0x20)"
    using or_20_letter [OF v, of c2] by (auto simp: word_unat_eq_iff)
  show ?thesis
    unfolding icmp_step_def ascii_lower_def Let_def c2
    using True v c1 by (auto simp: word_unat_eq_iff word_le_nat_alt unat_word_ariths)
next
  case False
  have "\<not> (97 \<le> unat c1 \<and> unat c1 \<le> 122)" "\<not> (65 \<le> unat c1 \<and> unat c1 \<le> 90)"
    using False or_20_letter [of "unat c1" c1] or_20_letter [of "unat c1 + 32" c1]
    by (auto simp: word_le_nat_alt)
  with False show ?thesis
    unfolding icmp_step_def ascii_lower_def Let_def
    by (auto simp: word_unat_eq_iff word_le_nat_alt unat_word_ariths)
qed

lemma strncmp_eq_prefix:
  assumes "cstring s" and "cstring t"
  shows "strncmp_eq s t (length t) \<longleftrightarrow> take (length t) s = t"
  using assms
proof (induction t arbitrary: s)
  case (Cons c t)
  then show ?case by (cases s) (auto simp: cchar_def cstring_def)
qed simp

definition token_at :: "u8 list \<Rightarrow> u8 list \<Rightarrow> nat \<Rightarrow> bool" where
  "token_at token p j \<longleftrightarrow> take (length token) (drop j p) = token"

lemma token_at_Cons_Suc: "token_at token (c # p) (Suc k) = token_at token p k"
  by (simp add: token_at_def)

lemma strnstr_loop_shift: "strnstr_loop token p (Suc i) n = map_option Suc (strnstr_loop token p i (n - 1))"
  if "token \<noteq> []"
  using that
proof (induction p arbitrary: i)
  case (Cons c p)
  have "Suc i + length token \<le> n \<longleftrightarrow> i + length token \<le> n - 1"
    using Cons.prems by (cases token) auto
  with Cons show ?case
    by (auto simp: strnstr_loop.simps [of token "c # p"])
qed (simp add: strnstr_loop.simps)

lemma strnstr_loop_Some:
  assumes "cstring p" and "cstring token" and "token \<noteq> []"
  shows "strnstr_loop token p 0 n = Some j \<longleftrightarrow>
     j + length token \<le> n \<and> token_at token p j \<and> (\<forall>k<j. \<not> token_at token p k)"
  using assms
proof (induction p arbitrary: n j)
  case Nil
  then show ?case by (simp add: strnstr_loop.simps token_at_def)
next
  case (Cons c p)
  have hit: "c = cchar token \<and> strncmp_eq (c # p) token (length token) \<longleftrightarrow> token_at token (c # p) 0"
    using Cons.prems strncmp_eq_prefix [of "c # p" token]
    by (cases token) (auto simp: cchar_def token_at_def)
  have IH: "strnstr_loop token p 0 m = Some i \<longleftrightarrow>
     i + length token \<le> m \<and> token_at token p i \<and> (\<forall>k<i. \<not> token_at token p k)" for m i
    using Cons by (auto simp: cstring_def)
  show ?case
  proof (cases j)
    case 0
    then show ?thesis
      by (auto simp: strnstr_loop.simps [of token "c # p"] hit strnstr_loop_shift [OF Cons.prems(3)])
  next
    case (Suc i)
    have "i + length token \<le> n - 1 \<longleftrightarrow> Suc i + length token \<le> n"
      using Cons.prems(3) by (cases token) auto
    then show ?thesis
      using Suc by (auto simp: strnstr_loop.simps [of token "c # p"] hit
          strnstr_loop_shift [OF Cons.prems(3)] IH token_at_Cons_Suc All_less_Suc2)
  qed
qed

lemma ascii_lower_0 [simp]: "ascii_lower c = 0 \<longleftrightarrow> c = 0"
  by (auto simp: ascii_lower_def word_unat_eq_iff word_le_nat_alt unat_word_ariths)

lemma ascii_lower_zero [simp]: "ascii_lower 0 = 0" by simp

lemma stricmp_0_iff:
  assumes "cstring s" and "cstring t"
  shows "lwip_stricmp s t = 0 \<longleftrightarrow> map ascii_lower s = map ascii_lower t"
  using assms
proof (induction s t rule: lwip_stricmp.induct)
  case (1 t)
  then show ?case by (cases t) (auto simp: icmp_step_iff cchar_def cstring_def)
next
  case (2 c s t)
  then show ?case by (cases t) (auto simp: icmp_step_iff cchar_def cstring_def)
qed

lemma strnicmp_0_iff:
  assumes "cstring s" and "cstring t"
  shows "lwip_strnicmp s t n = 0 \<longleftrightarrow> map ascii_lower (take (Suc n) s) = map ascii_lower (take (Suc n) t)"
  using assms
proof (induction s t n rule: lwip_strnicmp.induct)
  case (1 t n)
  then show ?case by (cases t) (auto simp: icmp_step_iff cchar_def cstring_def)
next
  case (2 c s t n)
  then show ?case by (cases t; cases n) (auto simp: icmp_step_iff cchar_def cstring_def)
qed

section \<open>Number to text: facts\<close>

lemma length_itoa_reverse [simp]: "length (itoa_reverse buf i j) = length buf"
  by (induction buf i j rule: itoa_reverse.induct) (subst itoa_reverse.simps, simp)

lemma nth_itoa_reverse:
  "j < length buf \<Longrightarrow> k < length buf \<Longrightarrow>
   itoa_reverse buf i j ! k = (if i \<le> k \<and> k \<le> j then buf ! (i + j - k) else buf ! k)"
proof (induction buf i j rule: itoa_reverse.induct)
  case (1 buf i j)
  show ?case
  proof (cases "i < j")
    case True
    define buf' where "buf' = buf[j := buf ! i, i := buf ! j]"
    have buf': "buf' ! m = (if m = i then buf ! j else if m = j then buf ! i else buf ! m)" for m
      using "1.prems" True by (cases "m = i"; cases "m = j") (auto simp: buf'_def)
    have "itoa_reverse buf i j ! k = itoa_reverse buf' (Suc i) (j - 1) ! k"
      using True by (subst itoa_reverse.simps) (simp add: buf'_def)
    also have "\<dots> = (if Suc i \<le> k \<and> k \<le> j - 1 then buf' ! (i + j - k) else buf' ! k)"
      using 1 True by (simp add: buf'_def)
    finally show ?thesis
      using True by (auto simp: buf')
  next
    case False
    then have "i + j - k = k" if "i \<le> k \<and> k \<le> j"
      using that by linarith
    with False show ?thesis by (subst itoa_reverse.simps) auto
  qed
qed

lemma itoa_reverse_rev: "buf \<noteq> [] \<Longrightarrow> itoa_reverse buf 0 (length buf - 1) = rev buf"
  by (rule nth_equalityI) (auto simp: nth_itoa_reverse rev_nth)

definition dig :: "nat \<Rightarrow> char" where "dig k = char_of (48 + k)"

lemma itoa_table_digits:
  "\<forall>k \<in> set [0..<10]. itoa_table ! (35 + k) = dig k \<and> itoa_table ! (35 - k) = dig k"
  by code_simp

lemma itoa_table_digit:
  assumes "\<bar>d\<bar> < 10"
  shows "itoa_table ! nat (35 + d) = dig (nat \<bar>d\<bar>)"
proof -
  have "nat (35 + d) = (if 0 \<le> d then 35 + nat \<bar>d\<bar> else 35 - nat \<bar>d\<bar>)"
    by auto
  moreover have "nat \<bar>d\<bar> \<in> set [0..<10]"
    using assms by auto
  ultimately show ?thesis
    using itoa_table_digits by (auto simp del: set_upt)
qed

fun rev_digits :: "nat \<Rightarrow> string" where
  "rev_digits m = (if m < 10 then [dig m] else dig (m mod 10) # rev_digits (m div 10))"

declare rev_digits.simps [simp del]

lemma cdiv10: "\<bar>cdiv n 10\<bar> = \<bar>n\<bar> div 10"
  by (auto simp: cdiv_def abs_mult sgn_if)

lemma cdiv10_rem: "n - cdiv n 10 * 10 = sgn n * (\<bar>n\<bar> mod 10)"
  using minus_div_mult_eq_mod [of "\<bar>n\<bar>" 10] by (auto simp: cdiv_def sgn_if)

lemma itoa_loop_digits:
  "\<exists>t. itoa_loop n out = (out @ rev_digits (nat \<bar>n\<bar>), t) \<and> (t < 0 \<longleftrightarrow> n < 0)"
proof (induction n out rule: itoa_loop.induct)
  case (1 n out)
  define n' where "n' = cdiv n 10"
  have abs: "nat \<bar>n'\<bar> = nat \<bar>n\<bar> div 10"
    by (simp add: n'_def cdiv10 nat_div_distrib)
  have rem: "\<bar>n - n' * 10\<bar> = \<bar>n\<bar> mod 10"
    by (simp add: n'_def cdiv10_rem abs_mult sgn_if)
  have ch: "itoa_table ! nat (35 + (n - n' * 10)) = dig (nat \<bar>n\<bar> mod 10)"
    by (subst itoa_table_digit) (simp_all add: rem nat_mod_distrib)
  have eq: "itoa_loop n out = (let out' = out @ [dig (nat \<bar>n\<bar> mod 10)]
      in if n' \<noteq> 0 then itoa_loop n' out' else (out', n))"
    by (subst itoa_loop.simps) (simp only: Let_def n'_def [symmetric] ch)
  show ?case
  proof (cases "n' = 0")
    case True
    then have "nat \<bar>n\<bar> < 10" using abs by simp
    with True show ?thesis by (auto simp: eq rev_digits.simps)
  next
    case False
    then have big: "\<not> nat \<bar>n\<bar> < 10" using abs by auto
    have sg: "n' < 0 \<longleftrightarrow> n < 0"
    proof -
      have "n' = sgn n * (\<bar>n\<bar> div 10)" and "0 < \<bar>n\<bar> div 10"
        using False big by (simp_all add: n'_def cdiv_def)
      then show ?thesis by (cases "n < 0") (auto simp: sgn_if)
    qed
    from 1 [OF refl refl refl] False
    obtain t where "itoa_loop n' (out @ [dig (nat \<bar>n\<bar> mod 10)]) =
        ((out @ [dig (nat \<bar>n\<bar> mod 10)]) @ rev_digits (nat \<bar>n'\<bar>), t)" "t < 0 \<longleftrightarrow> n' < 0"
      by (auto simp: n'_def [symmetric] ch)
    with False big show ?thesis
      by (auto simp: eq abs sg rev_digits.simps [of "nat \<bar>n\<bar>"])
  qed
qed

definition dec_value :: "string \<Rightarrow> nat" where
  "dec_value s = foldl (\<lambda>v c. 10 * v + (of_char c - 48)) 0 s"

definition parse_int :: "string \<Rightarrow> int" where
  "parse_int s =
     (if s \<noteq> [] \<and> hd s = CHR ''-'' then - int (dec_value (tl s)) else int (dec_value s))"

lemma of_char_dig: "k < 10 \<Longrightarrow> of_char (dig k) = 48 + k"
  by (simp add: dig_def)

lemma dec_value_rev_digits: "dec_value (rev (rev_digits m)) = m"
proof (induction m rule: rev_digits.induct)
  case (1 m)
  then show ?case
    by (cases "m < 10") (simp_all add: rev_digits.simps [of m] dec_value_def of_char_dig)
qed

lemma dig_not_minus: "k < 10 \<Longrightarrow> dig k \<noteq> CHR ''-''"
  using of_char_dig [of k] by auto

lemma rev_digits_digits: "c \<in> set (rev_digits m) \<Longrightarrow> \<exists>k<10. c = dig k"
proof (induction m rule: rev_digits.induct)
  case (1 m)
  then show ?case
    by (cases "m < 10") (auto simp: rev_digits.simps [of m] intro: exI [of _ "m mod 10"])
qed

lemma rev_digits_ne: "rev_digits m \<noteq> []"
  by (subst rev_digits.simps) simp

lemma length_rev_digits: "m < 10 ^ k \<Longrightarrow> 0 < k \<Longrightarrow> length (rev_digits m) \<le> k"
proof (induction k arbitrary: m)
  case (Suc k)
  show ?case
  proof (cases "m < 10")
    case False
    with Suc have "m div 10 < 10 ^ k" "0 < k"
      by (auto intro: gr0I)
    with Suc.IH show ?thesis using False by (simp add: rev_digits.simps [of m])
  qed (simp add: rev_digits.simps)
qed simp

lemma lwip_itoa_eq:
  "lwip_itoa n = (if n < 0 then ''-'' else []) @ rev (rev_digits (nat \<bar>n\<bar>))"
proof -
  obtain t where t: "itoa_loop n [] = (rev_digits (nat \<bar>n\<bar>), t)" "t < 0 \<longleftrightarrow> n < 0"
    using itoa_loop_digits [of n "[]"] by auto
  define buf where "buf = (if n < 0 then rev_digits (nat \<bar>n\<bar>) @ ''-'' else rev_digits (nat \<bar>n\<bar>))"
  have "lwip_itoa n = itoa_reverse buf 0 (length buf - 1)"
    by (simp add: lwip_itoa_def t buf_def Let_def)
  also have "\<dots> = rev buf"
    by (rule itoa_reverse_rev) (simp add: buf_def rev_digits_ne)
  finally show ?thesis by (simp add: buf_def)
qed

lemma parse_int_itoa: "parse_int (lwip_itoa n) = n"
proof (cases "n < 0")
  case True
  then show ?thesis by (simp add: lwip_itoa_eq parse_int_def dec_value_rev_digits)
next
  case False
  obtain c s where s: "rev (rev_digits (nat \<bar>n\<bar>)) = c # s"
    using rev_digits_ne by (cases "rev (rev_digits (nat \<bar>n\<bar>))") auto
  then have "c \<in> set (rev_digits (nat \<bar>n\<bar>))"
    by (metis list.set_intros(1) set_rev)
  then have "c \<noteq> CHR ''-''"
    using rev_digits_digits dig_not_minus by metis
  with False s show ?thesis
    using dec_value_rev_digits [of "nat \<bar>n\<bar>"]
    by (simp add: lwip_itoa_eq parse_int_def)
qed

section \<open>Properties\<close>

text \<open>
  \<open>lwip_htonl\<close> reverses the four bytes of its argument, and applying it twice gives the
  argument back, so it also serves as \<open>lwip_ntohl\<close>; likewise \<open>lwip_htons\<close> for two bytes.
\<close>
theorem htonl_reverses_bytes:
  "map (\<lambda>k. byte_at k (lwip_htonl x)) [0, 1, 2, 3] = map (\<lambda>k. byte_at k x) [3, 2, 1, 0] \<and>
   lwip_htonl (lwip_htonl x) = x \<and>
   unat (lwip_htons y) = unat y mod 256 * 256 + unat y div 256 \<and> lwip_htons (lwip_htons y) = y"
  by (simp add: byte_at_htonl unat_lwip_htons)

text \<open>
  C19. \<open>lwip_strnstr\<close> finds the first occurrence of a non-empty token that lies inside the first
  \<open>n\<close> characters of the buffer, and only such an occurrence; it fails exactly when there is none.
\<close>
theorem strnstr_first_occurrence:
  assumes "cstring buffer" and "cstring token" and "token \<noteq> []"
  shows "lwip_strnstr buffer token n = Some j \<longleftrightarrow>
     j + length token \<le> n \<and> token_at token buffer j \<and> (\<forall>k<j. \<not> token_at token buffer k)"
  using strnstr_loop_Some [OF assms] assms(3) by (simp add: lwip_strnstr_def)

theorem strnstr_first_occurrence_witness:
  "lwip_strnstr [0x61, 0x62, 0x61, 0x62, 0x63] [0x61, 0x62, 0x63] 5 = Some 2"
proof -
  have "cstring [0x61, 0x62, 0x61, 0x62, 0x63]" and "cstring [0x61, 0x62, 0x63]"
    by (simp_all add: cstring_def)
  then show ?thesis
    using strnstr_first_occurrence [of "[0x61, 0x62, 0x61, 0x62, 0x63]" "[0x61, 0x62, 0x63]" 5 2]
    by (simp add: token_at_def less_Suc_eq numeral_2_eq_2)
qed

text \<open>
  \<open>lwip_stricmp\<close> returns 0 exactly for strings that are equal up to the case of the ASCII
  letters.
\<close>
theorem stricmp_equal_iff:
  assumes "cstring s" and "cstring t"
  shows "lwip_stricmp s t = 0 \<longleftrightarrow> map ascii_lower s = map ascii_lower t"
  using assms by (rule stricmp_0_iff)

theorem stricmp_equal_iff_witness: "lwip_stricmp [0x41, 0x5f] [0x61, 0x5f] = 0"
  using stricmp_equal_iff [of "[0x41, 0x5f]" "[0x61, 0x5f]"] by (simp add: cstring_def ascii_lower_def)

text \<open>
  C20. \<open>lwip_strnicmp\<close> compares one character more than its length argument says: it returns 0
  exactly when the first \<open>len + 1\<close> characters are equal up to case.
\<close>
theorem strnicmp_compares_one_more:
  assumes "cstring s" and "cstring t"
  shows "lwip_strnicmp s t len = 0 \<longleftrightarrow>
     map ascii_lower (take (len + 1) s) = map ascii_lower (take (len + 1) t)"
  using strnicmp_0_iff [OF assms] by simp

theorem strnicmp_compares_one_more_witness: "lwip_strnicmp [0x61, 0x62] [0x41, 0x63] 1 \<noteq> 0"
  using strnicmp_compares_one_more [of "[0x61, 0x62]" "[0x41, 0x63]" 1]
  by (simp add: cstring_def ascii_lower_def)

text \<open>
  C18. \<open>lwip_itoa\<close> writes the decimal notation of its argument: reading it back gives the number,
  and the text of a 32-bit \<open>int\<close> takes at most 11 characters.
\<close>
theorem itoa_round_trip:
  "parse_int (lwip_itoa n) = n \<and> (\<bar>n\<bar> < 10 ^ 10 \<longrightarrow> length (lwip_itoa n) \<le> 11)"
  using length_rev_digits [of "nat \<bar>n\<bar>" 10] by (intro conjI impI parse_int_itoa) (auto simp: lwip_itoa_eq nat_less_iff)

theorem itoa_round_trip_witness:
  "parse_int (lwip_itoa (- 2147483648)) = - 2147483648 \<and> length (lwip_itoa (- 2147483648)) \<le> 11"
  using itoa_round_trip [of "- 2147483648"] by simp

end
