(* ===== verification/Netif.thy ===== *)
theory Netif
  imports Lwip_Def
begin

text \<open>
  The interface descriptor \<open>struct netif\<close> of \<open>lwip/netif.h\<close> in the configuration of
  \<open>lwipopts.h\<close> (IPv4 only, no hardware address hints, no loopback queue).  Addresses are kept in
  network byte order, as the code keeps them.  The function pointers \<open>input\<close>, \<open>output\<close> and
  \<open>linkoutput\<close> are operations of the components that install them and not data of the record; the
  callbacks of the application and the driver's data are identified by a number.
\<close>

record netif =
  nf_next :: "nat option"
  nf_ip_addr :: u32
  nf_netmask :: u32
  nf_gw :: u32
  nf_status_callback :: "nat option"
  nf_link_callback :: "nat option"
  nf_state :: "nat option"
  nf_client_data :: "nat \<Rightarrow> nat option"
  nf_hostname :: string
  nf_mtu :: nat
  nf_hwaddr_len :: nat
  nf_hwaddr :: "u8 list"
  nf_flags :: u8
  nf_name :: string
  nf_num :: nat
  nf_igmp_mac_filter :: "nat option"

definition NETIF_FLAG_UP :: u8 where "NETIF_FLAG_UP = 0x01"
definition NETIF_FLAG_BROADCAST :: u8 where "NETIF_FLAG_BROADCAST = 0x02"
definition NETIF_FLAG_LINK_UP :: u8 where "NETIF_FLAG_LINK_UP = 0x04"
definition NETIF_FLAG_ETHARP :: u8 where "NETIF_FLAG_ETHARP = 0x08"
definition NETIF_FLAG_ETHERNET :: u8 where "NETIF_FLAG_ETHERNET = 0x10"
definition NETIF_FLAG_IGMP :: u8 where "NETIF_FLAG_IGMP = 0x20"

lemmas netif_flag_defs [lwip_defs] =
  NETIF_FLAG_UP_def NETIF_FLAG_BROADCAST_def NETIF_FLAG_LINK_UP_def NETIF_FLAG_ETHARP_def
  NETIF_FLAG_ETHERNET_def NETIF_FLAG_IGMP_def

text \<open>\<open>netif->flags & flag\<close> used as a truth value.\<close>

definition netif_flag :: "netif \<Rightarrow> u8 \<Rightarrow> bool" where
  "netif_flag n f \<longleftrightarrow> nf_flags n AND f \<noteq> 0"

definition netif_is_up :: "netif \<Rightarrow> bool" where
  "netif_is_up n = netif_flag n NETIF_FLAG_UP"

definition netif_is_link_up :: "netif \<Rightarrow> bool" where
  "netif_is_link_up n = netif_flag n NETIF_FLAG_LINK_UP"

end
