(* ===== verification/Ip4_Addr.thy ===== *)
theory Ip4_Addr
  imports Netif
begin

text \<open>
  \<open>core/ipv4/ip4_addr.c\<close>: broadcast test, netmask test, and conversion of IPv4 addresses from and
  to text.  Addresses are \<open>u32\<close> values in network byte order on a little-endian host, so the first
  octet of the dotted form is the low byte of the word.
\<close>

section \<open>Definitions\<close>

definition IPADDR_ANY :: u32 where "IPADDR_ANY = 0"
definition IPADDR_NONE :: u32 where "IPADDR_NONE = 0xffffffff"
definition IPADDR_BROADCAST :: u32 where "IPADDR_BROADCAST = 0xffffffff"

lemmas ipaddr_consts [lwip_defs] = IPADDR_ANY_def IPADDR_NONE_def IPADDR_BROADCAST_def

definition ip4_addr_netcmp :: "u32 \<Rightarrow> u32 \<Rightarrow> u32 \<Rightarrow> bool" where
  "ip4_addr_netcmp addr1 addr2 msk \<longleftrightarrow> addr1 AND msk = addr2 AND msk"

definition ip4_addr_isany :: "u32 \<Rightarrow> bool" where
  "ip4_addr_isany addr \<longleftrightarrow> addr = IPADDR_ANY"

definition ip4_addr_ismulticast :: "u32 \<Rightarrow> bool" where
  "ip4_addr_ismulticast addr \<longleftrightarrow> addr AND lwip_htonl 0xf0000000 = lwip_htonl 0xe0000000"

definition ip4_addr_islinklocal :: "u32 \<Rightarrow> bool" where
  "ip4_addr_islinklocal addr \<longleftrightarrow> addr AND lwip_htonl 0xffff0000 = lwip_htonl 0xa9fe0000"

definition ip4_addr_isbroadcast_u32 :: "u32 \<Rightarrow> netif \<Rightarrow> bool" where
  "ip4_addr_isbroadcast_u32 addr netif =
     (if NOT addr = IPADDR_ANY \<or> addr = IPADDR_ANY then True
      else if \<not> netif_flag netif NETIF_FLAG_BROADCAST then False
      else if addr = nf_ip_addr netif then False
      else if ip4_addr_netcmp addr (nf_ip_addr netif) (nf_netmask netif)
           \<and> addr AND NOT (nf_netmask netif) = IPADDR_BROADCAST AND NOT (nf_netmask netif)
      then True else False)"

text \<open>
  The two loops of \<open>ip4_addr_netmask_valid\<close> shift \<open>mask\<close> right until it is zero, which it is after
  at most 32 shifts; the bit under test is the first argument.
\<close>

fun netmask_skip_ones :: "nat \<Rightarrow> u32 \<Rightarrow> u32 \<Rightarrow> u32" where
  "netmask_skip_ones 0 nm msk = msk"
| "netmask_skip_ones (Suc fuel) nm msk =
     (if msk \<noteq> 0 then
        if nm AND msk = 0 then msk else netmask_skip_ones fuel nm (drop_bit 1 msk)
      else msk)"

fun netmask_no_ones :: "nat \<Rightarrow> u32 \<Rightarrow> u32 \<Rightarrow> bool" where
  "netmask_no_ones 0 nm msk = True"
| "netmask_no_ones (Suc fuel) nm msk =
     (if msk \<noteq> 0 then
        if nm AND msk \<noteq> 0 then False else netmask_no_ones fuel nm (drop_bit 1 msk)
      else True)"

definition ip4_addr_netmask_valid :: "u32 \<Rightarrow> bool" where
  "ip4_addr_netmask_valid netmask =
     (let nm_hostorder = lwip_htonl netmask;
          msk = netmask_skip_ones 32 nm_hostorder (push_bit 31 1)
      in netmask_no_ones 32 nm_hostorder msk)"

definition in_range :: "u8 \<Rightarrow> u8 \<Rightarrow> u8 \<Rightarrow> bool" where
  "in_range c lo up \<longleftrightarrow> lo \<le> c \<and> c \<le> up"

definition isdigit :: "u8 \<Rightarrow> bool" where
  "isdigit c = in_range c 0x30 0x39"

definition isxdigit :: "u8 \<Rightarrow> bool" where
  "isxdigit c \<longleftrightarrow> isdigit c \<or> in_range c 0x61 0x66 \<or> in_range c 0x41 0x46"

definition islower :: "u8 \<Rightarrow> bool" where
  "islower c = in_range c 0x61 0x7a"

definition isspace :: "u8 \<Rightarrow> bool" where
  "isspace c \<longleftrightarrow> c = 0x20 \<or> c = 0x0c \<or> c = 0x0a \<or> c = 0x0d \<or> c = 0x09 \<or> c = 0x0b"

text \<open>The inner loop: digits in the given base, with the 32-bit wrap-around of \<open>val\<close>.\<close>

fun aton_number :: "u32 \<Rightarrow> u32 \<Rightarrow> u8 list \<Rightarrow> u32 \<times> u8 list" where
  "aton_number base val [] = (val, [])"
| "aton_number base val (c # cp) =
     (if isdigit c then aton_number base (val * base + ucast (c - 0x30)) cp
      else if base = 16 \<and> isxdigit c
      then aton_number base
             (push_bit 4 val OR ucast (c + 10 - (if islower c then 0x61 else 0x41))) cp
      else (val, c # cp))"

text \<open>One turn of the outer loop: the base prefix, then the digits.\<close>

definition aton_part :: "u8 list \<Rightarrow> u32 \<times> u8 list" where
  "aton_part cp =
     (if cchar cp = 0x30 then
        (let cp1 = tl cp in
         if cchar cp1 = 0x78 \<or> cchar cp1 = 0x58 then aton_number 16 0 (tl cp1)
         else aton_number 8 0 cp1)
      else aton_number 10 0 cp)"

lemma aton_number_length: "length (snd (aton_number base val cp)) \<le> length cp"
  by (induction base val cp rule: aton_number.induct) (auto intro: le_SucI)

lemma aton_part_length: "length (snd (aton_part cp)) \<le> length cp"
  using aton_number_length [of 16 0 "tl (tl cp)"] aton_number_length [of 8 0 "tl cp"]
    aton_number_length [of 10 0 cp]
  by (auto simp: aton_part_def Let_def)

lemma aton_part_dot:
  assumes "(val, cp') = aton_part cp" and "cchar cp' = 0x2e"
  shows "length cp' - Suc 0 < length cp"
proof -
  have "cp' \<noteq> []"
    using assms(2) by (auto simp: cchar_def)
  moreover have "length cp' \<le> length cp"
    using aton_part_length [of cp] by (simp flip: assms(1))
  ultimately show ?thesis
    by (cases cp') auto
qed

text \<open>The outer loop; \<open>parts\<close> is the array filled so far, at most three entries long.\<close>

function aton_parts :: "u8 list \<Rightarrow> u32 list \<Rightarrow> (u32 list \<times> u32 \<times> u8 list) option" where
  "aton_parts cp parts =
     (if \<not> isdigit (cchar cp) then None
      else (case aton_part cp of (val, cp') \<Rightarrow>
        if cchar cp' = 0x2e then
          if length parts \<ge> 3 then None else aton_parts (tl cp') (parts @ [val])
        else Some (parts, val, cp')))"
  by pat_completeness auto
termination
  by (relation "measure (\<lambda>(cp, parts). length cp)") (auto intro: aton_part_dot)

declare aton_parts.simps [simp del]

definition aton_concoct :: "u32 list \<Rightarrow> u32 \<Rightarrow> u32 option" where
  "aton_concoct parts val =
     (if length parts = 0 then Some val
      else if length parts = 1 then
        if val > 0xffffff then None
        else if parts ! 0 > 0xff then None
        else Some (val OR push_bit 24 (parts ! 0))
      else if length parts = 2 then
        if val > 0xffff then None
        else if parts ! 0 > 0xff \<or> parts ! 1 > 0xff then None
        else Some (val OR (push_bit 24 (parts ! 0) OR push_bit 16 (parts ! 1)))
      else if length parts = 3 then
        if val > 0xff then None
        else if parts ! 0 > 0xff \<or> parts ! 1 > 0xff \<or> parts ! 2 > 0xff then None
        else Some (val OR (push_bit 24 (parts ! 0) OR push_bit 16 (parts ! 1) OR push_bit 8 (parts ! 2)))
      else Some val)"

text \<open>\<open>Some addr\<close> is the return value 1 with the address stored, \<open>None\<close> the return value 0.\<close>

definition ip4addr_aton :: "u8 list \<Rightarrow> u32 option" where
  "ip4addr_aton cp =
     (case aton_parts cp [] of
        None \<Rightarrow> None
      | Some (parts, val, cp') \<Rightarrow>
          if cchar cp' \<noteq> 0 \<and> \<not> isspace (cchar cp') then None
          else (case aton_concoct parts val of
                  None \<Rightarrow> None
                | Some v \<Rightarrow> Some (lwip_htonl v)))"

definition ipaddr_addr :: "u8 list \<Rightarrow> u32" where
  "ipaddr_addr cp = (case ip4addr_aton cp of Some val \<Rightarrow> val | None \<Rightarrow> IPADDR_NONE)"

text \<open>The digits of one octet, least significant first: the array \<open>inv\<close>.\<close>

function ntoa_digits :: "u8 \<Rightarrow> u8 list" where
  "ntoa_digits ap =
     (let rem = ap mod 10; ap' = ap div 10
      in (0x30 + rem) # (if ap' \<noteq> 0 then ntoa_digits ap' else []))"
  by pat_completeness auto
termination
proof (relation "measure unat")
  fix ap ap' :: u8 and rem
  assume "ap' = ap div 10" and "ap' \<noteq> 0"
  then have "unat ap' = unat ap div 10" and "unat ap' \<noteq> 0"
    by (simp_all add: unat_div unat_gt_0 [symmetric])
  then show "(ap', ap) \<in> measure unat"
    by simp
qed simp

declare ntoa_digits.simps [simp del]

text \<open>\<open>if (len++ >= buflen) return NULL; *rp++ = c;\<close>\<close>

definition ntoa_put :: "nat \<Rightarrow> u8 \<Rightarrow> u8 list option \<Rightarrow> u8 list option" where
  "ntoa_put buflen c out =
     (case out of None \<Rightarrow> None
      | Some rp \<Rightarrow> if length rp \<ge> buflen then None else Some (rp @ [c]))"

definition ntoa_octet :: "nat \<Rightarrow> u8 \<Rightarrow> u8 list option \<Rightarrow> u8 list option" where
  "ntoa_octet buflen ap out =
     ntoa_put buflen 0x2e (fold (ntoa_put buflen) (rev (ntoa_digits ap)) out)"

definition octet :: "nat \<Rightarrow> u32 \<Rightarrow> u8" where
  "octet n s_addr = ucast (drop_bit (8 * n) s_addr)"

definition ip4addr_ntoa_r :: "u32 \<Rightarrow> nat \<Rightarrow> u8 list option" where
  "ip4addr_ntoa_r s_addr buflen =
     map_option butlast
       (fold (\<lambda>n. ntoa_octet buflen (octet n s_addr)) [0..<4] (Some []))"

definition IP4ADDR_STRLEN_MAX :: nat where
  "IP4ADDR_STRLEN_MAX = 16"

definition ip4addr_ntoa :: "u32 \<Rightarrow> u8 list option" where
  "ip4addr_ntoa addr = ip4addr_ntoa_r addr IP4ADDR_STRLEN_MAX"


lemma cchar_simps [simp]: "cchar [] = 0" "cchar (c # s) = c"
  by (simp_all add: cchar_def)

lemma isdigit_dot: "\<not> isdigit 0x2e" "\<not> isdigit 0"
  by (simp_all add: isdigit_def in_range_def)

lemma isdigit_dig: "k < 10 \<Longrightarrow> isdigit (0x30 + word_of_nat k)"
  by (simp add: isdigit_def in_range_def word_le_nat_alt unat_word_ariths unat_of_nat)

lemma ucast_dig: "k < 10 \<Longrightarrow> ucast (word_of_nat k :: u8) = (word_of_nat k :: u32)"
  by (simp add: word_unat_eq_iff unat_ucast_mod unat_of_nat)

lemma dig_eq_30: "k < 10 \<Longrightarrow> (word_of_nat k :: u8) = 0 \<longleftrightarrow> k = 0"
  by (simp add: word_unat_eq_iff unat_word_ariths unat_of_nat)

lemma ntoa_digits_nat:
  assumes "b < 256"
  shows "ntoa_digits (word_of_nat b) =
    (0x30 + word_of_nat (b mod 10)) # (if b < 10 then [] else ntoa_digits (word_of_nat (b div 10)))"
proof -
  have m: "(word_of_nat b :: u8) mod 10 = word_of_nat (b mod 10)"
    using assms by (simp add: word_unat_eq_iff unat_mod unat_of_nat)
  have d: "(word_of_nat b :: u8) div 10 = word_of_nat (b div 10)"
    using assms by (simp add: word_unat_eq_iff unat_div unat_of_nat)
  have z: "(word_of_nat (b div 10) :: u8) = 0 \<longleftrightarrow> b < 10"
    using assms by (simp add: word_unat_eq_iff unat_of_nat) auto
  show ?thesis
    by (subst ntoa_digits.simps) (simp add: Let_def m d z)
qed

text \<open>decimal number b followed by stop\<close>
lemma aton_number_stop:
  "\<not> isdigit (cchar rest) \<Longrightarrow> aton_number 10 v rest = (v, rest)" 
  by (cases rest) (simp_all add: cchar_def)

lemma aton_number_stop8:
  "\<not> isdigit (cchar rest) \<Longrightarrow> aton_number 8 v rest = (v, rest)" 
  by (cases rest) (simp_all add: cchar_def)

lemma aton_number_dig:
  "k < 10 \<Longrightarrow> aton_number 10 v ((0x30 + word_of_nat k) # rest) = aton_number 10 (v * 10 + word_of_nat k) rest"
  by (simp add: isdigit_dig ucast_dig)

lemma aton_number_digits:
  assumes "b < 256"
  shows "aton_number 10 0 (rev (ntoa_digits (word_of_nat b)) @ rest) = aton_number 10 (word_of_nat b) rest"
  using assms
proof (induction b arbitrary: rest rule: less_induct)
  case (less b)
  show ?case
  proof (cases "b < 10")
    case True
    then show ?thesis using less.prems
      by (simp add: ntoa_digits_nat aton_number_dig del: aton_number.simps)
  next
    case False
    have "(word_of_nat (b div 10) * 10 + word_of_nat (b mod 10) :: u32) = word_of_nat (b div 10 * 10 + b mod 10)"
      by (simp only: of_nat_add of_nat_mult) simp
    then have v: "(word_of_nat (b div 10) * 10 + word_of_nat (b mod 10) :: u32) = word_of_nat b"
      by simp
    show ?thesis
      using False less by (simp add: ntoa_digits_nat aton_number_dig v del: aton_number.simps)
  qed
qed

lemma ntoa_digits_first:
  assumes "b < 256" "b \<noteq> 0"
  shows "\<exists>k xs. rev (ntoa_digits (word_of_nat b)) = (0x30 + word_of_nat k) # xs \<and> 0 < k \<and> k < 10"
  using assms
proof (induction b rule: less_induct)
  case (less b)
  show ?case
  proof (cases "b < 10")
    case True
    with less.prems show ?thesis by (auto simp: ntoa_digits_nat)
  next
    case False
    with less.IH [of "b div 10"] less.prems show ?thesis by (force simp: ntoa_digits_nat)
  qed
qed

lemma aton_part_octet:
  assumes "b < 256" and "\<not> isdigit (cchar rest)" and "cchar rest \<noteq> 0x78" and "cchar rest \<noteq> 0x58"
  shows "aton_part (rev (ntoa_digits (word_of_nat b)) @ rest) = (word_of_nat b, rest)"
proof (cases "b = 0")
  case True
  then show ?thesis
    using assms aton_number_stop8 [of rest 0]
    by (simp add: aton_part_def ntoa_digits_nat [of 0, simplified] cchar_def)
next
  case False
  then obtain k xs where k: "rev (ntoa_digits (word_of_nat b)) = (0x30 + word_of_nat k) # xs" "0 < k" "k < 10"
    using ntoa_digits_first assms(1) by blast
  then have "cchar (rev (ntoa_digits (word_of_nat b)) @ rest) \<noteq> 0x30"
    by (simp add: cchar_def dig_eq_30)
  then show ?thesis
    using assms by (simp add: aton_part_def aton_number_digits aton_number_stop)
qed

lemma isdigit_digits:
  assumes "b < 256" 
  shows "isdigit (cchar (rev (ntoa_digits (word_of_nat b)) @ rest))"
proof (cases "b = 0")
  case True
  then show ?thesis by (simp add: ntoa_digits_nat [of 0, simplified] cchar_def isdigit_def in_range_def)
next
  case False
  then obtain k xs where k: "rev (ntoa_digits (word_of_nat b)) = (0x30 + word_of_nat k) # xs" "0 < k" "k < 10"
    using ntoa_digits_first assms(1) by blast
  then show ?thesis by (simp add: cchar_def isdigit_dig)
qed

definition dotted :: "u32 \<Rightarrow> u8 list" where
  "dotted a = rev (ntoa_digits (octet 0 a)) @ [0x2e] @ rev (ntoa_digits (octet 1 a)) @ [0x2e] @
     rev (ntoa_digits (octet 2 a)) @ [0x2e] @ rev (ntoa_digits (octet 3 a))"

lemma octet_byte_at: "octet n a = word_of_nat (byte_at n a)"
  by (simp add: octet_def byte_at_def word_unat_eq_iff unat_of_nat unat_ucast_mod unat_drop_bit_div)

lemma aton_parts_octet_dot:
  "b < 256 \<Longrightarrow> length parts < 3 \<Longrightarrow>
   aton_parts (rev (ntoa_digits (word_of_nat b)) @ [0x2e] @ rest) parts = aton_parts rest (parts @ [word_of_nat b])"
  by (subst aton_parts.simps)
     (simp add: isdigit_digits aton_part_octet isdigit_dot)

lemma aton_parts_octet_end:
  "b < 256 \<Longrightarrow> 
   aton_parts (rev (ntoa_digits (word_of_nat b))) parts = Some (parts, word_of_nat b, [])"
  using aton_part_octet [of b "[]"] isdigit_digits [of b "[]"]
  by (subst aton_parts.simps) (simp add: isdigit_dot)

lemma unat_be32:
  fixes b0 b1 b2 b3 :: nat
  assumes "b0 < 256" "b1 < 256" "b2 < 256" "b3 < 256"
  shows "unat (word_of_nat b3 OR (push_bit 24 (word_of_nat b0) OR push_bit 16 (word_of_nat b1) OR
     push_bit 8 (word_of_nat b2)) :: u32) = b3 + 256 * (b2 + 256 * (b1 + 256 * b0))"
proof -
  have b: "unat (word_of_nat b :: u32) = b" if "b < 256" for b
    using that by (simp add: unat_of_nat)
  have 1: "unat (push_bit 8 (word_of_nat b2) OR word_of_nat b3 :: u32) = b2 * 256 + b3"
    using assms by (subst unat_concat_bytes) (simp_all add: b)
  have 2: "unat (push_bit 16 (word_of_nat b1) OR (push_bit 8 (word_of_nat b2) OR word_of_nat b3) :: u32)
      = b1 * 65536 + (b2 * 256 + b3)"
    using assms by (subst unat_concat_bytes) (simp_all add: b 1)
  have 3: "unat (push_bit 24 (word_of_nat b0) OR (push_bit 16 (word_of_nat b1) OR
      (push_bit 8 (word_of_nat b2) OR word_of_nat b3)) :: u32) = b0 * 16777216 + (b1 * 65536 + (b2 * 256 + b3))"
    using assms by (subst unat_concat_bytes) (simp_all add: b 2)
  then show ?thesis
    by (simp add: or.commute or.left_commute or.assoc)
qed

lemma base256_div_mod:
  fixes r q :: nat
  assumes "r < 256"
  shows "(r + 256 * q) mod 256 = r" "(r + 256 * q) div 256 = q"
  using assms by simp_all

lemma byte_at_base256:
  assumes "unat x = b3 + 256 * (b2 + 256 * (b1 + 256 * b0))"
    and "b0 < 256" "b1 < 256" "b2 < 256" "b3 < 256"
  shows "byte_at 0 x = b3" "byte_at (Suc 0) x = b2" "byte_at 2 x = b1" "byte_at 3 x = b0"
proof -
  have d: "m div 65536 = m div 256 div 256" "m div 16777216 = m div 256 div 256 div 256" for m :: nat
    by (simp_all add: div_mult2_eq [symmetric])
  show "byte_at 0 x = b3" "byte_at (Suc 0) x = b2" "byte_at 2 x = b1" "byte_at 3 x = b0"
    using assms(2-) unfolding byte_at_def
    by (simp_all add: assms(1) d base256_div_mod del: distrib_left_numeral)
qed

lemma aton_dotted: "ip4addr_aton (dotted a) = Some a"
proof -
  let ?b = "\<lambda>n. byte_at n a"
  have p: "aton_parts (dotted a) [] = Some ([word_of_nat (?b 0), word_of_nat (?b 1), word_of_nat (?b 2)], word_of_nat (?b 3), [])"
    by (simp add: dotted_def octet_byte_at aton_parts_octet_dot [simplified] aton_parts_octet_end)
  have le: "\<not> (0xff :: u32) < word_of_nat (?b n)" for n
    using byte_at_less [of n a] by (simp add: word_less_nat_alt unat_of_nat del: byte_at_less)
  define v :: u32 where "v = word_of_nat (?b 3) OR (push_bit 24 (word_of_nat (?b 0)) OR push_bit 16 (word_of_nat (?b 1)) OR push_bit 8 (word_of_nat (?b 2)))"
  have "unat v = ?b 3 + 256 * (?b 2 + 256 * (?b 1 + 256 * ?b 0))"
    unfolding v_def by (rule unat_be32) simp_all
  note v = byte_at_base256 [OF this byte_at_less byte_at_less byte_at_less byte_at_less]
  have "lwip_htonl v = a"
  proof (rule u32_eq_bytesI)
    fix k :: nat
    assume "k < 4"
    then consider "k = 0" | "k = 1" | "k = 2" | "k = 3" by linarith
    then show "byte_at k (lwip_htonl v) = byte_at k a"
      by cases (simp_all add: byte_at_htonl v)
  qed
  then show ?thesis
    by (simp add: ip4addr_aton_def p cchar_def aton_concoct_def le v_def)
qed

lemma ntoa_put_simps [simp]:
  "ntoa_put n c None = None"
  "ntoa_put n c (Some rp) = (if n \<le> length rp then None else Some (rp @ [c]))"
  by (simp_all add: ntoa_put_def)

lemma fold_ntoa_put_None [simp]: "fold (ntoa_put n) xs None = None"
  by (induction xs) simp_all

lemma fold_ntoa_put:
  "length out \<le> n \<Longrightarrow>
   fold (ntoa_put n) xs (Some out) = (if length out + length xs \<le> n then Some (out @ xs) else None)"
  by (induction xs arbitrary: out) auto

lemma ntoa_octet_simps:
  "ntoa_octet n b None = None"
  "length out \<le> n \<Longrightarrow> ntoa_octet n b (Some out) =
     (if length out + length (ntoa_digits b) < n then Some (out @ rev (ntoa_digits b) @ [0x2e]) else None)"
  using fold_ntoa_put [of out n "rev (ntoa_digits b) @ [0x2e]"]
  by (simp_all add: ntoa_octet_def Suc_le_eq)

lemma ntoa_r_dotted:
  "ip4addr_ntoa_r a buflen = (if length (dotted a) < buflen then Some (dotted a) else None)"
proof -
  have upt: "[0..<4] = [0, 1, 2, 3 :: nat]"
    by (simp add: upt_rec)
  show ?thesis
    by (simp add: ip4addr_ntoa_r_def upt ntoa_octet_simps dotted_def butlast_append)
qed

lemma length_ntoa_digits: "length (ntoa_digits b) \<le> 3"
proof -
  have "ntoa_digits (word_of_nat (unat b)) = ntoa_digits b" by simp
  moreover have "length (ntoa_digits (word_of_nat m)) \<le> 3" if "m < 256" for m
    using that by (simp add: ntoa_digits_nat [of m] ntoa_digits_nat [of "m div 10"] ntoa_digits_nat [of "m div 10 div 10"])
  ultimately show ?thesis by (metis unat_u8_less)
qed

lemma length_dotted: "length (dotted a) \<le> 15"
  using length_ntoa_digits [of "octet 0 a"] length_ntoa_digits [of "octet 1 a"]
    length_ntoa_digits [of "octet 2 a"] length_ntoa_digits [of "octet 3 a"]
  by (simp add: dotted_def)

definition bit_mask :: "nat \<Rightarrow> u32" where
  "bit_mask j = (if j = 0 then 0 else 2 ^ (j - 1))"

lemma bit_bit_mask: "j \<le> 32 \<Longrightarrow> bit (bit_mask j) i \<longleftrightarrow> j = Suc i"
  by (auto simp: bit_mask_def bit_exp_iff)

lemma drop_bit_mask: "j \<le> 32 \<Longrightarrow> drop_bit 1 (bit_mask j) = bit_mask (j - 1)"
  by (rule bit_word_eqI) (auto simp: bit_drop_bit_eq bit_bit_mask)

lemma and_bit_mask: "j < 32 \<Longrightarrow> nm AND bit_mask (Suc j) = 0 \<longleftrightarrow> \<not> bit nm j"
  by (simp add: bit_mask_def and_exp_eq_0_iff_not_bit)

lemma bit_mask_0 [simp]: "j \<le> 32 \<Longrightarrow> bit_mask j = 0 \<longleftrightarrow> j = 0"
  by (auto simp: bit_mask_def)

lemma netmask_no_ones_mask:
  "j \<le> 32 \<Longrightarrow> j \<le> fuel \<Longrightarrow> netmask_no_ones fuel nm (bit_mask j) \<longleftrightarrow> (\<forall>i<j. \<not> bit nm i)"
proof (induction j arbitrary: fuel)
  case 0
  then show ?case by (cases fuel) simp_all
next
  case (Suc j)
  then obtain f where "fuel = Suc f" by (cases fuel) auto
  with Suc show ?case
    using drop_bit_mask [of "Suc j"] by (simp add: and_bit_mask All_less_Suc) 
qed

lemma netmask_skip_mask:
  "j \<le> 32 \<Longrightarrow> j \<le> fuel \<Longrightarrow>
   \<exists>i\<le>j. netmask_skip_ones fuel nm (bit_mask j) = bit_mask i \<and>
     (\<forall>l. i \<le> l \<and> l < j \<longrightarrow> bit nm l) \<and> (i = 0 \<or> \<not> bit nm (i - 1))"
proof (induction j arbitrary: fuel)
  case 0
  then show ?case by (cases fuel) auto
next
  case (Suc j)
  then obtain f where f: "fuel = Suc f" by (cases fuel) auto
  show ?case
  proof (cases "bit nm j")
    case True
    obtain i where "i \<le> j" "netmask_skip_ones f nm (bit_mask j) = bit_mask i"
      "\<forall>l. i \<le> l \<and> l < j \<longrightarrow> bit nm l" "i = 0 \<or> \<not> bit nm (i - 1)"
      using Suc.IH [of f] Suc.prems f by auto
    with True Suc.prems f show ?thesis
      using drop_bit_mask [of "Suc j"]
      by (intro exI [of _ i]) (auto simp: and_bit_mask less_Suc_eq)
  next
    case False
    with Suc.prems f show ?thesis
      by (intro exI [of _ "Suc j"]) (auto simp: and_bit_mask)
  qed
qed

lemma netmask_valid_mask:
  "ip4_addr_netmask_valid m \<longleftrightarrow> (\<exists>k\<le>32. lwip_htonl m = NOT (mask k))"
proof -
  define nm where "nm = lwip_htonl m"
  obtain i where i: "i \<le> 32" "netmask_skip_ones 32 nm (bit_mask 32) = bit_mask i"
    "\<forall>l. i \<le> l \<and> l < 32 \<longrightarrow> bit nm l" "i = 0 \<or> \<not> bit nm (i - 1)"
    using netmask_skip_mask [of 32 32 nm] by auto
  have valid: "ip4_addr_netmask_valid m \<longleftrightarrow> (\<forall>l<i. \<not> bit nm l)"
    using i(1,2) netmask_no_ones_mask [of i 32 nm]
    by (simp add: ip4_addr_netmask_valid_def Let_def nm_def [symmetric] bit_mask_def [of 32])
  have eq: "nm = NOT (mask k) \<longleftrightarrow> (\<forall>l<32. bit nm l \<longleftrightarrow> k \<le> l)" for k
    by (auto simp: bit_eq_iff bit_not_iff bit_mask_iff not_less dest: bit_imp_le_length)
  show ?thesis
  proof
    assume "ip4_addr_netmask_valid m"
    with i valid show "\<exists>k\<le>32. lwip_htonl m = NOT (mask k)"
      unfolding nm_def [symmetric] eq by (metis not_le)
  next
    assume "\<exists>k\<le>32. lwip_htonl m = NOT (mask k)"
    then obtain k where k: "k \<le> 32" "\<forall>l<32. bit nm l \<longleftrightarrow> k \<le> l"
      unfolding nm_def [symmetric] eq by blast
    with i(1,4) have "i \<le> k" 
      by (cases i) auto
    with k i(1) show "ip4_addr_netmask_valid m"
      unfolding valid by auto
  qed
qed

section \<open>Properties\<close>

text \<open>
  C10. Printing an address with \<open>ip4addr_ntoa\<close> always succeeds, fits the 16-byte static buffer with
  its terminator, and parsing the text with \<open>ip4addr_aton\<close> gives the address back.
\<close>
theorem ntoa_aton_round_trip:
  "\<exists>s. ip4addr_ntoa a = Some s \<and> length s < IP4ADDR_STRLEN_MAX \<and> ip4addr_aton s = Some a"
  using length_dotted [of a] by (simp add: ip4addr_ntoa_def ntoa_r_dotted IP4ADDR_STRLEN_MAX_def aton_dotted)

text \<open>
  C16. \<open>ip4_addr_netmask_valid\<close> accepts exactly the contiguous masks: in host order, \<open>32 - k\<close> ones
  followed by \<open>k\<close> zeros.
\<close>
theorem netmask_valid_contiguous:
  "ip4_addr_netmask_valid m \<longleftrightarrow> (\<exists>k\<le>32. lwip_htonl m = NOT (mask k))"
  by (rule netmask_valid_mask)


end
