(* ===== verification/Inet_Chksum.thy ===== *)
theory Inet_Chksum
  imports Ip4_Addr
begin

text \<open>
  The Internet checksum, \<open>core/inet_chksum.c\<close> and \<open>arch/checksum.c\<close>: the three portable
  summation routines lwIP can be configured with, the hand-written Thumb-2 routine this port
  selects, and the clients that sum a buffer, a pbuf chain or a chain with a pseudo header.

  A memory region is its start address (the routines treat odd and unaligned addresses
  specially) and its bytes; a pbuf chain is the list of the regions its pbufs describe.
  \<open>LWIP_CHKSUM\<close>, the macro that names the selected routine, is the argument \<open>ck\<close> of the
  clients.  The contract a routine owes them is the locale \<open>inet_sum_routine\<close>; all four routines
  are interpretations of it.
\<close>

section \<open>Macros and loads\<close>

definition FOLD_U32T :: "u32 \<Rightarrow> u32" where
  "FOLD_U32T u = drop_bit 16 u + (u AND 0x0000ffff)"

definition SWAP_BYTES_IN_WORD :: "u32 \<Rightarrow> u32" where
  "SWAP_BYTES_IN_WORD w = push_bit 8 (w AND 0xff) OR drop_bit 8 (w AND 0xff00)"

definition ld16 :: "u8 \<Rightarrow> u8 \<Rightarrow> u16" where
  "ld16 a b = push_bit 8 (ucast b) OR ucast a"

definition ld32 :: "u8 \<Rightarrow> u8 \<Rightarrow> u8 \<Rightarrow> u8 \<Rightarrow> u32" where
  "ld32 a b c d = push_bit 16 (ucast (ld16 c d)) OR ucast (ld16 a b)"

section \<open>The summation routines\<close>

fun chksum1_loop :: "u32 \<Rightarrow> u8 list \<Rightarrow> u32" where
  "chksum1_loop acc (a # b # bs) =
     (let src = push_bit 8 (ucast a :: u16) OR ucast b in chksum1_loop (acc + ucast src) bs)"
| "chksum1_loop acc [a] = (let src = push_bit 8 (ucast a :: u16) in acc + ucast src)"
| "chksum1_loop acc [] = acc"

definition lwip_standard_chksum1 :: "nat \<Rightarrow> u8 list \<Rightarrow> u16" where
  "lwip_standard_chksum1 dataptr bs =
     (let acc = chksum1_loop 0 bs;
          acc = drop_bit 16 acc + (acc AND 0x0000ffff);
          acc = (if acc AND 0xffff0000 \<noteq> 0 then drop_bit 16 acc + (acc AND 0x0000ffff) else acc)
      in lwip_htons (ucast acc))"

fun sum_halves :: "u32 \<Rightarrow> u8 list \<Rightarrow> u32 \<times> u8 list" where
  "sum_halves sm (a # b # bs) = sum_halves (sm + ucast (ld16 a b)) bs"
| "sum_halves sm bs = (sm, bs)"

definition head_byte :: "bool \<Rightarrow> u8 list \<Rightarrow> u16 \<times> u8 list" where
  "head_byte odd_addr bs =
     (if odd_addr \<and> bs \<noteq> [] then (push_bit 8 (ucast (hd bs)), tl bs) else (0, bs))"

definition tail_byte :: "u16 \<Rightarrow> u8 list \<Rightarrow> u16" where
  "tail_byte t bs = (case bs of [] \<Rightarrow> t | b # _ \<Rightarrow> (t AND 0xff00) OR ucast b)"

definition lwip_standard_chksum2 :: "nat \<Rightarrow> u8 list \<Rightarrow> u16" where
  "lwip_standard_chksum2 dataptr bs =
     (let odd_addr = odd dataptr;
          (t, pb) = head_byte odd_addr bs;
          (sm, ps) = sum_halves 0 pb;
          t = tail_byte t ps;
          sm = sm + ucast t;
          sm = FOLD_U32T sm;
          sm = FOLD_U32T sm;
          sm = (if odd_addr then SWAP_BYTES_IN_WORD sm else sm)
      in ucast sm)"

definition add_back_carry :: "u32 \<Rightarrow> u32 \<Rightarrow> u32" where
  "add_back_carry sm x = (let tmp = sm + x in if tmp < sm then tmp + 1 else tmp)"

fun ping_pong :: "u32 \<Rightarrow> u8 list \<Rightarrow> u32 \<times> u8 list" where
  "ping_pong sm (a # b # c # d # e # f # g # h # bs) =
     (let tmp = add_back_carry sm (ld32 a b c d);
          sm = add_back_carry tmp (ld32 e f g h)
      in ping_pong sm bs)"
| "ping_pong sm bs = (sm, bs)"

definition align_half :: "nat \<Rightarrow> u32 \<Rightarrow> u8 list \<Rightarrow> u32 \<times> u8 list" where
  "align_half ps sm bs =
     (if ps mod 4 \<noteq> 0 \<and> length bs > 1
      then (sm + ucast (ld16 (bs ! 0) (bs ! 1)), drop 2 bs) else (sm, bs))"

definition lwip_standard_chksum3 :: "nat \<Rightarrow> u8 list \<Rightarrow> u16" where
  "lwip_standard_chksum3 dataptr bs =
     (let odd_addr = odd dataptr;
          (t, pb) = head_byte odd_addr bs;
          ps = (if odd_addr \<and> bs \<noteq> [] then dataptr + 1 else dataptr);
          (sm, pl) = align_half ps 0 pb;
          (sm, pl) = ping_pong sm pl;
          sm = FOLD_U32T sm;
          (sm, ps) = sum_halves sm pl;
          t = tail_byte t ps;
          sm = sm + ucast t;
          sm = FOLD_U32T sm;
          sm = FOLD_U32T sm;
          sm = (if odd_addr then SWAP_BYTES_IN_WORD sm else sm)
      in ucast sm)"

text \<open>
  The Thumb-2 routine, label by label: \<open>adds\<close> sets the carry flag to the carry out of the
  32-bit addition and \<open>adc r2, r2, #0\<close> adds it back.
\<close>

definition adds_adc :: "u32 \<Rightarrow> u32 \<Rightarrow> u32" where
  "adds_adc r2 r4 = r2 + r4 + (if unat r2 + unat r4 \<ge> 2 ^ 32 then 1 else 0)"

fun thumb2_words :: "u32 \<Rightarrow> u8 list \<Rightarrow> u32 \<times> u8 list" where
  "thumb2_words r2 (a # b # c # d # e # f # g # h # bs) =
     (let r2 = adds_adc r2 (ld32 a b c d);
          r2 = adds_adc r2 (ld32 e f g h)
      in thumb2_words r2 bs)"
| "thumb2_words r2 bs = (r2, bs)"

fun thumb2_halves :: "u32 \<Rightarrow> u8 list \<Rightarrow> u32 \<times> u8 list" where
  "thumb2_halves r2 (a # b # bs) = thumb2_halves (adds_adc r2 (ucast (ld16 a b))) bs"
| "thumb2_halves r2 bs = (r2, bs)"

definition thumb2_tail :: "u32 \<Rightarrow> u8 list \<Rightarrow> u32" where
  "thumb2_tail r2 bs =
     (let r2 = (case bs of [] \<Rightarrow> r2 | b # _ \<Rightarrow> adds_adc r2 (ucast b));
          r4 = drop_bit 16 r2; r2 = r2 AND 0xffff; r2 = r2 + r4;
          r4 = drop_bit 16 r2; r2 = r2 AND 0xffff
      in r2 + r4)"

definition rev16 :: "u32 \<Rightarrow> u32" where
  "rev16 x = (push_bit 8 (x AND 0x00ff00ff)) OR (drop_bit 8 (x AND 0xff00ff00))"

definition thumb2_checksum :: "nat \<Rightarrow> u8 list \<Rightarrow> u16" where
  "thumb2_checksum pData bs =
     (let r3 = pData mod 2 in
      if r3 = 1 \<and> bs = [] then 0
      else
        let (r2, r0, bs) = (if r3 = 1 then (push_bit 8 (ucast (hd bs)), pData + 1, tl bs)
                            else (0, pData, bs));
            r2 = (if r0 mod 4 \<noteq> 0 \<and> length bs < 2 then thumb2_tail r2 bs
                  else
                    let (r2, bs) = align_half r0 r2 bs;
                        (r2, bs) = thumb2_words r2 bs;
                        (r2, bs) = thumb2_halves r2 bs
                    in thumb2_tail r2 bs);
            r2 = (if r3 = 0 then r2 else rev16 r2)
        in ucast r2)"

section \<open>Clients of the selected routine\<close>

type_synonym chksum_routine = "nat \<Rightarrow> u8 list \<Rightarrow> u16"
type_synonym segment = "nat \<times> u8 list"

definition inet_chksum :: "chksum_routine \<Rightarrow> nat \<Rightarrow> u8 list \<Rightarrow> u16" where
  "inet_chksum ck dataptr bs = NOT (ck dataptr bs)"

fun chksum_chain_loop :: "chksum_routine \<Rightarrow> segment list \<Rightarrow> u32 \<Rightarrow> bool \<Rightarrow> u32 \<times> bool" where
  "chksum_chain_loop ck [] acc swapped = (acc, swapped)"
| "chksum_chain_loop ck ((payload, bs) # q) acc swapped =
     (let acc = acc + ucast (ck payload bs);
          acc = FOLD_U32T acc
      in if length bs mod 2 \<noteq> 0
         then chksum_chain_loop ck q (SWAP_BYTES_IN_WORD acc) (\<not> swapped)
         else chksum_chain_loop ck q acc swapped)"

definition inet_chksum_pbuf :: "chksum_routine \<Rightarrow> segment list \<Rightarrow> u16" where
  "inet_chksum_pbuf ck p =
     (let (acc, swapped) = chksum_chain_loop ck p 0 False;
          acc = (if swapped then SWAP_BYTES_IN_WORD acc else acc)
      in ucast (NOT (acc AND 0xffff)))"

definition pseudo_tail :: "u32 \<Rightarrow> u8 \<Rightarrow> u16 \<Rightarrow> u16" where
  "pseudo_tail acc proto proto_len =
     (let acc = acc + ucast (lwip_htons (ucast proto));
          acc = acc + ucast (lwip_htons proto_len);
          acc = FOLD_U32T acc;
          acc = FOLD_U32T acc
      in ucast (NOT (acc AND 0xffff)))"

definition inet_cksum_pseudo_base ::
    "chksum_routine \<Rightarrow> segment list \<Rightarrow> u8 \<Rightarrow> u16 \<Rightarrow> u32 \<Rightarrow> u16" where
  "inet_cksum_pseudo_base ck p proto proto_len acc =
     (let (acc, swapped) = chksum_chain_loop ck p acc False;
          acc = (if swapped then SWAP_BYTES_IN_WORD acc else acc)
      in pseudo_tail acc proto proto_len)"

definition pseudo_addr_acc :: "u32 \<Rightarrow> u32 \<Rightarrow> u32" where
  "pseudo_addr_acc src dest =
     (let acc = src AND 0xffff;
          acc = acc + (drop_bit 16 src AND 0xffff);
          acc = acc + (dest AND 0xffff);
          acc = acc + (drop_bit 16 dest AND 0xffff);
          acc = FOLD_U32T acc
      in FOLD_U32T acc)"

definition inet_chksum_pseudo ::
    "chksum_routine \<Rightarrow> segment list \<Rightarrow> u8 \<Rightarrow> u16 \<Rightarrow> u32 \<Rightarrow> u32 \<Rightarrow> u16" where
  "inet_chksum_pseudo ck p proto proto_len src dest =
     inet_cksum_pseudo_base ck p proto proto_len (pseudo_addr_acc src dest)"

definition ip_chksum_pseudo ::
    "chksum_routine \<Rightarrow> segment list \<Rightarrow> u8 \<Rightarrow> u16 \<Rightarrow> u32 \<Rightarrow> u32 \<Rightarrow> u16" where
  "ip_chksum_pseudo ck p proto proto_len src dest =
     inet_chksum_pseudo ck p proto proto_len src dest"

fun chksum_partial_loop ::
    "chksum_routine \<Rightarrow> segment list \<Rightarrow> nat \<Rightarrow> u32 \<Rightarrow> bool \<Rightarrow> u32 \<times> bool" where
  "chksum_partial_loop ck [] chksum_len acc swapped = (acc, swapped)"
| "chksum_partial_loop ck ((payload, bs) # q) chksum_len acc swapped =
     (if chksum_len > 0 then
        (let chklen = (if length bs > chksum_len then chksum_len else length bs);
             acc = acc + ucast (ck payload (take chklen bs));
             chksum_len = chksum_len - chklen;
             acc = FOLD_U32T acc
         in if length bs mod 2 \<noteq> 0
            then chksum_partial_loop ck q chksum_len (SWAP_BYTES_IN_WORD acc) (\<not> swapped)
            else chksum_partial_loop ck q chksum_len acc swapped)
      else (acc, swapped))"

definition inet_cksum_pseudo_partial_base ::
    "chksum_routine \<Rightarrow> segment list \<Rightarrow> u8 \<Rightarrow> u16 \<Rightarrow> u16 \<Rightarrow> u32 \<Rightarrow> u16" where
  "inet_cksum_pseudo_partial_base ck p proto proto_len chksum_len acc =
     (let (acc, swapped) = chksum_partial_loop ck p (unat chksum_len) acc False;
          acc = (if swapped then SWAP_BYTES_IN_WORD acc else acc)
      in pseudo_tail acc proto proto_len)"

definition inet_chksum_pseudo_partial ::
    "chksum_routine \<Rightarrow> segment list \<Rightarrow> u8 \<Rightarrow> u16 \<Rightarrow> u16 \<Rightarrow> u32 \<Rightarrow> u32 \<Rightarrow> u16" where
  "inet_chksum_pseudo_partial ck p proto proto_len chksum_len src dest =
     inet_cksum_pseudo_partial_base ck p proto proto_len chksum_len (pseudo_addr_acc src dest)"

definition ip_chksum_pseudo_partial ::
    "chksum_routine \<Rightarrow> segment list \<Rightarrow> u8 \<Rightarrow> u16 \<Rightarrow> u16 \<Rightarrow> u32 \<Rightarrow> u32 \<Rightarrow> u16" where
  "ip_chksum_pseudo_partial ck p proto proto_len chksum_len src dest =
     inet_chksum_pseudo_partial ck p proto proto_len chksum_len src dest"

definition lwip_chksum_copy ::
    "chksum_routine \<Rightarrow> nat \<Rightarrow> u8 list \<Rightarrow> nat \<Rightarrow> u8 list \<Rightarrow> u8 list \<times> u16" where
  "lwip_chksum_copy ck dst_addr dst off src =
     (let dst' = write_at dst off src
      in (dst', ck (dst_addr + off) (take (length src) (drop off dst'))))"


section \<open>One's complement arithmetic\<close>

fun byte_sum :: "bool \<Rightarrow> u8 list \<Rightarrow> nat" where
  "byte_sum high [] = 0"
| "byte_sum high (b # bs) = (if high then 256 else 1) * unat b + byte_sum (\<not> high) bs"

abbreviation inet_sum :: "u8 list \<Rightarrow> nat" where
  "inet_sum \<equiv> byte_sum False"

definition oc_eq :: "nat \<Rightarrow> nat \<Rightarrow> bool" where
  "oc_eq m n \<longleftrightarrow> m mod 65535 = n mod 65535 \<and> (m = 0 \<longleftrightarrow> n = 0)"

definition oc_norm :: "nat \<Rightarrow> nat" where
  "oc_norm n = (if n = 0 then 0 else (n - 1) mod 65535 + 1)"

definition chk16 :: "nat \<Rightarrow> u16" where
  "chk16 n = NOT (word_of_nat (oc_norm n))"

lemma oc_eq_refl [simp, intro]: "oc_eq m m"
  and oc_eq_sym: "oc_eq m n \<Longrightarrow> oc_eq n m"
  and oc_eq_trans [trans]: "oc_eq m n \<Longrightarrow> oc_eq n k \<Longrightarrow> oc_eq m k"
  by (auto simp: oc_eq_def)

lemma oc_eq_add: "oc_eq m m' \<Longrightarrow> oc_eq n n' \<Longrightarrow> oc_eq (m + n) (m' + n')"
  by (auto simp: oc_eq_def intro: mod_add_cong)

lemma oc_eq_mult: "oc_eq m n \<Longrightarrow> oc_eq (k * m) (k * n)"
  by (auto simp: oc_eq_def intro: mod_mult_cong)

lemma oc_eq_65536: "oc_eq (65536 * n) n"
proof -
  have "(n + 65535 * n) mod 65535 = n mod 65535" by (rule mod_mult_self2)
  then show ?thesis by (simp add: oc_eq_def)
qed

lemma oc_eq_fold: "oc_eq (n div 65536 + n mod 65536) n"
proof -
  have "oc_eq (n div 65536 + n mod 65536) (65536 * (n div 65536) + n mod 65536)"
    by (intro oc_eq_add oc_eq_sym [OF oc_eq_65536]) simp
  then show ?thesis by simp
qed

lemma oc_eq_swap: "oc_eq (n mod 256 * 256 + n div 256) (256 * n)"
proof -
  have "oc_eq (n mod 256 * 256 + n div 256) (n mod 256 * 256 + 65536 * (n div 256))"
    by (intro oc_eq_add oc_eq_sym [OF oc_eq_65536]) simp
  moreover have "l * 256 + 65536 * h = 256 * (l + 256 * h)" for l h :: nat
    by simp
  moreover have "n mod 256 + 256 * (n div 256) = n" by simp
  ultimately show ?thesis by metis
qed

lemma oc_eq_norm: "m < 65536 \<Longrightarrow> oc_eq m n \<Longrightarrow> m = oc_norm n"
proof (cases "m = 0")
  case False
  assume "m < 65536" and "oc_eq m n"
  then have n: "n \<noteq> 0" and "m mod 65535 = n mod 65535"
    using False by (auto simp: oc_eq_def)
  have pred: "(k - 1) mod 65535 = (k + 65534) mod 65535" if "k \<noteq> 0" for k :: nat
    using that mod_add_self2 [of "k - 1" 65535] by (simp add: add.commute)
  have "(m + 65534) mod 65535 = (n + 65534) mod 65535"
    using \<open>m mod 65535 = n mod 65535\<close> by (rule mod_add_cong) simp
  then have "(m - 1) mod 65535 = (n - 1) mod 65535"
    by (metis pred n False)
  moreover have "m - 1 < 65535" using \<open>m < 65536\<close> False by linarith
  ultimately show ?thesis
    using n False by (simp add: oc_norm_def)
qed (simp add: oc_eq_def oc_norm_def)

lemma oc_eq_chk16:
  assumes "oc_eq (unat (w :: u16)) n"
  shows "NOT w = chk16 n"
proof -
  have "unat w = oc_norm n"
    using assms by (intro oc_eq_norm) simp_all
  moreover have "word_of_nat (unat w) = w" by simp
  ultimately have "w = word_of_nat (oc_norm n)" by metis
  then show ?thesis by (simp add: chk16_def)
qed

lemma oc_norm_cong: "oc_eq m n \<Longrightarrow> oc_norm m = oc_norm n"
proof -
  assume *: "oc_eq m n"
  have "oc_norm m < 65536" by (simp add: oc_norm_def)
  moreover have "oc_eq (oc_norm m) m"
    by (auto simp: oc_eq_def oc_norm_def mod_Suc_eq)
  ultimately show ?thesis
    using * oc_eq_norm oc_eq_trans by blast
qed

section \<open>Sums of bytes\<close>

lemma byte_sum_append:
  "byte_sum h (xs @ ys) = byte_sum h xs + byte_sum (h = even (length xs)) ys"
proof (induction xs arbitrary: h)
  case (Cons x xs)
  show ?case
    by (simp add: Cons.IH) (cases h; simp)
qed simp

lemma byte_sum_high: "oc_eq (byte_sum True bs) (256 * byte_sum False bs)"
  and byte_sum_low: "oc_eq (byte_sum False bs) (256 * byte_sum True bs)"
proof (induction bs)
  case (Cons b bs)
  case 1
  show ?case
    using oc_eq_add [OF oc_eq_refl Cons(2)] by (simp add: distrib_left)
  case 2
  show ?case
    using oc_eq_add [OF oc_eq_sym [OF oc_eq_65536 [of "unat b"]] Cons(1)]
    by (simp add: distrib_left mult.assoc)
qed simp_all

lemma byte_sum_parity: "oc_eq (byte_sum h bs) ((if h then 256 else 1) * inet_sum bs)"
  using byte_sum_high by simp

lemma byte_sum_bound: "byte_sum h bs \<le> 65535 * (length bs div 2) + (if odd (length bs) then if h then 65280 else 255 else 0)"
proof (induction bs arbitrary: h rule: induct_list012)
  case (2 x)
  then show ?case using unat_u8_le [of x] by auto
next
  case (3 x y zs)
  then show ?case
    using 3(1) [of h] unat_u8_le [of x] unat_u8_le [of y] by (cases h) (auto split: if_splits)
qed simp

section \<open>The word operations as numbers\<close>

lemma unat_ld16: "unat (ld16 a b) = unat a + 256 * unat b"
  using unat_u8_le [of a] unat_u8_le [of b]
  unfolding ld16_def by (subst unat_concat_bytes) (simp_all add: unat_ucast_up)

lemma unat_ld32: "unat (ld32 a b c d) = unat (ld16 a b) + 65536 * unat (ld16 c d)"
  using unat_u16_le [of "ld16 a b"] unat_u16_le [of "ld16 c d"]
  unfolding ld32_def by (subst unat_concat_bytes) (simp_all add: unat_ucast_up)

lemma unat_and_ffff: "unat ((x :: u32) AND 0xffff) = unat x mod 65536"
  using unat_and_mask [of x 16] by (simp add: mask_eq_exp_minus_1)

lemma unat_FOLD: "unat (FOLD_U32T u) = unat u div 65536 + unat u mod 65536"
proof -
  have "unat u div 65536 < 65536"
    using unat_u32_less [of u] by linarith
  moreover have "unat u mod 65536 < 65536" by simp
  ultimately show ?thesis
    unfolding FOLD_U32T_def by (subst unat_add_small) (simp_all add: unat_and_ffff unat_drop_bit_div)
qed

lemma FOLD_oc_eq: "oc_eq (unat (FOLD_U32T u)) (unat u)"
  unfolding unat_FOLD by (rule oc_eq_fold)

lemma FOLD_bound: "unat u \<le> 65536 * k + 65535 \<Longrightarrow> unat (FOLD_U32T u) \<le> k + 65535"
proof -
  assume "unat u \<le> 65536 * k + 65535"
  then have "unat u div 65536 \<le> k" by linarith
  moreover have "unat u mod 65536 < 65536" by simp
  ultimately show ?thesis unfolding unat_FOLD by linarith
qed

lemma FOLD_le: "unat (FOLD_U32T u) \<le> 131070"
  using FOLD_bound [of u 65535] unat_u32_less [of u] by simp

lemma FOLD_u17:
  assumes "unat u \<le> 131070"
  shows "unat (FOLD_U32T u) \<le> 65535"
proof (cases "unat u < 65536")
  case True
  then show ?thesis by (simp add: unat_FOLD)
next
  case False
  define v where "v = unat u - 65536"
  have v: "unat u = 65536 * 1 + v" and "v < 65536" and "v \<le> 65534"
    using assms False by (auto simp: v_def)
  then have "unat u div 65536 = 1" and "unat u mod 65536 = v"
    by (simp_all only: v div_mult_self4 mod_mult_self4) simp_all
  with \<open>v \<le> 65534\<close> show ?thesis by (simp add: unat_FOLD)
qed

lemma FOLD_FOLD_le: "unat (FOLD_U32T (FOLD_U32T u)) < 65536"
  using FOLD_u17 [OF FOLD_le [of u]] by simp

lemma FOLD_FOLD_oc_eq: "oc_eq (unat (FOLD_U32T (FOLD_U32T u))) (unat u)"
  using FOLD_oc_eq oc_eq_trans by blast

lemma unat_SWAP:
  assumes "unat w < 65536"
  shows "unat (SWAP_BYTES_IN_WORD w) = unat w mod 256 * 256 + unat w div 256"
proof -
  have lo: "unat (w AND 0xff) = unat w mod 256"
    using unat_and_mask [of w 8] by (simp add: mask_eq_exp_minus_1)
  have "drop_bit 8 (w AND 0xff00) = drop_bit 8 w AND 0xff"
    by (simp add: drop_bit_and)
  moreover have "unat w div 256 < 256" using assms by linarith
  ultimately have hi: "unat (drop_bit 8 (w AND 0xff00)) = unat w div 256"
    using unat_and_mask [of "drop_bit 8 w" 8] by (simp add: mask_eq_exp_minus_1 unat_drop_bit_div)
  have "unat w mod 256 < 256" by simp
  with \<open>unat w div 256 < 256\<close> have "unat w mod 256 * 2 ^ 8 + unat w div 256 < 2 ^ LENGTH(32)" by simp
  then show ?thesis
    unfolding SWAP_BYTES_IN_WORD_def using \<open>unat w div 256 < 256\<close>
    by (subst unat_concat_bytes) (simp_all only: lo hi, simp_all)
qed

lemma SWAP_le: "unat w < 65536 \<Longrightarrow> unat (SWAP_BYTES_IN_WORD w) < 65536"
proof -
  assume "unat w < 65536"
  moreover from this have "unat w div 256 < 256" by linarith
  moreover have "unat w mod 256 < 256" by simp
  ultimately show ?thesis by (simp add: unat_SWAP)
qed

lemma SWAP_oc_eq: "unat w < 65536 \<Longrightarrow> oc_eq (unat (SWAP_BYTES_IN_WORD w)) (256 * unat w)"
  by (simp add: unat_SWAP oc_eq_swap)

lemma htons_oc_eq: "oc_eq (unat (lwip_htons w)) (256 * unat w)"
  by (simp add: unat_lwip_htons oc_eq_swap)


section \<open>The four routines compute the same sum\<close>

lemma unat_shl8: "unat (push_bit 8 (ucast (a :: u8) :: u16)) = 256 * unat a"
  using unat_u8_le [of a] by (subst unat_push_bit) (simp_all add: unat_ucast_up)

lemma unat_be16: "unat (push_bit 8 (ucast (a :: u8) :: u16) OR ucast (b :: u8)) = 256 * unat a + unat b"
  using unat_u8_le [of a] unat_u8_le [of b]
  by (subst unat_concat_bytes) (simp_all add: unat_ucast_up)

lemma chksum1_loop_sum:
  "unat acc + byte_sum True bs < 2 ^ 32 \<Longrightarrow> unat (chksum1_loop acc bs) = unat acc + byte_sum True bs"
proof (induction acc bs rule: chksum1_loop.induct)
  case (1 acc a b bs)
  have "unat (acc + ucast (push_bit 8 (ucast a :: u16) OR ucast b)) = unat acc + (256 * unat a + unat b)"
    using 1(2) by (subst unat_add_small) (simp_all add: unat_ucast_up unat_be16)
  with 1 show ?case by (simp add: Let_def)
next
  case (2 acc a)
  then show ?case
    by (simp add: Let_def) (subst unat_add_small, simp_all add: unat_ucast_up unat_shl8)
qed simp

lemma sum_halves_sum:
  "unat s + inet_sum bs < 2 ^ 32 \<Longrightarrow> (case sum_halves s bs of (s', rest) \<Rightarrow>
     unat s' + inet_sum rest = unat s + inet_sum bs \<and> length rest \<le> 1)"
proof (induction s bs rule: sum_halves.induct)
  case (1 s a b bs)
  have *: "unat (s + ucast (ld16 a b)) = unat s + (unat a + 256 * unat b)"
    using 1(2) by (subst unat_add_small) (simp_all add: unat_ucast_up unat_ld16)
  then show ?case using 1 by (auto split: prod.splits)
qed auto

lemma head_byte_sum:
  "head_byte h bs = (t, pb) \<Longrightarrow>
     unat t + inet_sum pb = byte_sum h bs \<and> unat t mod 256 = 0 \<and> length pb \<le> length bs \<and>
     (h \<longrightarrow> bs \<noteq> [] \<longrightarrow> length bs = Suc (length pb)) \<and> (\<not> h \<longrightarrow> t = 0)"
  by (cases bs) (auto simp: head_byte_def unat_shl8 split: if_splits)

lemma unat_tail_byte:
  assumes "length bs \<le> 1" and "unat t mod 256 = 0"
  shows "unat (tail_byte t bs) = unat t + inet_sum bs"
proof (cases bs)
  case (Cons b bs')
  have "take_bit 8 t = 0"
    using assms(2) by (simp only: word_unat_eq_iff unsigned_take_bit_eq) (simp add: take_bit_eq_mod)
  then have "push_bit 8 (drop_bit 8 t) = t"
    by (metis bits_ident add.right_neutral)
  then have t: "t = push_bit 8 (drop_bit 8 t)" by simp
  have "t AND 0xff00 = t"
  proof (rule bit_word_eqI)
    fix n assume "n < LENGTH(16)"
    have "bit (0xff00 :: u16) n \<longleftrightarrow> 8 \<le> n"
    proof -
      have e: "(0xff00 :: u16) = NOT (mask 8)" by (simp add: mask_eq_exp_minus_1)
      from \<open>n < LENGTH(16)\<close> show ?thesis
        unfolding e by (simp add: bit_not_iff bit_mask_iff not_less del: mask_numeral)
    qed
    moreover have "bit t n \<Longrightarrow> 8 \<le> n"
      by (subst (asm) t) (simp add: bit_push_bit_iff)
    ultimately show "bit (t AND 0xff00) n = bit t n" by (auto simp: bit_and_iff)
  qed
  then have "tail_byte t bs = push_bit 8 (drop_bit 8 t) OR ucast b"
    using Cons t by (simp add: tail_byte_def)
  moreover have "unat (drop_bit 8 t) * 256 = unat t"
    using assms(2) by (simp add: unat_drop_bit_div div_mult_self_is_m dvd_div_mult_self mod_0_imp_dvd)
  moreover from this have "unat t \<le> 65280"
    using unat_u16_le [of t] by arith
  ultimately show ?thesis
    using assms(1) Cons unat_u8_le [of b] assms(2)
    by (simp, subst unat_concat_bytes) (simp_all add: unat_ucast_up)
qed (simp add: tail_byte_def)

lemma finish_sum:
  assumes "oc_eq (unat s) (byte_sum h bs)"
  shows "oc_eq (unat (ucast (if h then SWAP_BYTES_IN_WORD (FOLD_U32T (FOLD_U32T s))
                             else FOLD_U32T (FOLD_U32T s)) :: u16)) (inet_sum bs)"
proof -
  define f where "f = FOLD_U32T (FOLD_U32T s)"
  have f: "unat f < 65536" "oc_eq (unat f) (byte_sum h bs)"
    using FOLD_FOLD_le FOLD_FOLD_oc_eq assms oc_eq_trans unfolding f_def by blast+
  show ?thesis
  proof (cases h)
    case True
    have "oc_eq (unat (SWAP_BYTES_IN_WORD f)) (256 * unat f)"
      using f(1) by (rule SWAP_oc_eq)
    also have "oc_eq (256 * unat f) (256 * byte_sum True bs)"
      using f(2) True by (intro oc_eq_mult) simp
    also have "oc_eq (256 * byte_sum True bs) (inet_sum bs)"
      by (rule oc_eq_sym [OF byte_sum_low])
    finally show ?thesis
      using True SWAP_le [OF f(1)] by (simp add: f_def [symmetric] unat_ucast_mod)
  next
    case False
    with f show ?thesis by (simp add: f_def [symmetric] unat_ucast_mod)
  qed
qed

lemma inet_sum_bound: "byte_sum h bs \<le> 65535 * ((length bs + 1) div 2)"
  using byte_sum_bound [of h bs] by (cases "even (length bs)") (auto elim!: oddE evenE split: if_splits)

lemma chksum2_oc_eq:
  assumes "length bs \<le> 0x20000"
  shows "oc_eq (unat (lwip_standard_chksum2 a bs)) (inet_sum bs)"
proof -
  obtain t pb where hb: "head_byte (odd a) bs = (t, pb)" by force
  obtain s rest where sh: "sum_halves 0 pb = (s, rest)" by force
  have "(length pb + 1) div 2 \<le> 65536"
    using head_byte_sum [OF hb] assms by linarith
  then have "inet_sum pb \<le> 65535 * 65536"
    using inet_sum_bound [of False pb] by linarith
  then have s: "unat s + inet_sum rest = inet_sum pb" "length rest \<le> 1"
    using sum_halves_sum [of 0 pb] sh by auto
  have t: "unat (tail_byte t rest) = unat t + inet_sum rest"
    using s(2) head_byte_sum [OF hb] by (intro unat_tail_byte) auto
  have total: "unat t + inet_sum pb = byte_sum (odd a) bs"
    using head_byte_sum [OF hb] by simp
  have "(length bs + 1) div 2 \<le> 65536"
    using assms by linarith
  then have "byte_sum (odd a) bs \<le> 65535 * 65536"
    using inet_sum_bound [of "odd a" bs] by linarith
  then have "unat (s + ucast (tail_byte t rest)) = byte_sum (odd a) bs"
    using s t total by (subst unat_add_small) (simp_all add: unat_ucast_up)
  then show ?thesis
    using finish_sum [of "s + ucast (tail_byte t rest)" "odd a" bs]
    by (simp add: lwip_standard_chksum2_def hb sh Let_def)
qed

lemma chksum1_oc_eq:
  assumes "length bs \<le> 0x20000"
  shows "oc_eq (unat (lwip_standard_chksum1 a bs)) (inet_sum bs)"
proof -
  define acc where "acc = chksum1_loop 0 bs"
  have "(length bs + 1) div 2 \<le> 65536"
    using assms by linarith
  then have "byte_sum True bs \<le> 65535 * 65536"
    using inet_sum_bound [of True bs] by linarith
  then have acc: "unat acc = byte_sum True bs"
    using chksum1_loop_sum [of 0 bs] by (simp add: acc_def)
  have fold: "drop_bit 16 x + (x AND 0x0000ffff) = FOLD_U32T x" for x
    by (simp add: FOLD_U32T_def)
  have hi: "FOLD_U32T x = x" if "x AND 0xffff0000 = 0" for x
  proof -
    have "NOT (mask 16) = (0xffff0000 :: u32)" by (simp add: mask_eq_exp_minus_1)
    with that have "x AND NOT (mask 16) = 0" by simp
    then have "take_bit 16 x = x"
      by (auto simp: bit_eq_iff bit_and_iff bit_not_iff bit_mask_iff bit_take_bit_iff not_less
          simp del: mask_numeral dest: bit_imp_le_length)
    then have "unat x mod 65536 = unat x"
      using unat_and_mask [of x 16] by (simp add: take_bit_eq_mask)
    then have "unat (FOLD_U32T x) = unat x"
      by (metis FOLD_oc_eq add.left_neutral div_less mod_less_divisor unat_FOLD zero_less_numeral)
    then show ?thesis by (simp add: word_unat_eq_iff)
  qed
  have "lwip_standard_chksum1 a bs = lwip_htons (ucast (FOLD_U32T (FOLD_U32T acc)))"
    using hi [of "FOLD_U32T acc"] by (simp add: lwip_standard_chksum1_def acc_def [symmetric] Let_def fold)
  moreover have "oc_eq (unat (lwip_htons (ucast (FOLD_U32T (FOLD_U32T acc))))) (256 * unat (FOLD_U32T (FOLD_U32T acc)))"
    using htons_oc_eq [of "ucast (FOLD_U32T (FOLD_U32T acc))"] FOLD_FOLD_le [of acc]
    by (simp add: unat_ucast_mod)
  moreover have "oc_eq (256 * unat (FOLD_U32T (FOLD_U32T acc))) (256 * byte_sum True bs)"
    using FOLD_FOLD_oc_eq [of acc] by (intro oc_eq_mult) (simp add: acc)
  ultimately show ?thesis
    using oc_eq_sym [OF byte_sum_low [of bs]] oc_eq_trans by metis
qed


lemma adds_adc_oc_eq: "oc_eq (unat (adds_adc s x)) (unat s + unat x)"
proof (cases "unat s + unat x < 2 ^ 32")
  case True
  then show ?thesis by (simp add: adds_adc_def unat_add_small)
next
  case False
  define k where "k = unat s + unat x - 2 ^ 32"
  have k: "unat s + unat x = k + 2 ^ 32" "k + 1 < 2 ^ 32"
    using False unat_u32_le [of s] unat_u32_le [of x] by (simp_all add: k_def)
  have sx: "unat (s + x) = k"
    using k by (simp add: unat_word_ariths)
  then have "unat (s + x + 1) = k + 1"
    using k(2) by (subst unat_add_small) simp_all
  moreover have "unat s + unat x = (k + 1) + 65537 * 65535"
    using k(1) by simp
  moreover have "oc_eq (k + 1) ((k + 1) + 65537 * 65535)"
    unfolding oc_eq_def by (simp only: mod_mult_self1) simp
  ultimately show ?thesis
    using False by (simp add: adds_adc_def)
qed

lemma add_back_carry_eq: "add_back_carry s x = adds_adc s x"
proof -
  have "s + x < s \<longleftrightarrow> 2 ^ 32 \<le> unat s + unat x"
  proof (cases "unat s + unat x < 2 ^ 32")
    case True
    then show ?thesis by (simp add: word_less_nat_alt unat_add_small)
  next
    case False
    define k where "k = unat s + unat x - 2 ^ 32"
    have "unat s + unat x = k + 2 ^ 32" "k < unat s"
      using False unat_u32_le [of x] by (simp_all add: k_def)
    moreover from this have "unat (s + x) = k"
      using unat_u32_le [of s] by (simp add: unat_word_ariths)
    ultimately show ?thesis by (simp add: word_less_nat_alt)
  qed
  then show ?thesis by (simp add: add_back_carry_def adds_adc_def Let_def)
qed

lemma ping_pong_eq: "ping_pong s bs = thumb2_words s bs"
  by (induction s bs rule: ping_pong.induct) (simp_all add: add_back_carry_eq Let_def)

lemma thumb2_words_sum:
  "case thumb2_words s bs of (s', rest) \<Rightarrow>
     oc_eq (unat s' + inet_sum rest) (unat s + inet_sum bs) \<and> length rest < 8"
proof (induction s bs rule: thumb2_words.induct)
  case (1 s a b c d e f g h bs)
  define s1 where "s1 = adds_adc s (ld32 a b c d)"
  define s2 where "s2 = adds_adc s1 (ld32 e f g h)"
  have "oc_eq (unat s2) (unat s + unat (ld32 a b c d) + unat (ld32 e f g h))"
    unfolding s1_def s2_def
    by (rule oc_eq_trans [OF adds_adc_oc_eq]) (intro oc_eq_add adds_adc_oc_eq oc_eq_refl)
  also have "oc_eq \<dots> (unat s + (unat (ld16 a b) + unat (ld16 c d)) + (unat (ld16 e f) + unat (ld16 g h)))"
    unfolding unat_ld32 by (intro oc_eq_add oc_eq_refl oc_eq_65536)
  finally have "oc_eq (unat s2 + inet_sum bs) (unat s + inet_sum (a # b # c # d # e # f # g # h # bs))"
    using oc_eq_add [OF _ oc_eq_refl [of "inet_sum bs"]] by (fastforce simp: unat_ld16 algebra_simps)
  then show ?case
    using 1 [OF s1_def s2_def] 
    by (auto simp: Let_def s1_def [symmetric] s2_def [symmetric] simp del: byte_sum.simps
        split: prod.splits intro: oc_eq_trans)
qed simp_all

lemma thumb2_halves_sum:
  "case thumb2_halves s bs of (s', rest) \<Rightarrow>
     oc_eq (unat s' + inet_sum rest) (unat s + inet_sum bs) \<and> length rest \<le> 1"
proof (induction s bs rule: thumb2_halves.induct)
  case (1 s a b bs)
  have "oc_eq (unat (adds_adc s (ucast (ld16 a b))) + inet_sum bs)
      (unat s + (unat a + 256 * unat b) + inet_sum bs)"
    using adds_adc_oc_eq [of s "ucast (ld16 a b)"]
    by (intro oc_eq_add) (simp_all add: unat_ucast_up unat_ld16)
  with 1 show ?case
    by (auto simp: algebra_simps split: prod.splits intro: oc_eq_trans)
qed simp_all

lemma align_half_sum:
  assumes "align_half ps s bs = (s', rest)" and "unat s \<le> 65535"
  shows "unat s' + inet_sum rest = unat s + inet_sum bs" and "unat s' \<le> 131070"
proof -
  have "unat (s + ucast (ld16 a b)) = unat s + (unat a + 256 * unat b)" for a b
    using assms(2) unat_u16_le [of "ld16 a b"]
    by (subst unat_add_small) (simp_all add: unat_ucast_up unat_ld16)
  moreover have "unat a + 256 * unat b \<le> 65535" for a b :: u8
    using unat_u8_le [of a] unat_u8_le [of b] by linarith
  ultimately show "unat s' + inet_sum rest = unat s + inet_sum bs" and "unat s' \<le> 131070"
    using assms
    by (auto simp: align_half_def neq_Nil_conv length_Suc_conv numeral_2_eq_2 add_mono[of _ 65535 _ 65535, simplified]
        split: if_splits dest!: Suc_lessD less_imp_Suc_add)
qed


lemma chksum3_oc_eq: "oc_eq (unat (lwip_standard_chksum3 a bs)) (inet_sum bs)"
proof -
  obtain t pb where hb: "head_byte (odd a) bs = (t, pb)" by force
  define ps where "ps = (if odd a \<and> bs \<noteq> [] then a + 1 else a)"
  obtain s1 b1 where al: "align_half ps 0 pb = (s1, b1)" by force
  obtain s2 b2 where pp: "ping_pong s1 b1 = (s2, b2)" by force
  obtain s3 b3 where sh: "sum_halves (FOLD_U32T s2) b2 = (s3, b3)" by force
  have "inet_sum b2 \<le> 65535 * 4"
    using thumb2_words_sum [of s1 b1] pp inet_sum_bound [of False b2] by (auto simp: ping_pong_eq)
  then have s3: "unat s3 + inet_sum b3 = unat (FOLD_U32T s2) + inet_sum b2" "length b3 \<le> 1"
    and small: "unat s3 + inet_sum b3 \<le> 131070 + 65535 * 4"
    using sum_halves_sum [of "FOLD_U32T s2" b2] sh FOLD_le [of s2] by auto
  have t: "unat (tail_byte t b3) = unat t + inet_sum b3"
    using s3(2) head_byte_sum [OF hb] by (intro unat_tail_byte) auto
  have "unat (s3 + ucast (tail_byte t b3)) = unat t + (unat (FOLD_U32T s2) + inet_sum b2)"
    using s3 t small unat_u16_le [of "tail_byte t b3"]
    by (subst unat_add_small) (simp_all add: unat_ucast_up)
  also have "oc_eq \<dots> (unat t + (unat s2 + inet_sum b2))"
    by (intro oc_eq_add FOLD_oc_eq oc_eq_refl)
  also have "oc_eq \<dots> (unat t + (unat s1 + inet_sum b1))"
    using thumb2_words_sum [of s1 b1] pp
    by (intro oc_eq_add [OF oc_eq_refl]) (auto simp: ping_pong_eq)
  also have "unat t + (unat s1 + inet_sum b1) = byte_sum (odd a) bs"
    using align_half_sum [OF al] head_byte_sum [OF hb] by simp
  finally show ?thesis
    using finish_sum [of "s3 + ucast (tail_byte t b3)" "odd a" bs]
    by (simp add: lwip_standard_chksum3_def hb ps_def [symmetric] al pp sh Let_def)
qed

lemma rev16_SWAP:
  assumes "unat x < 65536"
  shows "rev16 x = SWAP_BYTES_IN_WORD x"
proof -
  have "x AND 0xffff = x"
    using assms by (simp add: word_unat_eq_iff unat_and_ffff)
  moreover have "rev16 (x AND 0xffff) = SWAP_BYTES_IN_WORD (x AND 0xffff)"
    by (simp add: rev16_def SWAP_BYTES_IN_WORD_def and.assoc)
  ultimately show ?thesis by simp
qed

lemma thumb2_tail_FOLD:
  assumes "length bs \<le> 1" and "oc_eq (unat r2 + inet_sum bs) n"
  shows "\<exists>x. thumb2_tail r2 bs = FOLD_U32T (FOLD_U32T x) \<and> oc_eq (unat x) n"
proof (cases bs)
  case Nil
  with assms show ?thesis
    by (intro exI [of _ r2]) (simp add: thumb2_tail_def FOLD_U32T_def Let_def add.commute)
next
  case (Cons b bs')
  with assms(1) have [simp]: "bs' = []" by simp
  have "oc_eq (unat (adds_adc r2 (ucast b))) n"
    using oc_eq_trans [OF adds_adc_oc_eq [of r2 "ucast b"]] assms(2) Cons by (simp add: unat_ucast_up)
  with Cons show ?thesis
    by (intro exI [of _ "adds_adc r2 (ucast b)"]) (simp add: thumb2_tail_def FOLD_U32T_def Let_def add.commute)
qed

definition thumb2_sum :: "u32 \<Rightarrow> nat \<Rightarrow> u8 list \<Rightarrow> u32" where
  "thumb2_sum r2 r0 bs =
     (if r0 mod 4 \<noteq> 0 \<and> length bs < 2 then thumb2_tail r2 bs
      else
        let (r2, bs) = align_half r0 r2 bs;
            (r2, bs) = thumb2_words r2 bs;
            (r2, bs) = thumb2_halves r2 bs
        in thumb2_tail r2 bs)"

lemma thumb2_sum_FOLD:
  assumes "unat r2 \<le> 65535"
  shows "\<exists>x. thumb2_sum r2 r0 bs = FOLD_U32T (FOLD_U32T x) \<and> oc_eq (unat x) (unat r2 + inet_sum bs)"
proof -
  obtain s1 b1 where al: "align_half r0 r2 bs = (s1, b1)" by force
  obtain s2 b2 where tw: "thumb2_words s1 b1 = (s2, b2)" by force
  obtain s3 b3 where th: "thumb2_halves s2 b2 = (s3, b3)" by force
  have len: "length b3 \<le> 1"
    using thumb2_halves_sum [of s2 b2] th by auto
  have "oc_eq (unat s3 + inet_sum b3) (unat s2 + inet_sum b2)"
    using thumb2_halves_sum [of s2 b2] th by auto
  also have "oc_eq (unat s2 + inet_sum b2) (unat s1 + inet_sum b1)"
    using thumb2_words_sum [of s1 b1] tw by auto
  also have "unat s1 + inet_sum b1 = unat r2 + inet_sum bs"
    using align_half_sum [OF al assms] by simp
  finally have "oc_eq (unat s3 + inet_sum b3) (unat r2 + inet_sum bs)" .
  from thumb2_tail_FOLD [OF len this] thumb2_tail_FOLD [of bs r2 "unat r2 + inet_sum bs"]
  show ?thesis
    by (cases "r0 mod 4 \<noteq> 0 \<and> length bs < 2") (simp_all add: thumb2_sum_def al tw th)
qed

lemma thumb2_oc_eq: "oc_eq (unat (thumb2_checksum a bs)) (inet_sum bs)"
proof (cases "odd a \<and> bs = []")
  case True
  then show ?thesis by (simp add: thumb2_checksum_def odd_iff_mod_2_eq_one)
next
  case False
  define r2 where "r2 = (if odd a then push_bit 8 (ucast (hd bs) :: u32) else 0)"
  define r0 where "r0 = (if odd a then a + 1 else a)"
  define b0 where "b0 = (if odd a then tl bs else bs)"
  have "unat (push_bit 8 (ucast (b :: u8) :: u32)) = 256 * unat b" for b
    using unat_u8_le [of b] by (subst unat_push_bit) (simp_all add: unat_ucast_up)
  moreover have "256 * unat b \<le> 65535" for b :: u8
    using unat_u8_le [of b] by simp
  ultimately have r2: "unat r2 \<le> 65535" "unat r2 + inet_sum b0 = byte_sum (odd a) bs"
    using False by (auto simp: r2_def b0_def neq_Nil_conv)
  from thumb2_sum_FOLD [OF r2(1), of r0 b0] r2(2)
  obtain x where x: "thumb2_sum r2 r0 b0 = FOLD_U32T (FOLD_U32T x)" "oc_eq (unat x) (byte_sum (odd a) bs)"
    by auto
  have "thumb2_checksum a bs = ucast (if odd a then rev16 (thumb2_sum r2 r0 b0) else thumb2_sum r2 r0 b0)"
    using False unfolding thumb2_checksum_def thumb2_sum_def r2_def r0_def b0_def Let_def
    by (cases "odd a") (simp_all add: odd_iff_mod_2_eq_one even_iff_mod_2_eq_zero)
  then show ?thesis
    using finish_sum [OF x(2)] by (cases "odd a") (simp_all add: x(1) rev16_SWAP [OF FOLD_FOLD_le])
qed

lemma routines_agree:
  assumes "oc_eq (unat (x :: u16)) n" and "oc_eq (unat (y :: u16)) n"
  shows "x = y"
proof -
  have "NOT x = NOT y"
    using assms by (simp only: oc_eq_chk16)
  then show ?thesis by simp
qed


section \<open>The contract of a summation routine and what its clients get\<close>

definition segs_bytes :: "segment list \<Rightarrow> u8 list" where
  "segs_bytes p = concat (map snd p)"

definition segs_ok :: "segment list \<Rightarrow> bool" where
  "segs_ok p \<longleftrightarrow> list_all (\<lambda>(a, bs). length bs \<le> 65535) p"

definition u32_bytes :: "u32 \<Rightarrow> u8 list" where
  "u32_bytes x = [ucast x, ucast (drop_bit 8 x), ucast (drop_bit 16 x), ucast (drop_bit 24 x)]"

definition u16_bytes :: "u16 \<Rightarrow> u8 list" where
  "u16_bytes x = [ucast x, ucast (drop_bit 8 x)]"

definition pseudo_header :: "u32 \<Rightarrow> u32 \<Rightarrow> u8 \<Rightarrow> u16 \<Rightarrow> u8 list" where
  "pseudo_header src dest proto proto_len =
     u32_bytes src @ u32_bytes dest @ [0, proto] @ rev (u16_bytes proto_len)"

lemma segs_simps [simp]:
  "segs_bytes [] = []" "segs_bytes (s # p) = snd s @ segs_bytes p"
  "segs_ok []" "segs_ok (s # p) \<longleftrightarrow> length (snd s) \<le> 65535 \<and> segs_ok p"
  by (auto simp: segs_bytes_def segs_ok_def)

lemma inet_sum_u16_bytes: "inet_sum (u16_bytes x) = unat x"
proof -
  have "unat x div 256 < 256" using unat_u16_less [of x] by (simp add: div_less_iff_less_mult)
  then show ?thesis by (simp add: u16_bytes_def unat_ucast_mod unat_drop_bit_div)
qed

lemma inet_sum_u32_bytes: "inet_sum (u32_bytes x) = unat x mod 65536 + unat x div 65536"
proof -
  define n where "n = unat x"
  have "n div 16777216 < 256"
    using unat_u32_le [of x] by (simp add: n_def div_less_iff_less_mult)
  then have "n div 16777216 mod 256 = n div 65536 div 256"
    by (simp flip: div_mult2_eq)
  moreover have "n div 65536 mod 256 + 256 * (n div 65536 div 256) = n div 65536"
    by (simp del: div_mult2_eq)
  moreover have "n mod 65536 = n mod 256 + 256 * (n div 256 mod 256)"
    using mod_mult2_eq [of n 256 256] by simp
  ultimately show ?thesis
    unfolding u32_bytes_def byte_sum.simps
    by (simp add: unat_ucast_mod unat_drop_bit_div n_def [symmetric])
qed

lemma inet_sum_append_even: "even (length xs) \<Longrightarrow> inet_sum (xs @ ys) = inet_sum xs + inet_sum ys"
  by (simp add: byte_sum_append)

lemma not_low_half: "ucast (NOT (f AND 0xffff :: u32)) = NOT (ucast f :: u16)"
proof -
  have e: "(0xffff :: u32) = mask 16" by (simp add: mask_eq_exp_minus_1)
  show ?thesis
    unfolding e by (rule bit_word_eqI) (simp add: bit_ucast_iff bit_not_iff bit_or_iff bit_mask_iff)
qed

lemma result_chk16:
  assumes "unat f < 65536" and "oc_eq (unat f) n"
  shows "ucast (NOT (f AND 0xffff :: u32)) = chk16 n"
  unfolding not_low_half using assms by (intro oc_eq_chk16) (simp add: unat_ucast_mod)

lemma unat_add_ucast:
  fixes acc :: u32 and c :: u16
  assumes "unat acc \<le> 1000000"
  shows "unat (acc + ucast c) = unat acc + unat c"
  using assms unat_u16_le [of c] by (subst unat_add_small) (simp_all add: unat_ucast_up)

lemma pseudo_addr_acc_sum:
  "unat (pseudo_addr_acc src dest) < 65536"
  "oc_eq (unat (pseudo_addr_acc src dest)) (inet_sum (u32_bytes src) + inet_sum (u32_bytes dest))"
proof -
  define acc where "acc = (src AND 0xffff) + (drop_bit 16 src AND 0xffff) + (dest AND 0xffff) + (drop_bit 16 dest AND 0xffff)"
  have hi: "drop_bit 16 x AND 0xffff = drop_bit 16 x" for x :: u32
  proof -
    have "unat x div 65536 < 65536" using unat_u32_less [of x] by (simp add: div_less_iff_less_mult)
    then show ?thesis
      by (simp add: word_unat_eq_iff unat_and_ffff unat_drop_bit_div)
  qed
  have b: "unat (x AND 0xffff) \<le> 65535" "unat (drop_bit 16 x) \<le> 65535" for x :: u32
    using unat_u32_le [of x] mod_less_divisor [of 65536 "unat x"]
    by (simp_all add: unat_and_ffff unat_drop_bit_div less_Suc_eq_le [symmetric] div_less_iff_less_mult)
  have "unat acc = inet_sum (u32_bytes src) + inet_sum (u32_bytes dest)"
    using b [of src] b [of dest] unfolding acc_def hi inet_sum_u32_bytes
    by (simp add: unat_add_small unat_and_ffff unat_drop_bit_div)
  moreover have "pseudo_addr_acc src dest = FOLD_U32T (FOLD_U32T acc)"
    by (simp add: pseudo_addr_acc_def acc_def Let_def)
  ultimately show "unat (pseudo_addr_acc src dest) < 65536"
    and "oc_eq (unat (pseudo_addr_acc src dest)) (inet_sum (u32_bytes src) + inet_sum (u32_bytes dest))"
    using FOLD_FOLD_le [of acc] FOLD_FOLD_oc_eq [of acc] by simp_all
qed

lemma pseudo_tail_sum:
  assumes "unat acc < 65536" and "oc_eq (unat acc) n"
  shows "pseudo_tail acc proto proto_len = chk16 (n + inet_sum ([0, proto] @ rev (u16_bytes proto_len)))"
proof -
  define s where "s = acc + ucast (lwip_htons (ucast proto)) + ucast (lwip_htons proto_len)"
  have "unat (lwip_htons (ucast proto :: u16)) = 256 * unat proto"
    using unat_u8_less [of proto] by (simp add: unat_lwip_htons unat_ucast_up)
  moreover have "unat proto_len div 256 < 256"
    using unat_u16_less [of proto_len] by (simp add: div_less_iff_less_mult)
  then have "inet_sum (rev (u16_bytes proto_len)) = unat (lwip_htons proto_len)"
    by (simp add: u16_bytes_def unat_ucast_mod unat_drop_bit_div unat_lwip_htons)
  ultimately have "unat s = unat acc + inet_sum ([0, proto] @ rev (u16_bytes proto_len))"
    using assms(1) unat_u8_le [of proto] unfolding s_def
    by (subst unat_add_ucast) (simp_all add: unat_add_ucast)
  then have "oc_eq (unat s) (n + inet_sum ([0, proto] @ rev (u16_bytes proto_len)))"
    using assms(2) by (simp only: oc_eq_add oc_eq_refl)
  then have "ucast (NOT (FOLD_U32T (FOLD_U32T s) AND 0xffff)) = chk16 (n + inet_sum ([0, proto] @ rev (u16_bytes proto_len)))"
    using FOLD_FOLD_oc_eq oc_eq_trans by (intro result_chk16 FOLD_FOLD_le) blast
  then show ?thesis
    by (simp add: pseudo_tail_def s_def Let_def)
qed


definition swap_seg :: "bool \<Rightarrow> u32 \<Rightarrow> u32" where
  "swap_seg sw acc = (if sw then SWAP_BYTES_IN_WORD acc else acc)"

locale inet_sum_routine =
  fixes ck :: chksum_routine
  assumes ck_sum: "length bs \<le> 65535 \<Longrightarrow> oc_eq (unat (ck a bs)) (inet_sum bs)"
begin

lemma inet_chksum_eq: "length bs \<le> 65535 \<Longrightarrow> inet_chksum ck a bs = chk16 (inet_sum bs)"
  unfolding inet_chksum_def by (intro oc_eq_chk16 ck_sum)

lemma chain_step:
  assumes "unat acc < 65536" and "length bs \<le> 65535"
  shows "unat (FOLD_U32T (acc + ucast (ck a bs))) < 65536"
    and "oc_eq (unat (FOLD_U32T (acc + ucast (ck a bs)))) (unat acc + inet_sum bs)"
proof -
  have s: "unat (acc + ucast (ck a bs)) = unat acc + unat (ck a bs)"
    using assms(1) by (intro unat_add_ucast) simp
  then have "unat (acc + ucast (ck a bs)) \<le> 131070"
    using assms(1) unat_u16_le [of "ck a bs"] by simp
  then have "unat (FOLD_U32T (acc + ucast (ck a bs))) \<le> 65535"
    by (rule FOLD_u17)
  then show "unat (FOLD_U32T (acc + ucast (ck a bs))) < 65536"
    by simp
  have "oc_eq (unat (acc + ucast (ck a bs))) (unat acc + inet_sum bs)"
    unfolding s using assms(2) by (intro oc_eq_add oc_eq_refl ck_sum)
  then show "oc_eq (unat (FOLD_U32T (acc + ucast (ck a bs)))) (unat acc + inet_sum bs)"
    by (rule oc_eq_trans [OF FOLD_oc_eq])
qed

lemma weigh_step:
  assumes "oc_eq n (m + inet_sum bs)"
  shows "oc_eq ((if sw then 256 else 1) * n) ((if sw then 256 else 1) * m + byte_sum sw bs)"
proof -
  have "oc_eq ((if sw then 256 else 1) * n) ((if sw then 256 else 1) * (m + inet_sum bs))"
    using assms by (rule oc_eq_mult)
  also have "(if sw then 256 else 1) * (m + inet_sum bs) =
      (if sw then 256 else 1) * m + (if sw then 256 else 1) * inet_sum bs"
    by (rule distrib_left)
  also have "oc_eq \<dots> ((if sw then 256 else 1) * m + byte_sum sw bs)"
    by (intro oc_eq_add oc_eq_refl oc_eq_sym [OF byte_sum_parity])
  finally show ?thesis .
qed

lemma weigh_swap:
  assumes "unat acc < 65536"
  shows "oc_eq ((if \<not> sw then 256 else 1) * unat (SWAP_BYTES_IN_WORD acc)) ((if sw then 256 else 1) * unat acc)"
proof (cases sw)
  case True
  then show ?thesis using SWAP_oc_eq [OF assms] by simp
next
  case False
  have "oc_eq (256 * unat (SWAP_BYTES_IN_WORD acc)) (256 * (256 * unat acc))"
    using SWAP_oc_eq [OF assms] by (rule oc_eq_mult)
  also have "256 * (256 * unat acc) = 65536 * unat acc" by simp
  also have "oc_eq \<dots> (unat acc)" by (rule oc_eq_65536)
  finally show ?thesis using False by simp
qed

lemma seg_step:
  fixes odd_len :: bool and a :: nat
  assumes "unat acc < 65536" and "length bs \<le> 65535"
  defines "acc2 \<equiv> swap_seg odd_len (FOLD_U32T (acc + ucast (ck a bs)))"
  shows "unat acc2 < 65536"
    and "oc_eq ((if sw \<noteq> odd_len then 256 else 1) * unat acc2) ((if sw then 256 else 1) * unat acc + byte_sum sw bs)"
proof -
  note a1 = chain_step [OF assms(1,2), of a]
  show "unat acc2 < 65536"
    using a1(1) SWAP_le by (simp add: acc2_def swap_seg_def)
  have "oc_eq ((if sw \<noteq> odd_len then 256 else 1) * unat acc2)
      ((if sw then 256 else 1) * unat (FOLD_U32T (acc + ucast (ck a bs))))"
    using weigh_swap [OF a1(1), of sw] by (cases odd_len; cases sw) (simp_all add: acc2_def swap_seg_def)
  also have "oc_eq \<dots> ((if sw then 256 else 1) * unat acc + byte_sum sw bs)"
    using a1(2) by (rule weigh_step)
  finally show "oc_eq ((if sw \<noteq> odd_len then 256 else 1) * unat acc2) ((if sw then 256 else 1) * unat acc + byte_sum sw bs)" .
qed

lemma partial_loop:
  assumes "segs_ok p" and "unat acc < 65536" and "chksum_partial_loop ck p n acc sw = (acc', sw')"
  shows "unat acc' < 65536 \<and>
    oc_eq ((if sw' then 256 else 1) * unat acc') ((if sw then 256 else 1) * unat acc + byte_sum sw (take n (segs_bytes p)))"
  using assms
proof (induction p arbitrary: acc sw n)
  case Nil
  then show ?case by auto
next
  case (Cons s p)
  obtain a bs where s: "s = (a, bs)" by force
  show ?case
  proof (cases "n = 0")
    case True
    with Cons.prems show ?thesis by (auto simp: s)
  next
    case False
    define acc2 where "acc2 = swap_seg (odd (length bs)) (FOLD_U32T (acc + ucast (ck a (take n bs))))"
    define sw2 where "sw2 = (sw \<noteq> odd (length bs))"
    have loop: "chksum_partial_loop ck p (n - length bs) acc2 sw2 = (acc', sw')"
      using Cons.prems(3) False unfolding s acc2_def sw2_def swap_seg_def
      by (cases "odd (length bs)"; cases "n < length bs") (simp_all add: Let_def odd_iff_mod_2_eq_one)
    have len: "length (take n bs) \<le> 65535"
      using Cons.prems(1) by (simp add: s min.coboundedI1)
    have a2: "unat acc2 < 65536"
      "oc_eq ((if sw2 then 256 else 1) * unat acc2) ((if sw then 256 else 1) * unat acc + byte_sum sw (take n bs))"
      using seg_step [OF Cons.prems(2) len] unfolding acc2_def sw2_def by blast+
    have "unat acc' < 65536 \<and> oc_eq ((if sw' then 256 else 1) * unat acc')
        ((if sw2 then 256 else 1) * unat acc2 + byte_sum sw2 (take (n - length bs) (segs_bytes p)))"
      using Cons.prems(1) by (intro Cons.IH [OF _ a2(1) loop]) simp
    moreover have "oc_eq ((if sw2 then 256 else 1) * unat acc2 + byte_sum sw2 (take (n - length bs) (segs_bytes p)))
        ((if sw then 256 else 1) * unat acc + byte_sum sw (take n bs) + byte_sum sw2 (take (n - length bs) (segs_bytes p)))"
      using a2(2) by (rule oc_eq_add) simp
    moreover have "byte_sum sw (take n (segs_bytes (s # p))) =
        byte_sum sw (take n bs) + byte_sum sw2 (take (n - length bs) (segs_bytes p))"
      by (cases "n < length bs") (auto simp: s byte_sum_append sw2_def)
    ultimately show ?thesis
      unfolding add.assoc by (auto intro: oc_eq_trans)
  qed
qed

lemma partial_result:
  assumes "segs_ok p" and "unat acc < 65536" and "chksum_partial_loop ck p n acc False = (acc', sw')"
  shows "unat (swap_seg sw' acc') < 65536"
    and "oc_eq (unat (swap_seg sw' acc')) (unat acc + inet_sum (take n (segs_bytes p)))"
  using partial_loop [OF assms(1-3)] SWAP_le [of acc'] SWAP_oc_eq [of acc'] oc_eq_trans
  by (auto simp: swap_seg_def split: if_splits)

lemma chain_loop_partial:
  "length (segs_bytes p) < n \<Longrightarrow> chksum_chain_loop ck p acc sw = chksum_partial_loop ck p n acc sw"
  by (induction p arbitrary: acc sw n) (auto simp: Let_def)

lemma chain_result:
  assumes "segs_ok p" and "unat acc < 65536" and "chksum_chain_loop ck p acc False = (acc', sw')"
  shows "unat (swap_seg sw' acc') < 65536"
    and "oc_eq (unat (swap_seg sw' acc')) (unat acc + inet_sum (segs_bytes p))"
  using partial_result [OF assms(1,2), of "Suc (length (segs_bytes p))" acc' sw'] assms(3)
    chain_loop_partial [of p "Suc (length (segs_bytes p))" acc False]
  by simp_all

lemma inet_chksum_pbuf_eq:
  assumes "segs_ok p"
  shows "inet_chksum_pbuf ck p = chk16 (inet_sum (segs_bytes p))"
proof -
  obtain acc sw where loop: "chksum_chain_loop ck p 0 False = (acc, sw)" by force
  have "inet_chksum_pbuf ck p = ucast (NOT (swap_seg sw acc AND 0xffff))"
    by (simp only: inet_chksum_pbuf_def loop Let_def split_conv swap_seg_def)
  also have "\<dots> = chk16 (inet_sum (segs_bytes p))"
    using chain_result [OF assms _ loop] by (intro result_chk16) simp_all
  finally show ?thesis .
qed

lemma pseudo_result:
  assumes "unat f < 65536" and "oc_eq (unat f) (unat (pseudo_addr_acc src dest) + inet_sum bs)"
  shows "pseudo_tail f proto proto_len = chk16 (inet_sum (pseudo_header src dest proto proto_len @ bs))"
proof -
  have "oc_eq (unat f) (inet_sum (u32_bytes src) + inet_sum (u32_bytes dest) + inet_sum bs)"
    by (rule oc_eq_trans [OF assms(2)]) (intro oc_eq_add pseudo_addr_acc_sum oc_eq_refl)
  from pseudo_tail_sum [OF assms(1) this, of proto proto_len] show ?thesis
    by (simp add: pseudo_header_def u32_bytes_def u16_bytes_def algebra_simps)
qed

lemma inet_chksum_pseudo_eq:
  assumes "segs_ok p"
  shows "ip_chksum_pseudo ck p proto proto_len src dest =
    chk16 (inet_sum (pseudo_header src dest proto proto_len @ segs_bytes p))"
proof -
  obtain acc sw where loop: "chksum_chain_loop ck p (pseudo_addr_acc src dest) False = (acc, sw)" by force
  show ?thesis
    using pseudo_result [OF chain_result [OF assms pseudo_addr_acc_sum(1) loop]]
    by (simp add: ip_chksum_pseudo_def inet_chksum_pseudo_def inet_cksum_pseudo_base_def loop swap_seg_def)
qed

lemma inet_chksum_pseudo_partial_eq:
  assumes "segs_ok p"
  shows "ip_chksum_pseudo_partial ck p proto proto_len n src dest =
    chk16 (inet_sum (pseudo_header src dest proto proto_len @ take (unat n) (segs_bytes p)))"
proof -
  obtain acc sw where loop: "chksum_partial_loop ck p (unat n) (pseudo_addr_acc src dest) False = (acc, sw)" by force
  show ?thesis
    using pseudo_result [OF partial_result [OF assms pseudo_addr_acc_sum(1) loop]]
    by (simp add: ip_chksum_pseudo_partial_def inet_chksum_pseudo_partial_def inet_cksum_pseudo_partial_base_def
        loop swap_seg_def)
qed

lemma chksum_copy_eq:
  assumes "off + length src \<le> length dst" and "length src \<le> 65535"
  shows "lwip_chksum_copy ck dst_addr dst off src = (dst', c) \<Longrightarrow>
    dst' = write_at dst off src \<and> NOT c = chk16 (inet_sum src)"
  using assms ck_sum [of src] by (auto simp: lwip_chksum_copy_def read_write_at intro: oc_eq_chk16)

end

interpretation alg1: inet_sum_routine lwip_standard_chksum1
  by unfold_locales (simp add: chksum1_oc_eq)

interpretation alg2: inet_sum_routine lwip_standard_chksum2
  by unfold_locales (simp add: chksum2_oc_eq)

interpretation alg3: inet_sum_routine lwip_standard_chksum3
  by unfold_locales (rule chksum3_oc_eq)

interpretation thumb2: inet_sum_routine thumb2_checksum
  by unfold_locales (rule thumb2_oc_eq)

lemma oc_norm_le: "oc_norm n \<le> 65535"
  and oc_norm_oc_eq: "oc_eq (oc_norm n) n"
  by (auto simp: oc_norm_def oc_eq_def mod_Suc_eq intro: Suc_leI)

lemma unat_oc_norm: "unat (word_of_nat (oc_norm n) :: u16) = oc_norm n"
  using oc_norm_le [of n] by (simp add: unsigned_of_nat take_bit_nat_eq_self)

lemma unat_chk16: "unat (chk16 n) = 65535 - oc_norm n"
proof -
  have not_minus: "unat (NOT x) = 65535 - unat x" for x :: u16
  proof -
    have "NOT x = - 1 - x" by (simp add: not_eq_complement)
    then show ?thesis
      by (simp only:) (subst unat_sub, simp_all add: unsigned_minus_1_eq_mask mask_eq_exp_minus_1)
  qed
  show ?thesis
    by (simp only: chk16_def not_minus unat_oc_norm)
qed

lemma chk16_insert:
  assumes "even (length pre)"
  shows "chk16 (inet_sum (pre @ u16_bytes (chk16 (inet_sum (pre @ [0, 0] @ post))) @ post)) = 0"
proof -
  define n where "n = inet_sum (pre @ [0, 0] @ post)"
  have "inet_sum (pre @ u16_bytes (chk16 n) @ post) = n + unat (chk16 n)"
    using assms by (simp add: n_def byte_sum_append inet_sum_u16_bytes) (simp add: u16_bytes_def)
  also have "oc_eq \<dots> (oc_norm n + (65535 - oc_norm n))"
    unfolding unat_chk16 by (intro oc_eq_add oc_eq_refl oc_eq_sym [OF oc_norm_oc_eq])
  also have "oc_norm n + (65535 - oc_norm n) = 65535"
    using oc_norm_le [of n] by simp
  finally have "oc_norm (inet_sum (pre @ u16_bytes (chk16 n) @ post)) = oc_norm 65535"
    by (rule oc_norm_cong)
  then show ?thesis
    by (simp add: n_def chk16_def) (simp add: oc_norm_def)
qed

lemma byte_sum_update:
  assumes "i < length bs"
  shows "byte_sum h (bs[i := b]) + (if h = even i then 256 else 1) * unat (bs ! i) =
    byte_sum h bs + (if h = even i then 256 else 1) * unat b"
  using assms
proof (induction bs arbitrary: h i)
  case (Cons c bs)
  show ?case
  proof (cases i)
    case (Suc j)
    with Cons.prems show ?thesis
      using Cons.IH [of j "\<not> h"] by (cases h; cases "even j") simp_all
  qed (use Cons in auto)
qed simp

lemma chk16_detects:
  assumes "i < length bs" and "b \<noteq> bs ! i"
  shows "chk16 (inet_sum (bs[i := b])) \<noteq> chk16 (inet_sum bs)"
proof
  assume "chk16 (inet_sum (bs[i := b])) = chk16 (inet_sum bs)"
  then have "65535 - oc_norm (inet_sum (bs[i := b])) = 65535 - oc_norm (inet_sum bs)"
    by (simp flip: unat_chk16)
  then have "oc_norm (inet_sum (bs[i := b])) = oc_norm (inet_sum bs)"
    using oc_norm_le [of "inet_sum (bs[i := b])"] oc_norm_le [of "inet_sum bs"] by linarith
  then have eq: "inet_sum (bs[i := b]) mod 65535 = inet_sum bs mod 65535"
    using oc_norm_oc_eq [of "inet_sum (bs[i := b])"] oc_norm_oc_eq [of "inet_sum bs"]
    by (simp add: oc_eq_def)
  define w :: nat where "w = (if even i then 1 else 256)"
  have "inet_sum (bs[i := b]) + w * unat (bs ! i) = inet_sum bs + w * unat b"
    using byte_sum_update [OF assms(1), of False b] by (auto simp: w_def split: if_splits)
  then have "(inet_sum bs + w * unat (bs ! i)) mod 65535 = (inet_sum bs + w * unat b) mod 65535"
    using eq by (metis mod_add_cong)
  then have "w * unat (bs ! i) mod 65535 = w * unat b mod 65535"
    by (simp add: nat_mod_eq_iff mod_add_left_eq)
  moreover have "w * unat c < 65535" for c :: u8
    using unat_u8_le [of c] by (simp add: w_def)
  ultimately have "unat (bs ! i) = unat b"
    by (simp add: w_def split: if_splits)
  then show False using assms(2) by (simp add: word_unat_eq_iff)
qed

section \<open>Properties\<close>

text \<open>
  C5. Over the length its comment promises (up to and including 0x20000 bytes), the portable
  routines and the Thumb-2 assembly routine return the same sum, whatever the alignment of the
  buffers they read the bytes from.
\<close>
theorem chksum_routines_agree:
  assumes "length bs \<le> 0x20000"
  shows "lwip_standard_chksum1 a1 bs = thumb2_checksum a bs \<and>
    lwip_standard_chksum2 a2 bs = thumb2_checksum a bs \<and>
    lwip_standard_chksum3 a3 bs = thumb2_checksum a bs"
  using chksum1_oc_eq [OF assms] chksum2_oc_eq [OF assms] chksum3_oc_eq thumb2_oc_eq
  by (blast intro: routines_agree)

theorem chksum_routines_agree_witness:
  "lwip_standard_chksum1 0 [1, 2, 3] = thumb2_checksum 5 [1, 2, 3] \<and>
   lwip_standard_chksum2 1 [1, 2, 3] = thumb2_checksum 5 [1, 2, 3] \<and>
   lwip_standard_chksum3 3 [1, 2, 3] = thumb2_checksum 5 [1, 2, 3] \<and>
   thumb2_checksum 5 [1, 2, 3] = 0x0204"
proof -
  have "thumb2_checksum 5 [1, 2, 3] = 0x0204" by code_simp
  then show ?thesis
    using chksum_routines_agree [of "[1, 2, 3]" 0 5 1 3] by simp
qed

text \<open>
  The complement of the Thumb-2 sum is the Internet checksum of the bytes: the one's
  complement of their 16-bit one's complement sum, bytes at even offsets being the low ones.
  There is no bound on the length.
\<close>
theorem inet_chksum_thumb2: "inet_chksum thumb2_checksum a bs = chk16 (inet_sum bs)"
  unfolding inet_chksum_def by (intro oc_eq_chk16 thumb2_oc_eq)

text \<open>
  C13. The checksum of a pbuf chain depends on the bytes only, not on how they are cut into pbufs
  nor on where those lie: it is the checksum of the bytes in one buffer.  Each pbuf holds at most
  65535 bytes, the most a \<open>u16_t\<close> length can say.
\<close>
theorem chksum_pbuf_flat:
  assumes "segs_ok p"
  shows "inet_chksum_pbuf thumb2_checksum p = inet_chksum thumb2_checksum a (segs_bytes p)"
  using thumb2.inet_chksum_pbuf_eq [OF assms] oc_eq_chk16 [OF thumb2_oc_eq [of a "segs_bytes p"]]
  by (simp add: inet_chksum_def)

theorem chksum_pbuf_flat_witness:
  "inet_chksum_pbuf thumb2_checksum [(1, [1, 2, 3]), (2, [4]), (7, [5, 6, 7])] =
   inet_chksum thumb2_checksum 0 [1, 2, 3, 4, 5, 6, 7]"
  using chksum_pbuf_flat [of "[(1, [1, 2, 3]), (2, [4]), (7, [5, 6, 7])]" 0] by (simp add: segs_bytes_def)

text \<open>
  C7. The checksum of a transport segment is the Internet checksum of the IPv4 pseudo header
  (source, destination, zero, protocol, length in network order) followed by the bytes of the
  chain.
\<close>
theorem chksum_pseudo_flat:
  assumes "segs_ok p"
  shows "ip_chksum_pseudo thumb2_checksum p proto proto_len src dest =
    inet_chksum thumb2_checksum a (pseudo_header src dest proto proto_len @ segs_bytes p)"
  using thumb2.inet_chksum_pseudo_eq [OF assms]
    oc_eq_chk16 [OF thumb2_oc_eq [of a "pseudo_header src dest proto proto_len @ segs_bytes p"]]
  by (simp add: inet_chksum_def)

theorem chksum_pseudo_flat_witness:
  "ip_chksum_pseudo thumb2_checksum [(1, [1, 2, 3]), (2, [4])] 17 4 0x0100a8c0 0x0200a8c0 =
   inet_chksum thumb2_checksum 0 [0xc0, 0xa8, 0, 1, 0xc0, 0xa8, 0, 2, 0, 17, 0, 4, 1, 2, 3, 4]"
proof -
  have "pseudo_header 0x0100a8c0 0x0200a8c0 17 4 = [0xc0, 0xa8, 0, 1, 0xc0, 0xa8, 0, 2, 0, 17, 0, 4]"
    by code_simp
  then show ?thesis
    using chksum_pseudo_flat [of "[(1, [1, 2, 3]), (2, [4])]" 17 4 "0x0100a8c0" "0x0200a8c0" 0]
    by (simp add: segs_bytes_def)
qed

text \<open>
  The partial pseudo-header checksum (UDP-Lite) covers exactly the first \<open>chksum_len\<close> bytes
  of the chain, also when the coverage ends inside a pbuf.
\<close>
theorem chksum_pseudo_partial_flat:
  assumes "segs_ok p"
  shows "ip_chksum_pseudo_partial thumb2_checksum p proto proto_len chksum_len src dest =
    inet_chksum thumb2_checksum a
      (pseudo_header src dest proto proto_len @ take (unat chksum_len) (segs_bytes p))"
  using thumb2.inet_chksum_pseudo_partial_eq [OF assms]
    oc_eq_chk16 [OF thumb2_oc_eq
      [of a "pseudo_header src dest proto proto_len @ take (unat chksum_len) (segs_bytes p)"]]
  by (simp add: inet_chksum_def)

theorem chksum_pseudo_partial_flat_witness:
  "ip_chksum_pseudo_partial thumb2_checksum [(1, [1, 2, 3]), (2, [4, 5, 6])] 136 6 4 0x0100a8c0 0x0200a8c0 =
   inet_chksum thumb2_checksum 0
     ([0xc0, 0xa8, 0, 1, 0xc0, 0xa8, 0, 2, 0, 136, 0, 6] @ [1, 2, 3, 4])"
proof -
  have "pseudo_header 0x0100a8c0 0x0200a8c0 136 6 = [0xc0, 0xa8, 0, 1, 0xc0, 0xa8, 0, 2, 0, 136, 0, 6]"
    by code_simp
  then show ?thesis
    using chksum_pseudo_partial_flat
      [of "[(1, [1, 2, 3]), (2, [4, 5, 6])]" 136 6 4 "0x0100a8c0" "0x0200a8c0" 0]
    by (simp add: segs_bytes_def)
qed

text \<open>
  C14. A sender that computes the checksum over a zero field at an even offset and stores it there
  produces bytes a receiver accepts: their checksum is 0.
\<close>
theorem chksum_insert_verify:
  assumes "even (length pre)"
    and "c = inet_chksum thumb2_checksum a (pre @ [0, 0] @ post)"
  shows "inet_chksum thumb2_checksum a' (pre @ u16_bytes c @ post) = 0"
  using chk16_insert [OF assms(1), of post] assms(2)
  by (simp only: inet_chksum_def oc_eq_chk16 [OF thumb2_oc_eq])

theorem chksum_insert_verify_witness:
  "inet_chksum thumb2_checksum 3
     ([0x45, 0] @ u16_bytes (inet_chksum thumb2_checksum 0 ([0x45, 0] @ [0, 0] @ [0x28])) @ [0x28]) = 0"
  using chksum_insert_verify [of "[0x45, 0]" _ 0 "[0x28]" 3, OF _ refl] by simp

text \<open>C15. Changing the value of any single byte changes the checksum.\<close>
theorem chksum_detects_byte:
  assumes "i < length bs" and "b \<noteq> bs ! i"
  shows "inet_chksum thumb2_checksum a (bs[i := b]) \<noteq> inet_chksum thumb2_checksum a bs"
  using chk16_detects [OF assms] by (simp only: inet_chksum_def oc_eq_chk16 [OF thumb2_oc_eq]) simp

theorem chksum_detects_byte_witness:
  "inet_chksum thumb2_checksum 0 [1, 2, 9] \<noteq> inet_chksum thumb2_checksum 0 [1, 2, 3]"
  using chksum_detects_byte [of 2 "[1, 2, 3]" 9 0] by simp

end
