(* ===== verification/Memp.thy ===== *)
theory Memp
  imports Lwip_Prelude
begin

text \<open>
  The fixed-size element pools of \<open>core/memp.c\<close>, in the configuration of the port
  (\<open>MEMP_MEM_MALLOC\<close>, \<open>MEMP_OVERFLOW_CHECK\<close> and \<open>MEMP_SANITY_CHECK\<close> are 0, \<open>MEMP_STATS\<close> is 1, so
  \<open>MEMP_SIZE\<close> is 0 and a free element is its own list node).  A pool is the descriptor
  \<open>struct memp_desc\<close> with the cells it points to: the list head \<open>tab\<close>, the \<open>next\<close> fields of
  the elements, as a function of the element's address, and the statistics.  The sanity check of
  the free list is modelled too, although this configuration compiles it out.
\<close>

section \<open>Pools and their operations\<close>

definition MEMP_SIZE :: nat where [simp]: "MEMP_SIZE = 0"

definition LWIP_MEM_ALIGN :: "nat \<Rightarrow> nat" where
  "LWIP_MEM_ALIGN addr = (addr + 3) div 4 * 4"

record memp_desc =
  mp_size :: nat
  mp_num :: nat
  mp_base :: nat
  mp_tab :: "nat option"
  mp_next :: "nat \<Rightarrow> nat option"
  mp_avail :: nat
  mp_used :: nat
  mp_max :: nat
  mp_err :: nat

fun memp_link :: "nat \<Rightarrow> nat \<Rightarrow> memp_desc \<Rightarrow> memp_desc" where
  "memp_link 0 memp desc = desc"
| "memp_link (Suc n) memp desc =
     (let desc = desc\<lparr>mp_next := (mp_next desc)(memp := mp_tab desc)\<rparr>;
          desc = desc\<lparr>mp_tab := Some memp\<rparr>
      in memp_link n (memp + MEMP_SIZE + mp_size desc) desc)"

definition memp_init_pool :: "memp_desc \<Rightarrow> memp_desc" where
  "memp_init_pool desc =
     (let desc = desc\<lparr>mp_tab := None\<rparr>;
          memp = LWIP_MEM_ALIGN (mp_base desc);
          desc = memp_link (mp_num desc) memp desc
      in desc\<lparr>mp_avail := mp_num desc\<rparr>)"

definition memp_init :: "memp_desc list \<Rightarrow> memp_desc list" where
  "memp_init memp_pools = map memp_init_pool memp_pools"

definition do_memp_malloc_pool :: "memp_desc \<Rightarrow> memp_desc \<times> nat option" where
  "do_memp_malloc_pool desc =
     (case mp_tab desc of
        Some memp \<Rightarrow>
          let desc = desc\<lparr>mp_tab := mp_next desc memp\<rparr>;
              desc = desc\<lparr>mp_used := to_u16 (mp_used desc + 1)\<rparr>;
              desc = (if mp_used desc > mp_max desc then desc\<lparr>mp_max := mp_used desc\<rparr> else desc)
          in (desc, Some (memp + MEMP_SIZE))
      | None \<Rightarrow> (desc\<lparr>mp_err := to_u16 (mp_err desc + 1)\<rparr>, None))"

definition memp_malloc_pool :: "memp_desc option \<Rightarrow> memp_desc option \<times> nat option" where
  "memp_malloc_pool desc =
     (case desc of None \<Rightarrow> (None, None) | Some d \<Rightarrow> let (d, m) = do_memp_malloc_pool d in (Some d, m))"

definition memp_malloc :: "nat \<Rightarrow> memp_desc list \<Rightarrow> memp_desc list \<times> nat option" where
  "memp_malloc type memp_pools =
     (if \<not> type < length memp_pools then (memp_pools, None)
      else let (d, m) = do_memp_malloc_pool (memp_pools ! type) in (memp_pools[type := d], m))"

definition do_memp_free_pool :: "memp_desc \<Rightarrow> nat \<Rightarrow> memp_desc" where
  "do_memp_free_pool desc mem =
     (let memp = mem - MEMP_SIZE;
          desc = desc\<lparr>mp_used := sub_u16 (mp_used desc) 1\<rparr>;
          desc = desc\<lparr>mp_next := (mp_next desc)(memp := mp_tab desc)\<rparr>
      in desc\<lparr>mp_tab := Some memp\<rparr>)"

definition memp_free_pool :: "memp_desc option \<Rightarrow> nat option \<Rightarrow> memp_desc option" where
  "memp_free_pool desc mem =
     (case (desc, mem) of (Some d, Some m) \<Rightarrow> Some (do_memp_free_pool d m) | _ \<Rightarrow> desc)"

definition memp_free :: "nat \<Rightarrow> nat option \<Rightarrow> memp_desc list \<Rightarrow> memp_desc list" where
  "memp_free type mem memp_pools =
     (if \<not> type < length memp_pools then memp_pools
      else case mem of None \<Rightarrow> memp_pools
           | Some m \<Rightarrow> memp_pools[type := do_memp_free_pool (memp_pools ! type) m])"

text \<open>\<open>memp_sanity\<close>: the tortoise \<open>t\<close> and the hare \<open>h\<close>; \<open>None\<close> is the value of a loop that does not end.\<close>

partial_function (option) sanity_loop :: "(nat \<Rightarrow> nat option) \<Rightarrow> nat option \<Rightarrow> nat option \<Rightarrow> bool option" where
  "sanity_loop nxt t h =
     (case (t, h) of
        (Some t', Some h') \<Rightarrow>
          if t' = h' then Some False
          else sanity_loop nxt (nxt t') (case nxt h' of Some h'' \<Rightarrow> nxt h'' | None \<Rightarrow> None)
      | _ \<Rightarrow> Some True)"

definition memp_sanity :: "memp_desc \<Rightarrow> bool option" where
  "memp_sanity desc =
     (case mp_tab desc of Some t \<Rightarrow> sanity_loop (mp_next desc) (Some t) (mp_next desc t) | None \<Rightarrow> Some True)"

section \<open>The free list\<close>

fun flist :: "(nat \<Rightarrow> nat option) \<Rightarrow> nat option \<Rightarrow> nat list \<Rightarrow> bool" where
  "flist nxt None xs = (xs = [])"
| "flist nxt (Some p) xs = (case xs of [] \<Rightarrow> False | x # xs' \<Rightarrow> p = x \<and> flist nxt (nxt x) xs')"

fun walk :: "nat \<Rightarrow> (nat \<Rightarrow> nat option) \<Rightarrow> nat option \<Rightarrow> nat list" where
  "walk 0 nxt p = []"
| "walk (Suc n) nxt p = (case p of None \<Rightarrow> [] | Some x \<Rightarrow> x # walk n nxt (nxt x))"

definition element :: "memp_desc \<Rightarrow> nat \<Rightarrow> nat" where
  "element d i = LWIP_MEM_ALIGN (mp_base d) + i * mp_size d"

definition elements :: "memp_desc \<Rightarrow> nat set" where
  "elements d = element d ` {..<mp_num d}"

definition free_list :: "memp_desc \<Rightarrow> nat list" where
  "free_list d = walk (mp_num d) (mp_next d) (mp_tab d)"

definition in_use :: "memp_desc \<Rightarrow> nat set" where
  "in_use d = elements d - set (free_list d)"

definition pool_ok :: "memp_desc \<Rightarrow> nat list \<Rightarrow> bool" where
  "pool_ok d xs \<longleftrightarrow> flist (mp_next d) (mp_tab d) xs \<and> distinct xs \<and> set xs \<subseteq> elements d \<and>
     mp_used d + length xs = mp_num d \<and> mp_num d < 65536 \<and> 0 < mp_size d"

definition pool_wf :: "memp_desc \<Rightarrow> bool" where
  "pool_wf d \<longleftrightarrow> pool_ok d (free_list d)"

lemma flist_Cons [simp]: "flist nxt p (x # xs) \<longleftrightarrow> p = Some x \<and> flist nxt (nxt x) xs"
  and flist_Nil [simp]: "flist nxt p [] \<longleftrightarrow> p = None"
  by (cases p; auto)+

lemma flist_walk: "flist nxt p xs \<Longrightarrow> length xs \<le> n \<Longrightarrow> walk n nxt p = xs"
proof (induction xs arbitrary: p n)
  case Nil
  then show ?case by (cases n) auto
next
  case (Cons x xs)
  then show ?case by (cases n) auto
qed

lemma flist_upd: "flist nxt p xs \<Longrightarrow> q \<notin> set xs \<Longrightarrow> flist (nxt(q := r)) p xs"
  by (induction xs arbitrary: p) auto

lemma pool_ok_free_list: "pool_ok d xs \<Longrightarrow> free_list d = xs"
  by (auto simp: pool_ok_def free_list_def intro!: flist_walk)

lemma pool_wfI: "pool_ok d xs \<Longrightarrow> pool_wf d"
  by (simp add: pool_wf_def pool_ok_free_list)

lemma element_inj: "0 < mp_size d \<Longrightarrow> inj_on (element d) A"
  by (auto simp: inj_on_def element_def)

lemma card_elements: "0 < mp_size d \<Longrightarrow> card (elements d) = mp_num d"
  by (simp add: elements_def card_image element_inj)

lemma card_in_use: "pool_wf d \<Longrightarrow> card (in_use d) = mp_used d"
proof -
  assume "pool_wf d"
  then have ok: "pool_ok d (free_list d)" by (simp add: pool_wf_def)
  then have "card (in_use d) = card (elements d) - card (set (free_list d))"
    unfolding in_use_def by (intro card_Diff_subset) (auto simp: pool_ok_def)
  with ok show ?thesis
    by (auto simp: pool_ok_def card_elements distinct_card)
qed

lemma malloc_pool_ok:
  assumes "pool_ok d xs"
  shows "case do_memp_malloc_pool d of (d', r) \<Rightarrow>
    elements d' = elements d \<and> mp_num d' = mp_num d \<and>
    (case xs of [] \<Rightarrow> r = None \<and> pool_ok d' [] | x # xs' \<Rightarrow> r = Some x \<and> pool_ok d' xs')"
proof (cases xs)
  case Nil
  then show ?thesis
    using assms by (auto simp: pool_ok_def do_memp_malloc_pool_def elements_def element_def)
next
  case (Cons x xs')
  then have "to_u16 (mp_used d + 1) = mp_used d + 1"
    using assms by (intro to_u16_id) (auto simp: pool_ok_def)
  with Cons assms show ?thesis
    by (auto simp: pool_ok_def do_memp_malloc_pool_def elements_def element_def Let_def)
qed

lemma free_pool_ok:
  assumes "pool_ok d xs" and "x \<in> elements d" and "x \<notin> set xs"
  shows "pool_ok (do_memp_free_pool d x) (x # xs)" and "elements (do_memp_free_pool d x) = elements d"
    and "mp_num (do_memp_free_pool d x) = mp_num d"
proof -
  have "pool_wf d" using assms(1) by (rule pool_wfI)
  then have "card (in_use d) = mp_used d" by (rule card_in_use)
  moreover have "x \<in> in_use d"
    using assms by (simp add: in_use_def pool_ok_free_list)
  moreover have "finite (in_use d)" by (simp add: in_use_def elements_def)
  ultimately have "0 < mp_used d" by (metis card_gt_0_iff empty_iff)
  moreover have "sub_u16 (mp_used d) 1 = mp_used d - 1"
    using calculation assms(1) by (intro sub_u16_le) (auto simp: pool_ok_def)
  ultimately show "pool_ok (do_memp_free_pool d x) (x # xs)"
    using assms by (auto simp: pool_ok_def do_memp_free_pool_def Let_def elements_def element_def intro: flist_upd)
  show "elements (do_memp_free_pool d x) = elements d" "mp_num (do_memp_free_pool d x) = mp_num d"
    by (auto simp: do_memp_free_pool_def elements_def element_def Let_def)
qed

lemma memp_link_fields:
  "mp_size (memp_link n m d) = mp_size d" "mp_num (memp_link n m d) = mp_num d"
  "mp_base (memp_link n m d) = mp_base d" "mp_used (memp_link n m d) = mp_used d"
  by (induction n m d rule: memp_link.induct) (simp_all add: Let_def)

lemma memp_link_flist:
  assumes "flist (mp_next d) (mp_tab d) xs" and "\<And>x. x \<in> set xs \<Longrightarrow> x < m" and "0 < mp_size d"
  shows "flist (mp_next (memp_link n m d)) (mp_tab (memp_link n m d))
    (rev (map (\<lambda>i. m + i * mp_size d) [0..<n]) @ xs)"
  using assms
proof (induction n arbitrary: m d xs)
  case (Suc n)
  define d' where "d' = d\<lparr>mp_next := (mp_next d)(m := mp_tab d), mp_tab := Some m\<rparr>"
  have "flist ((mp_next d)(m := mp_tab d)) (mp_tab d) xs"
    using Suc.prems(1,2) by (intro flist_upd) auto
  then have l: "flist (mp_next d') (mp_tab d') (m # xs)"
    by (simp add: d'_def)
  have "flist (mp_next (memp_link n (m + mp_size d') d')) (mp_tab (memp_link n (m + mp_size d') d'))
      (rev (map (\<lambda>i. m + mp_size d' + i * mp_size d') [0..<n]) @ m # xs)"
  proof (rule Suc.IH [OF l])
    show "0 < mp_size d'" using Suc.prems(3) by (simp add: d'_def)
    fix x assume "x \<in> set (m # xs)"
    then show "x < m + mp_size d'"
      using Suc.prems(2) [of x] Suc.prems(3) by (auto simp: d'_def)
  qed
  moreover have "rev (map (\<lambda>i. m + i * mp_size d) [0..<Suc n]) = rev (map (\<lambda>i. m + mp_size d + i * mp_size d) [0..<n]) @ [m]"
    by (simp only: upt_conv_Cons [of 0 "Suc n"] map_Suc_upt [symmetric] zero_less_Suc) (simp add: algebra_simps)
  ultimately show ?case
    by (simp add: d'_def Let_def)
qed simp

lemma memp_init_pool_ok:
  assumes "mp_used d = 0" and "mp_num d < 65536" and "0 < mp_size d"
  shows "pool_ok (memp_init_pool d) (rev (map (element d) [0..<mp_num d]))"
    and "elements (memp_init_pool d) = elements d"
proof -
  let ?b = "LWIP_MEM_ALIGN (mp_base d)"
  have f: "flist (mp_next (memp_init_pool d)) (mp_tab (memp_init_pool d)) (rev (map (element d) [0..<mp_num d]))"
    using memp_link_flist [of "d\<lparr>mp_tab := None\<rparr>" "[]" ?b "mp_num d"] assms(3)
    by (simp add: memp_init_pool_def Let_def element_def [abs_def])
  have g: "mp_size (memp_init_pool d) = mp_size d" "mp_num (memp_init_pool d) = mp_num d"
    "mp_base (memp_init_pool d) = mp_base d" "mp_used (memp_init_pool d) = 0"
    using assms(1) by (simp_all add: memp_init_pool_def memp_link_fields Let_def)
  show e: "elements (memp_init_pool d) = elements d"
    by (simp add: elements_def element_def [abs_def] g)
  show "pool_ok (memp_init_pool d) (rev (map (element d) [0..<mp_num d]))"
    using f assms element_inj [of d "{..<mp_num d}"] unfolding pool_ok_def e
    by (auto simp: g distinct_map elements_def lessThan_atLeast0)
qed

lemma memp_init_pool_free:
  assumes "mp_used d = 0" and "mp_num d < 65536" and "0 < mp_size d"
  shows "pool_wf (memp_init_pool d)" and "in_use (memp_init_pool d) = {}"
proof -
  note ok = memp_init_pool_ok [OF assms]
  show "pool_wf (memp_init_pool d)" using ok(1) by (rule pool_wfI)
  show "in_use (memp_init_pool d) = {}"
    using ok(2) pool_ok_free_list [OF ok(1)] by (auto simp: in_use_def elements_def)
qed

section \<open>The contract of a pool\<close>

locale element_pool =
  fixes wf :: "'s \<Rightarrow> bool" and busy :: "'s \<Rightarrow> nat set" and capacity :: "'s \<Rightarrow> nat"
    and get :: "'s \<Rightarrow> 's \<times> nat option" and put :: "'s \<Rightarrow> nat \<Rightarrow> 's"
  assumes get_Some: "wf s \<Longrightarrow> get s = (s', Some e) \<Longrightarrow>
      wf s' \<and> e \<notin> busy s \<and> busy s' = insert e (busy s) \<and> capacity s' = capacity s"
    and get_None: "wf s \<Longrightarrow> get s = (s', None) \<Longrightarrow>
      wf s' \<and> busy s' = busy s \<and> capacity s' = capacity s \<and> card (busy s) = capacity s"
    and put_busy: "wf s \<Longrightarrow> e \<in> busy s \<Longrightarrow>
      wf (put s e) \<and> busy (put s e) = busy s - {e} \<and> capacity (put s e) = capacity s"
    and busy_finite: "wf s \<Longrightarrow> finite (busy s)"
    and busy_bound: "wf s \<Longrightarrow> card (busy s) \<le> capacity s"
begin

lemma get_succeeds_iff:
  assumes "wf s"
  shows "(\<exists>s' e. get s = (s', Some e)) \<longleftrightarrow> card (busy s) < capacity s"
proof (cases "get s")
  case (Pair s' r)
  show ?thesis
  proof (cases r)
    case None
    with get_None [OF assms] Pair show ?thesis by auto
  next
    case (Some e)
    then have "wf s'" "e \<notin> busy s" "busy s' = insert e (busy s)" "capacity s' = capacity s"
      using get_Some [OF assms] Pair by auto
    then have "Suc (card (busy s)) \<le> capacity s"
      using busy_bound [of s'] busy_finite [OF assms] by simp
    with Some Pair show ?thesis by auto
  qed
qed

lemma get_put:
  assumes "wf s" and "get s = (s', Some e)"
  shows "wf (put s' e) \<and> busy (put s' e) = busy s"
  using get_Some [OF assms] put_busy [of s' e] by auto

end

lemma pool_wf_free_list: "pool_wf d \<Longrightarrow> pool_ok d (free_list d)"
  by (simp add: pool_wf_def)

lemma malloc_pool_wf:
  assumes "pool_wf d" and "do_memp_malloc_pool d = (d', r)"
  shows "pool_wf d'" and "mp_num d' = mp_num d"
    and "case r of None \<Rightarrow> in_use d' = in_use d \<and> in_use d = elements d
      | Some e \<Rightarrow> e \<in> elements d \<and> e \<notin> in_use d \<and> in_use d' = insert e (in_use d)"
proof -
  obtain xs where ok: "pool_ok d xs" "free_list d = xs"
    using assms(1) pool_wf_free_list by blast
  note m = malloc_pool_ok [OF ok(1), unfolded assms(2), simplified]
  show "mp_num d' = mp_num d" using m by simp
  have "pool_ok d' (tl xs) \<and> r = (case xs of [] \<Rightarrow> None | x # _ \<Rightarrow> Some x) \<and> elements d' = elements d"
    using m by (cases xs) auto
  moreover from this show "pool_wf d'" using pool_wfI by blast
  ultimately show "case r of None \<Rightarrow> in_use d' = in_use d \<and> in_use d = elements d
      | Some e \<Rightarrow> e \<in> elements d \<and> e \<notin> in_use d \<and> in_use d' = insert e (in_use d)"
    using ok pool_ok_free_list [of d' "tl xs"]
    by (auto simp: in_use_def pool_ok_def split: list.splits)
qed

lemma free_pool_wf:
  assumes "pool_wf d" and "e \<in> in_use d"
  shows "pool_wf (do_memp_free_pool d e)" and "in_use (do_memp_free_pool d e) = in_use d - {e}"
    and "mp_num (do_memp_free_pool d e) = mp_num d"
    and "snd (do_memp_malloc_pool (do_memp_free_pool d e)) = Some e"
proof -
  note f = free_pool_ok [OF pool_wf_free_list [OF assms(1)], of e]
  have e: "e \<in> elements d" "e \<notin> set (free_list d)" using assms(2) by (auto simp: in_use_def)
  show "pool_wf (do_memp_free_pool d e)" "mp_num (do_memp_free_pool d e) = mp_num d"
    using f(1,3) [OF e] pool_wfI by auto
  show "in_use (do_memp_free_pool d e) = in_use d - {e}"
    using f(2) [OF e] pool_ok_free_list [OF f(1) [OF e]] by (auto simp: in_use_def)
  show "snd (do_memp_malloc_pool (do_memp_free_pool d e)) = Some e"
    by (simp add: do_memp_free_pool_def do_memp_malloc_pool_def Let_def)
qed

interpretation memp_pool: element_pool pool_wf in_use mp_num do_memp_malloc_pool do_memp_free_pool
proof
  fix s :: memp_desc
  assume wf: "pool_wf s"
  note ok = pool_wf_free_list [OF wf]
  show "finite (in_use s)" by (simp add: in_use_def elements_def)
  show "card (in_use s) \<le> mp_num s"
    using card_in_use [OF wf] ok by (simp add: pool_ok_def)
  fix s' e
  show "do_memp_malloc_pool s = (s', Some e) \<Longrightarrow>
      pool_wf s' \<and> e \<notin> in_use s \<and> in_use s' = insert e (in_use s) \<and> mp_num s' = mp_num s"
    using malloc_pool_wf [OF wf] by fastforce
  show "do_memp_malloc_pool s = (s', None) \<Longrightarrow>
      pool_wf s' \<and> in_use s' = in_use s \<and> mp_num s' = mp_num s \<and> card (in_use s) = mp_num s"
    using malloc_pool_wf [OF wf] card_elements [of s] ok by (fastforce simp: pool_ok_def)
  show "e \<in> in_use s \<Longrightarrow> pool_wf (do_memp_free_pool s e) \<and>
      in_use (do_memp_free_pool s e) = in_use s - {e} \<and> mp_num (do_memp_free_pool s e) = mp_num s"
    using free_pool_wf [OF wf] by simp
qed

section \<open>The sanity check\<close>

fun node :: "(nat \<Rightarrow> nat option) \<Rightarrow> nat option \<Rightarrow> nat \<Rightarrow> nat option" where
  "node nxt p 0 = p"
| "node nxt p (Suc i) = Option.bind (node nxt p i) nxt"

lemma node_None: "node nxt p i = None \<Longrightarrow> i \<le> j \<Longrightarrow> node nxt p j = None"
  by (induction j) (auto simp: le_Suc_eq)

lemma node_period:
  assumes "node nxt p a = node nxt p b" and "a \<le> b"
  shows "node nxt p (a + k) = node nxt p (b + k)"
  using assms(1) by (induction k) simp_all

lemma node_periods:
  assumes "node nxt p a = node nxt p b" and "a \<le> b" and "a \<le> m"
  shows "node nxt p (m + k * (b - a)) = node nxt p m"
proof (induction k)
  case (Suc k)
  have "node nxt p (a + (m - a + k * (b - a))) = node nxt p (b + (m - a + k * (b - a)))"
    using assms by (intro node_period)
  moreover have "a + (m - a + k * (b - a)) = m + k * (b - a)" "b + (m - a + k * (b - a)) = m + Suc k * (b - a)"
    using assms(2,3) by auto
  ultimately show ?case using Suc by metis
qed simp

lemma sanity_step:
  assumes "node nxt p i = Some t" and "node nxt p (2 * i + 1) = Some h"
  shows "sanity_loop nxt (node nxt p i) (node nxt p (2 * i + 1)) =
    (if t = h then Some False else sanity_loop nxt (node nxt p (Suc i)) (node nxt p (2 * Suc i + 1)))"
proof -
  have "node nxt p (2 * Suc i + 1) = (case nxt h of Some h'' \<Rightarrow> nxt h'' | None \<Rightarrow> None)"
    using assms(2) by (simp split: option.splits)
  with assms show ?thesis
    by (subst sanity_loop.simps) simp
qed

lemma sanity_acyclic:
  assumes "node nxt p k = None"
  shows "sanity_loop nxt (node nxt p i) (node nxt p (2 * i + 1)) = Some True"
proof (induction "k - i" arbitrary: i rule: less_induct)
  case less
  show ?case
  proof (cases "node nxt p (2 * i + 1)")
    case None
    then show ?thesis by (subst sanity_loop.simps) (auto split: option.splits)
  next
    case (Some h)
    then have "2 * i + 1 < k" using node_None [OF assms, of "2 * i + 1"] by (metis not_le option.distinct(1))
    then obtain t where t: "node nxt p i = Some t"
      using node_None [of nxt p i "2 * i + 1"] Some by (cases "node nxt p i") auto
    have "t \<noteq> h"
    proof
      assume "t = h"
      then have "node nxt p i = node nxt p (2 * i + 1)" using t Some by simp
      then have "node nxt p (i + k * (2 * i + 1 - i)) = node nxt p i"
        by (intro node_periods) auto
      then show False using node_None [OF assms, of "i + k * (2 * i + 1 - i)"] t by simp
    qed
    then show ?thesis
      using sanity_step [OF t Some] less [of "Suc i"] \<open>2 * i + 1 < k\<close> by simp
  qed
qed

lemma sanity_cyclic:
  assumes "a < b" and "node nxt p a = node nxt p b" and "node nxt p a \<noteq> None"
  shows "sanity_loop nxt p (node nxt p 1) = Some False"
proof -
  define i where "i = (b - a) * Suc a - 1"
  have "1 * Suc a \<le> (b - a) * Suc a" using assms(1) by (intro mult_right_mono) auto
  then have i: "a \<le> i" "Suc i = Suc a * (b - a)" by (auto simp: i_def mult.commute)
  have some: "node nxt p m \<noteq> None" for m
  proof
    assume "node nxt p m = None"
    have "m * 1 \<le> m * (b - a)" using assms(1) by (intro mult_le_mono) auto
    then have "m \<le> a + m * (b - a)" by linarith
    with \<open>node nxt p m = None\<close> have "node nxt p (a + m * (b - a)) = None"
      by (rule node_None)
    then show False using node_periods [OF assms(2), of a m] assms by simp
  qed
  have meet: "node nxt p (2 * i + 1) = node nxt p i"
  proof -
    have "2 * i + 1 = i + Suc a * (b - a)" using i(2) by linarith
    then show ?thesis
      using node_periods [OF assms(2), of i "Suc a"] assms(1) i(1) by (simp only: less_imp_le)
  qed
  have "sanity_loop nxt (node nxt p j) (node nxt p (2 * j + 1)) = Some False" if "j \<le> i" for j
    using that
  proof (induction "i - j" arbitrary: j)
    case 0
    then have "j = i" by simp
    moreover obtain t where "node nxt p i = Some t" using some by blast
    ultimately show ?case using sanity_step [of nxt p i t t] meet by simp
  next
    case (Suc n)
    obtain t h where "node nxt p j = Some t" "node nxt p (2 * j + 1) = Some h" using some by blast
    moreover have "sanity_loop nxt (node nxt p (Suc j)) (node nxt p (2 * Suc j + 1)) = Some False"
      using Suc by (intro Suc.hyps) auto
    ultimately show ?case using sanity_step by simp
  qed
  from this [of 0] show ?thesis by simp
qed

lemma flist_node: "flist nxt p xs \<Longrightarrow> node nxt p (length xs) = None"
proof -
  have "flist nxt p xs \<Longrightarrow> i \<le> length xs \<Longrightarrow> flist nxt (node nxt p i) (drop i xs)" for i
  proof (induction i)
    case (Suc i)
    then have "flist nxt (node nxt p i) (xs ! i # drop (Suc i) xs)" by (simp add: Cons_nth_drop_Suc)
    then show ?case by simp
  qed simp
  from this [of "length xs"] show "flist nxt p xs \<Longrightarrow> node nxt p (length xs) = None" by simp
qed

section \<open>Properties\<close>

text \<open>
  C27. \<open>memp_init\<close> turns every pool with a sensible descriptor into a well-formed one with all its
  elements free.
\<close>
theorem memp_init_all_free:
  assumes "list_all (\<lambda>d. mp_used d = 0 \<and> mp_num d < 65536 \<and> 0 < mp_size d) ps"
  shows "list_all (\<lambda>d. pool_wf d \<and> in_use d = {}) (memp_init ps)"
  using assms memp_init_pool_free by (auto simp: memp_init_def list_all_iff)


definition demo_pool :: memp_desc where
  "demo_pool = memp_init_pool \<lparr>mp_size = 16, mp_num = 3, mp_base = 1001, mp_tab = None, mp_next = (\<lambda>_. None),
     mp_avail = 0, mp_used = 0, mp_max = 0, mp_err = 0\<rparr>"

lemma demo_pool_wf: "pool_wf demo_pool" "in_use demo_pool = {}"
  unfolding demo_pool_def by (rule memp_init_pool_free; simp)+

theorem memp_init_all_free_witness:
  "list_all (\<lambda>d. pool_wf d \<and> in_use d = {})
     (memp_init [\<lparr>mp_size = 16, mp_num = 3, mp_base = 1001, mp_tab = None, mp_next = (\<lambda>_. None),
        mp_avail = 0, mp_used = 0, mp_max = 0, mp_err = 0\<rparr>])"
  by (rule memp_init_all_free) simp


text \<open>
  The free-list sanity check always gives an answer: it accepts a list that ends, in
  particular the free list of a well-formed pool, and rejects a list that runs into a cycle.
\<close>
theorem memp_sanity_decides:
  "(node (mp_next d) (mp_tab d) k = None \<longrightarrow> memp_sanity d = Some True) \<and>
   (a < b \<and> node (mp_next d) (mp_tab d) a = node (mp_next d) (mp_tab d) b \<and>
      node (mp_next d) (mp_tab d) a \<noteq> None \<longrightarrow> memp_sanity d = Some False)"
proof (cases "mp_tab d")
  case None
  then show ?thesis
    using node_None [of "mp_next d" "mp_tab d" 0 a] by (simp add: memp_sanity_def)
next
  case (Some t)
  then have eq: "memp_sanity d = sanity_loop (mp_next d) (mp_tab d) (node (mp_next d) (mp_tab d) 1)"
    by (simp add: memp_sanity_def)
  have "node (mp_next d) (mp_tab d) k = None \<Longrightarrow> memp_sanity d = Some True"
    using sanity_acyclic [of "mp_next d" "mp_tab d" k 0] by (simp add: eq)
  moreover have "a < b \<Longrightarrow> node (mp_next d) (mp_tab d) a = node (mp_next d) (mp_tab d) b \<Longrightarrow>
      node (mp_next d) (mp_tab d) a \<noteq> None \<Longrightarrow> memp_sanity d = Some False"
    unfolding eq by (rule sanity_cyclic)
  ultimately show ?thesis by blast
qed

theorem memp_sanity_decides_witness:
  "memp_sanity (demo_pool\<lparr>mp_next := (\<lambda>_. Some 1036)\<rparr>) = Some False \<and> memp_sanity demo_pool = Some True"
proof -
  have "node (mp_next demo_pool) (mp_tab demo_pool) 3 = None" by code_simp
  moreover have "node (\<lambda>_. Some 1036) (mp_tab demo_pool) 0 = node (\<lambda>_. Some 1036) (mp_tab demo_pool) 1"
    by code_simp
  moreover have "mp_tab demo_pool \<noteq> None" by code_simp
  ultimately show ?thesis
    using memp_sanity_decides [of demo_pool 3 0 0]
      memp_sanity_decides [of "demo_pool\<lparr>mp_next := (\<lambda>_. Some 1036)\<rparr>" 0 0 1] by simp
qed

end
