(* ===== verification/Timeouts.thy ===== *)
theory Timeouts
  imports Memp "HOL-Library.Multiset"
begin

text \<open>
  The software timers of \<open>core/timeouts.c\<close>.  The list \<open>next_timeout\<close> holds, in firing order, the
  time of each timer relative to the one before it (of the first one, relative to
  \<open>timeouts_last_time\<close>); its nodes are elements of the pool \<open>MEMP_SYS_TIMEOUT\<close>, which is part of
  the state.  \<open>sys_now ()\<close> is the field \<open>tm_now\<close>.  Everything else the stack holds is \<open>tm_env\<close>;
  the handlers of other components, which are outside this file, are the argument \<open>cb\<close>.
\<close>

section \<open>State\<close>

datatype 'h handler = Tcpip_tcp_timer | Cyclic_timer | User 'h

record 'h sys_timeo =
  to_addr :: nat
  to_time :: nat
  to_h :: "'h handler option"
  to_arg :: nat

record ('h, 'x) timers =
  tm_now :: nat
  next_timeout :: "'h sys_timeo list"
  timeouts_last_time :: nat
  tcpip_tcp_timer_active :: bool
  tm_pool :: memp_desc
  tm_env :: 'x

record ('h, 'x) callbacks =
  cb_tcp_tmr :: "'x \<Rightarrow> 'x"
  cb_tcp_pcbs :: "'x \<Rightarrow> bool"
  cb_cyclic :: "nat \<Rightarrow> 'x \<Rightarrow> 'x"
  cb_check_free_ooseq :: "'x \<Rightarrow> 'x"
  cb_user :: "'h \<Rightarrow> nat \<Rightarrow> ('h, 'x) timers \<Rightarrow> ('h, 'x) timers"

text \<open>The intervals of the cyclic timers this configuration compiles in: \<open>tcp_tmr\<close>, \<open>ip_reass_tmr\<close>,
  \<open>etharp_tmr\<close>, \<open>dhcp_coarse_tmr\<close>, \<open>dhcp_fine_tmr\<close>, \<open>igmp_tmr\<close>, \<open>dns_tmr\<close>.\<close>

definition lwip_cyclic_timers :: "nat list" where
  "lwip_cyclic_timers = [250, 1000, 1000, 60000, 500, 100, 1000]"

definition TCP_TMR_INTERVAL :: nat where
  "TCP_TMR_INTERVAL = 250"

section \<open>Setting and cancelling\<close>

fun timeo_insert :: "nat \<Rightarrow> nat \<Rightarrow> 'h sys_timeo \<Rightarrow> 'h sys_timeo list \<Rightarrow> 'h sys_timeo list" where
  "timeo_insert msecs first timeout [] = []"
| "timeo_insert msecs first timeout (t # rest) =
     (let timeout = timeout\<lparr>to_time := sub_u32 (to_time timeout) (to_time t)\<rparr> in
      case rest of
        [] \<Rightarrow> [t, if to_time timeout > msecs then timeout\<lparr>to_time := to_u32 (msecs + first)\<rparr> else timeout]
      | n # rest' \<Rightarrow>
          if to_time n > to_time timeout
          then t # timeout # n\<lparr>to_time := sub_u32 (to_time n) (to_time timeout)\<rparr> # rest'
          else t # timeo_insert msecs first timeout rest)"

definition sys_timeout ::
    "nat \<Rightarrow> 'h handler option \<Rightarrow> nat \<Rightarrow> ('h, 'x) timers \<Rightarrow> ('h, 'x) timers" where
  "sys_timeout msecs handler arg st =
     (case do_memp_malloc_pool (tm_pool st) of
        (pool, None) \<Rightarrow> st\<lparr>tm_pool := pool\<rparr>
      | (pool, Some a) \<Rightarrow>
          let st = st\<lparr>tm_pool := pool\<rparr>;
              now = tm_now st;
              (diff, st) = (if next_timeout st = [] then (0, st\<lparr>timeouts_last_time := now\<rparr>)
                            else (sub_u32 now (timeouts_last_time st), st));
              timeout = \<lparr>to_addr = a, to_time = to_u32 (msecs + diff), to_h = handler, to_arg = arg\<rparr>
          in
          case next_timeout st of
            [] \<Rightarrow> st\<lparr>next_timeout := [timeout]\<rparr>
          | first # rest \<Rightarrow>
              if to_time first > msecs
              then st\<lparr>next_timeout :=
                     timeout # first\<lparr>to_time := sub_u32 (to_time first) msecs\<rparr> # rest\<rparr>
              else st\<lparr>next_timeout := timeo_insert msecs (to_time first) timeout (first # rest)\<rparr>)"

fun timeo_remove :: "'h handler option \<Rightarrow> nat \<Rightarrow> 'h sys_timeo list \<Rightarrow> 'h sys_timeo list \<times> 'h sys_timeo option" where
  "timeo_remove handler arg [] = ([], None)"
| "timeo_remove handler arg (t # rest) =
     (if to_h t = handler \<and> to_arg t = arg then
        (case rest of [] \<Rightarrow> [] | n # rest' \<Rightarrow> n\<lparr>to_time := to_u32 (to_time n + to_time t)\<rparr> # rest', Some t)
      else let (rest', r) = timeo_remove handler arg rest in (t # rest', r))"

definition sys_untimeout ::
    "'h handler option \<Rightarrow> nat \<Rightarrow> ('h, 'x) timers \<Rightarrow> ('h, 'x) timers" where
  "sys_untimeout handler arg st =
     (case timeo_remove handler arg (next_timeout st) of
        (l, None) \<Rightarrow> st
      | (l, Some t) \<Rightarrow>
          let st = st\<lparr>next_timeout := l\<rparr>
          in st\<lparr>tm_pool := do_memp_free_pool (tm_pool st) (to_addr t)\<rparr>)"

section \<open>Handlers of this file\<close>

definition tcpip_tcp_timer :: "('h, 'x) callbacks \<Rightarrow> ('h, 'x) timers \<Rightarrow> ('h, 'x) timers" where
  "tcpip_tcp_timer cb st =
     (let st = st\<lparr>tm_env := cb_tcp_tmr cb (tm_env st)\<rparr> in
      if cb_tcp_pcbs cb (tm_env st) then sys_timeout TCP_TMR_INTERVAL (Some Tcpip_tcp_timer) 0 st
      else st\<lparr>tcpip_tcp_timer_active := False\<rparr>)"

definition tcp_timer_needed :: "('h, 'x) callbacks \<Rightarrow> ('h, 'x) timers \<Rightarrow> ('h, 'x) timers" where
  "tcp_timer_needed cb st =
     (if \<not> tcpip_tcp_timer_active st \<and> cb_tcp_pcbs cb (tm_env st)
      then sys_timeout TCP_TMR_INTERVAL (Some Tcpip_tcp_timer) 0 (st\<lparr>tcpip_tcp_timer_active := True\<rparr>)
      else st)"

definition cyclic_timer :: "('h, 'x) callbacks \<Rightarrow> nat \<Rightarrow> ('h, 'x) timers \<Rightarrow> ('h, 'x) timers" where
  "cyclic_timer cb arg st =
     (let st = st\<lparr>tm_env := cb_cyclic cb arg (tm_env st)\<rparr>
      in sys_timeout (lwip_cyclic_timers ! arg) (Some Cyclic_timer) arg st)"

definition sys_timeouts_init :: "('h, 'x) timers \<Rightarrow> ('h, 'x) timers" where
  "sys_timeouts_init st =
     (let st = fold (\<lambda>i. sys_timeout (lwip_cyclic_timers ! i) (Some Cyclic_timer) i)
                 [1..<length lwip_cyclic_timers] st
      in st\<lparr>timeouts_last_time := tm_now st\<rparr>)"

definition call_handler ::
    "('h, 'x) callbacks \<Rightarrow> 'h handler \<Rightarrow> nat \<Rightarrow> ('h, 'x) timers \<Rightarrow> ('h, 'x) timers" where
  "call_handler cb handler arg st =
     (case handler of Tcpip_tcp_timer \<Rightarrow> tcpip_tcp_timer cb st
      | Cyclic_timer \<Rightarrow> cyclic_timer cb arg st
      | User h \<Rightarrow> cb_user cb h arg st)"

section \<open>Firing\<close>

definition fire_first :: "('h, 'x) callbacks \<Rightarrow> ('h, 'x) timers \<Rightarrow> ('h, 'x) timers" where
  "fire_first cb st =
     (let t = hd (next_timeout st);
          st = st\<lparr>timeouts_last_time := to_u32 (timeouts_last_time st + to_time t)\<rparr>;
          st = st\<lparr>next_timeout := tl (next_timeout st)\<rparr>;
          st = st\<lparr>tm_pool := do_memp_free_pool (tm_pool st) (to_addr t)\<rparr>
      in case to_h t of None \<Rightarrow> st | Some h \<Rightarrow> call_handler cb h (to_arg t) st)"

partial_function (option) check_loop ::
    "('h, 'x) callbacks \<Rightarrow> nat \<Rightarrow> ('h, 'x) timers \<Rightarrow> ('h, 'x) timers option" where
  "check_loop cb diff st =
     (let st = st\<lparr>tm_env := cb_check_free_ooseq cb (tm_env st)\<rparr> in
      if next_timeout st \<noteq> [] \<and> to_time (hd (next_timeout st)) \<le> diff
      then check_loop cb (sub_u32 diff (to_time (hd (next_timeout st)))) (fire_first cb st)
      else Some st)"

definition sys_check_timeouts :: "('h, 'x) callbacks \<Rightarrow> ('h, 'x) timers \<Rightarrow> ('h, 'x) timers option" where
  "sys_check_timeouts cb st =
     (if next_timeout st \<noteq> [] then check_loop cb (sub_u32 (tm_now st) (timeouts_last_time st)) st
      else Some st)"

definition sys_restart_timeouts :: "('h, 'x) timers \<Rightarrow> ('h, 'x) timers" where
  "sys_restart_timeouts st = st\<lparr>timeouts_last_time := tm_now st\<rparr>"

definition sys_timeouts_sleeptime :: "('h, 'x) timers \<Rightarrow> nat" where
  "sys_timeouts_sleeptime st =
     (case next_timeout st of
        [] \<Rightarrow> 0xffffffff
      | t # _ \<Rightarrow>
          let diff = sub_u32 (tm_now st) (timeouts_last_time st)
          in if diff > to_time t then 0 else sub_u32 (to_time t) diff)"

section \<open>Deadlines\<close>

text \<open>The abstract view: when each timer is due, counted from \<open>timeouts_last_time\<close>, in list order.\<close>

fun due :: "nat \<Rightarrow> 'h sys_timeo list \<Rightarrow> (nat \<times> 'h handler option \<times> nat) list" where
  "due b [] = []"
| "due b (t # ts) = (b + to_time t, to_h t, to_arg t) # due (b + to_time t) ts"

definition times_total :: "'h sys_timeo list \<Rightarrow> nat" where
  "times_total l = sum_list (map to_time l)"

definition insert_due :: "nat \<Rightarrow> 'a \<Rightarrow> (nat \<times> 'a) list \<Rightarrow> (nat \<times> 'a) list" where
  "insert_due d x l = takeWhile (\<lambda>e. fst e \<le> d) l @ (d, x) # dropWhile (\<lambda>e. fst e \<le> d) l"

lemma times_total_simps [simp]: "times_total [] = 0" "times_total (t # l) = to_time t + times_total l"
  by (simp_all add: times_total_def)

lemma due_ge: "e \<in> set (due b l) \<Longrightarrow> b \<le> fst e"
  by (induction l arbitrary: b) fastforce+

lemma due_sorted: "sorted (map fst (due b l))"
  by (induction l arbitrary: b) (auto dest: due_ge)

lemma due_le_total: "e \<in> set (due b l) \<Longrightarrow> fst e \<le> b + times_total l"
  by (induction l arbitrary: b) (auto, fastforce)

lemma due_shift: "due (d + b) l = map (apfst ((+) d)) (due b l)"
  by (induction l arbitrary: b) (simp_all add: add.assoc)

lemma length_due [simp]: "length (due b l) = length l"
  by (induction l arbitrary: b) auto

definition times_ok :: "'h sys_timeo list \<Rightarrow> bool" where
  "times_ok l \<longleftrightarrow> (\<forall>t \<in> set l. to_time t < 4294967296)"

lemma times_ok_simps [simp]: "times_ok []" "times_ok (t # l) \<longleftrightarrow> to_time t < 4294967296 \<and> times_ok l"
  by (auto simp: times_ok_def)

lemma timeo_insert_due:
  assumes "l \<noteq> []" and "to_time (hd l) \<le> to_time tm" and "to_time tm < 4294967296" and "times_ok l"
  shows "due b (timeo_insert msecs first tm l) =
    (if times_total l + msecs < to_time tm
     then due b l @ [(b + times_total l + to_u32 (msecs + first), to_h tm, to_arg tm)]
     else insert_due (b + to_time tm) (to_h tm, to_arg tm) (due b l))"
  using assms
proof (induction msecs first tm l arbitrary: b rule: timeo_insert.induct)
  case (2 msecs first tm t rest)
  define d where "d = to_time tm - to_time t"
  have tm: "to_time tm = to_time t + d" using "2.prems" by (simp add: d_def)
  then have d: "sub_u32 (to_time t + d) (to_time t) = d"
    using "2.prems" sub_u32_le [of "to_time t" "to_time t + d"] by simp
  show ?case
  proof (cases rest)
    case Nil
    then show ?thesis by (simp add: Let_def d tm insert_due_def)
  next
    case (Cons n rest')
    show ?thesis
    proof (cases "to_time n > d")
      case True
      then have "sub_u32 (to_time n) d = to_time n - d"
        using "2.prems" Cons by (intro sub_u32_le) auto
      moreover have "\<not> to_time t + (to_time n + times_total rest') + msecs < to_time t + d" using True by simp
      moreover have "dropWhile (\<lambda>e. fst e \<le> b + (to_time t + d)) (due b (t # rest)) = due (b + to_time t) rest"
        "takeWhile (\<lambda>e. fst e \<le> b + (to_time t + d)) (due b (t # rest)) = [(b + to_time t, to_h t, to_arg t)]"
        using True Cons by auto
      ultimately show ?thesis
        using True Cons by (simp add: Let_def d tm insert_due_def add.assoc)
    next
      case False
      have "due b' (timeo_insert msecs first (tm\<lparr>to_time := d\<rparr>) rest) =
        (if times_total rest + msecs < d
         then due b' rest @ [(b' + times_total rest + to_u32 (msecs + first), to_h tm, to_arg tm)]
         else insert_due (b' + d) (to_h tm, to_arg tm) (due b' rest))" for b'
        using "2.IH" [OF refl Cons, of b'] False "2.prems" Cons by (simp add: d tm)
      then show ?thesis
        using False Cons by (simp add: Let_def d tm insert_due_def add.assoc)
    qed
  qed
qed simp

lemma due_Nil_iff [simp]: "due b l = [] \<longleftrightarrow> l = []"
  by (cases l) auto

lemma sys_timeout_due:
  assumes "do_memp_malloc_pool (tm_pool st) = (p, Some a)"
    and "next_timeout st = t # l" and "times_ok (t # l)"
    and "diff = sub_u32 (tm_now st) (timeouts_last_time st)" and "msecs + diff < 4294967296"
  shows "timeouts_last_time (sys_timeout msecs h arg st) = timeouts_last_time st"
    and "due 0 (next_timeout (sys_timeout msecs h arg st)) =
      (if msecs < to_time t then (msecs + diff, h, arg) # map (apfst ((+) diff)) (due 0 (t # l))
       else if times_total (t # l) < diff
       then due 0 (t # l) @ [(times_total (t # l) + msecs + to_time t, h, arg)]
       else insert_due (msecs + diff) (h, arg) (due 0 (t # l)))"
proof -
  have m: "to_u32 (msecs + diff) = msecs + diff" using assms(5) by (simp add: to_u32_id)
  show "timeouts_last_time (sys_timeout msecs h arg st) = timeouts_last_time st"
    using assms by (simp add: sys_timeout_def Let_def)
  show "due 0 (next_timeout (sys_timeout msecs h arg st)) =
      (if msecs < to_time t then (msecs + diff, h, arg) # map (apfst ((+) diff)) (due 0 (t # l))
       else if times_total (t # l) < diff
       then due 0 (t # l) @ [(times_total (t # l) + msecs + to_time t, h, arg)]
       else insert_due (msecs + diff) (h, arg) (due 0 (t # l)))"
  proof (cases "msecs < to_time t")
    case True
    then have "sub_u32 (to_time t) msecs = to_time t - msecs"
      using assms(3) by (intro sub_u32_le) auto
    with True assms m show ?thesis
      by (simp add: sys_timeout_def Let_def due_shift [symmetric] add_ac)
  next
    case False
    define tm where "tm = \<lparr>to_addr = a, to_time = msecs + diff, to_h = h, to_arg = arg\<rparr>"
    have eq: "next_timeout (sys_timeout msecs h arg st) = timeo_insert msecs (to_time t) tm (t # l)"
      using False assms m unfolding tm_def
      by (simp add: sys_timeout_def Let_def del: timeo_insert.simps)
    have "to_u32 (msecs + to_time t) = msecs + to_time t" if "times_total (t # l) < diff"
      using that assms(5) by (intro to_u32_id) simp
    then show ?thesis
      unfolding eq using False assms(3,5)
      by (subst timeo_insert_due) (auto simp: tm_def)
  qed
qed

lemma sys_timeout_full:
  "do_memp_malloc_pool (tm_pool st) = (p, None) \<Longrightarrow> sys_timeout msecs h arg st = st\<lparr>tm_pool := p\<rparr>"
  by (simp add: sys_timeout_def)

lemma sys_timeout_empty:
  "do_memp_malloc_pool (tm_pool st) = (p, Some a) \<Longrightarrow> next_timeout st = [] \<Longrightarrow> sys_timeout msecs h arg st =
     st\<lparr>tm_pool := p, timeouts_last_time := tm_now st,
        next_timeout := [\<lparr>to_addr = a, to_time = to_u32 msecs, to_h = h, to_arg = arg\<rparr>]\<rparr>"
  by (simp add: sys_timeout_def Let_def)

lemma sys_timeout_other [simp]:
  "tm_now (sys_timeout msecs h arg st) = tm_now st" "tm_env (sys_timeout msecs h arg st) = tm_env st"
  "tcpip_tcp_timer_active (sys_timeout msecs h arg st) = tcpip_tcp_timer_active st"
  by (auto simp: sys_timeout_def Let_def split: prod.split option.split list.split)

section \<open>The pool of the timers\<close>

definition timers_ok :: "('h, 'x) timers \<Rightarrow> bool" where
  "timers_ok st \<longleftrightarrow> pool_wf (tm_pool st) \<and> distinct (map to_addr (next_timeout st)) \<and>
     set (map to_addr (next_timeout st)) = in_use (tm_pool st) \<and> times_ok (next_timeout st)"

lemma timeo_insert_addr:
  "l \<noteq> [] \<Longrightarrow> mset (map to_addr (timeo_insert ms f tm l)) = add_mset (to_addr tm) (mset (map to_addr l))"
  by (induction ms f tm l rule: timeo_insert.induct) (auto simp: Let_def split: list.splits)

lemma timeo_insert_times: "times_ok l \<Longrightarrow> times_ok (timeo_insert ms f tm l)"
proof (induction ms f tm l rule: timeo_insert.induct)
  case (2 ms f tm t rest)
  then show ?case by (cases rest) (simp_all add: Let_def)
qed simp

lemma sys_timeout_addr:
  assumes "do_memp_malloc_pool (tm_pool st) = (p, Some a)"
  shows "mset (map to_addr (next_timeout (sys_timeout ms h arg st))) =
      add_mset a (mset (map to_addr (next_timeout st)))"
    and "tm_pool (sys_timeout ms h arg st) = p"
    and "times_ok (next_timeout st) \<Longrightarrow> times_ok (next_timeout (sys_timeout ms h arg st))"
  using assms by (auto simp: sys_timeout_def Let_def timeo_insert_addr [unfolded mset_map] timeo_insert_times
      split: list.splits simp del: timeo_insert.simps)

lemma mset_distinct_set:
  assumes "mset xs = add_mset a (mset ys)"
  shows "set xs = insert a (set ys)" and "distinct xs \<longleftrightarrow> a \<notin> set ys \<and> distinct ys"
proof -
  have m: "mset xs = mset (a # ys)" using assms by simp
  show "set xs = insert a (set ys)" using mset_eq_setD [OF m] by simp
  show "distinct xs \<longleftrightarrow> a \<notin> set ys \<and> distinct ys" using mset_eq_imp_distinct_iff [OF m] by simp
qed

lemma sys_timeout_ok:
  assumes "timers_ok st"
  shows "timers_ok (sys_timeout ms h arg st)"
proof (cases "do_memp_malloc_pool (tm_pool st)")
  case (Pair p r)
  have wf: "pool_wf (tm_pool st)" using assms by (simp add: timers_ok_def)
  show ?thesis
  proof (cases r)
    case None
    with Pair memp_pool.get_None [OF wf] assms show ?thesis
      by (simp add: sys_timeout_full timers_ok_def)
  next
    case (Some a)
    with Pair have m: "do_memp_malloc_pool (tm_pool st) = (p, Some a)" by simp
    note s = sys_timeout_addr [OF m, of ms h arg]
    show ?thesis
      using memp_pool.get_Some [OF wf m] assms mset_distinct_set [OF s(1)] s(2,3)
      unfolding timers_ok_def by simp
  qed
qed

lemma timeo_remove_addr:
  "timeo_remove h arg l = (l', r) \<Longrightarrow> times_ok l \<Longrightarrow> times_ok l' \<and>
     (case r of None \<Rightarrow> l' = l
      | Some t \<Rightarrow> mset (map to_addr l) = add_mset (to_addr t) (mset (map to_addr l')))"
  by (induction h arg l arbitrary: l' r rule: timeo_remove.induct)
    (auto split: if_splits list.splits prod.splits option.splits)

lemma sys_untimeout_ok:
  assumes "timers_ok st"
  shows "timers_ok (sys_untimeout h arg st)"
proof (cases "timeo_remove h arg (next_timeout st)")
  case (Pair l r)
  have ok: "times_ok (next_timeout st)" using assms by (simp add: timers_ok_def)
  note r = timeo_remove_addr [OF Pair ok]
  show ?thesis
  proof (cases r)
    case (Some t)
    then have m: "mset (map to_addr (next_timeout st)) = add_mset (to_addr t) (mset (map to_addr l))"
      using r by simp
    note d = mset_distinct_set [OF m]
    have "to_addr t \<in> in_use (tm_pool st)" "pool_wf (tm_pool st)" using assms d by (auto simp: timers_ok_def)
    from memp_pool.put_busy [OF this(2,1)] show ?thesis
      using assms Some Pair r d unfolding sys_untimeout_def timers_ok_def by (auto simp: Let_def)
  qed (use assms Pair in \<open>simp add: sys_untimeout_def\<close>)
qed

lemma timers_ok_frame [simp]:
  "timers_ok (st\<lparr>tm_env := e\<rparr>) = timers_ok st" "timers_ok (st\<lparr>tcpip_tcp_timer_active := b\<rparr>) = timers_ok st"
  "timers_ok (st\<lparr>timeouts_last_time := m\<rparr>) = timers_ok st" "timers_ok (st\<lparr>tm_now := m\<rparr>) = timers_ok st"
  by (simp_all add: timers_ok_def)

definition user_handlers_ok :: "('h, 'x) callbacks \<Rightarrow> bool" where
  "user_handlers_ok cb \<longleftrightarrow> (\<forall>h arg st. timers_ok st \<longrightarrow> timers_ok (cb_user cb h arg st))"

lemma call_handler_ok:
  "user_handlers_ok cb \<Longrightarrow> timers_ok st \<Longrightarrow> timers_ok (call_handler cb h arg st)"
  by (auto simp: call_handler_def tcpip_tcp_timer_def cyclic_timer_def user_handlers_ok_def Let_def
      intro!: sys_timeout_ok split: handler.split)

lemma fire_first_ok:
  assumes "user_handlers_ok cb" and "timers_ok st" and "next_timeout st = t # l"
  shows "timers_ok (fire_first cb st)"
proof -
  define st' where "st' = st\<lparr>timeouts_last_time := to_u32 (timeouts_last_time st + to_time t), next_timeout := l,
     tm_pool := do_memp_free_pool (tm_pool st) (to_addr t)\<rparr>"
  have "pool_wf (tm_pool st)" "to_addr t \<in> in_use (tm_pool st)"
    using assms(2,3) by (auto simp: timers_ok_def)
  moreover have "in_use (tm_pool st) = insert (to_addr t) (to_addr ` set l)" "to_addr t \<notin> to_addr ` set l"
    using assms(2) by (simp_all add: timers_ok_def assms(3))
  moreover from this have "in_use (tm_pool st) - {to_addr t} = to_addr ` set l" by blast
  ultimately have "timers_ok st'"
    using assms(2) memp_pool.put_busy [of "tm_pool st" "to_addr t"] by (simp add: timers_ok_def st'_def assms(3))
  moreover have "fire_first cb st = (case to_h t of None \<Rightarrow> st' | Some h \<Rightarrow> call_handler cb h (to_arg t) st')"
    using assms(3) by (simp add: fire_first_def st'_def Let_def split: option.split)
  ultimately show ?thesis
    using call_handler_ok [OF assms(1)] by (simp split: option.split)
qed

lemma check_loop_ok:
  assumes "check_loop cb diff st = Some st'" and "user_handlers_ok cb" and "timers_ok st"
  shows "timers_ok st'"
  using assms
proof (induction rule: check_loop.raw_induct [rotated, consumes 1])
  case (1 check_loop cb diff st st')
  define st1 where "st1 = st\<lparr>tm_env := cb_check_free_ooseq cb (tm_env st)\<rparr>"
  have ok: "timers_ok st1" using "1.prems" by (simp add: st1_def)
  show ?case
  proof (cases "next_timeout st1 \<noteq> [] \<and> to_time (hd (next_timeout st1)) \<le> diff")
    case True
    then have "timers_ok (fire_first cb st1)"
      using fire_first_ok [OF "1.prems"(1) ok] by (auto simp: neq_Nil_conv)
    then show ?thesis
      using "1.IH" [OF _ "1.prems"(1)] "1.hyps" True unfolding st1_def [symmetric] Let_def by metis
  next
    case False
    then show ?thesis using "1.hyps" ok unfolding st1_def [symmetric] Let_def by auto
  qed
qed

text \<open>Every way the timers change, with the clock.\<close>

inductive timers_reach :: "('h, 'x) callbacks \<Rightarrow> ('h, 'x) timers \<Rightarrow> bool" for cb where
  start: "pool_wf p \<Longrightarrow> in_use p = {} \<Longrightarrow>
    timers_reach cb \<lparr>tm_now = n, next_timeout = [], timeouts_last_time = 0, tcpip_tcp_timer_active = False,
      tm_pool = p, tm_env = e\<rparr>"
| init: "timers_reach cb st \<Longrightarrow> timers_reach cb (sys_timeouts_init st)"
| set: "timers_reach cb st \<Longrightarrow> timers_reach cb (sys_timeout msecs h arg st)"
| cancel: "timers_reach cb st \<Longrightarrow> timers_reach cb (sys_untimeout h arg st)"
| needed: "timers_reach cb st \<Longrightarrow> timers_reach cb (tcp_timer_needed cb st)"
| check: "timers_reach cb st \<Longrightarrow> sys_check_timeouts cb st = Some st' \<Longrightarrow> timers_reach cb st'"
| restart: "timers_reach cb st \<Longrightarrow> timers_reach cb (sys_restart_timeouts st)"
| tick: "timers_reach cb st \<Longrightarrow> timers_reach cb (st\<lparr>tm_now := to_u32 (tm_now st + d)\<rparr>)"

lemma fold_timeout_ok: "timers_ok st \<Longrightarrow> timers_ok (fold (\<lambda>i. sys_timeout (f i) h i) xs st)"
  by (induction xs arbitrary: st) (auto intro: sys_timeout_ok)

lemma timers_reach_ok:
  assumes "timers_reach cb st" and "user_handlers_ok cb"
  shows "timers_ok st"
  using assms
proof (induction rule: timers_reach.induct)
  case (check st st')
  then show ?case
    using check_loop_ok [of cb _ st st'] by (auto simp: sys_check_timeouts_def split: if_splits)
qed (auto simp: timers_ok_def [of "\<lparr>tm_now = _, next_timeout = [], timeouts_last_time = 0,
      tcpip_tcp_timer_active = False, tm_pool = _, tm_env = _\<rparr>"]
    sys_timeouts_init_def tcp_timer_needed_def sys_restart_timeouts_def Let_def
    intro!: sys_timeout_ok sys_untimeout_ok fold_timeout_ok)

section \<open>Firing\<close>

text \<open>User handlers that do not touch the timers or the clock.\<close>

definition user_handlers_pure :: "('h \<Rightarrow> nat \<Rightarrow> 'x \<Rightarrow> 'x) \<Rightarrow> ('h, 'x) callbacks \<Rightarrow> bool" where
  "user_handlers_pure g cb \<longleftrightarrow> (\<forall>h arg st. cb_user cb h arg st = st\<lparr>tm_env := g h arg (tm_env st)\<rparr>)"

fun one_shot :: "'h sys_timeo \<Rightarrow> bool" where
  "one_shot t = (case to_h t of Some Tcpip_tcp_timer \<Rightarrow> False | Some Cyclic_timer \<Rightarrow> False | _ \<Rightarrow> True)"

definition run_one :: "('h \<Rightarrow> nat \<Rightarrow> 'x \<Rightarrow> 'x) \<Rightarrow> ('h, 'x) callbacks \<Rightarrow> 'h sys_timeo \<Rightarrow> 'x \<Rightarrow> 'x" where
  "run_one g cb t e =
     (case to_h t of Some (User h) \<Rightarrow> g h (to_arg t) (cb_check_free_ooseq cb e) | _ \<Rightarrow> cb_check_free_ooseq cb e)"

definition expired :: "nat \<Rightarrow> 'h sys_timeo list \<Rightarrow> 'h sys_timeo list" where
  "expired diff l = take (length (takeWhile (\<lambda>e. fst e \<le> diff) (due 0 l))) l"

lemma expired_simps:
  "expired diff [] = []"
  "to_time t \<le> diff \<Longrightarrow> expired diff (t # l) = t # expired (diff - to_time t) l"
  "\<not> to_time t \<le> diff \<Longrightarrow> expired diff (t # l) = []"
proof -
  assume a: "to_time t \<le> diff"
  have "length (takeWhile (\<lambda>e. fst e \<le> diff) (due (to_time t) l)) =
      length (takeWhile (\<lambda>e. fst e \<le> diff - to_time t) (due 0 l))"
    using a due_shift [of "to_time t" 0 l] by (simp add: takeWhile_map comp_def le_diff_conv2 add.commute)
  with a show "expired diff (t # l) = t # expired (diff - to_time t) l" by (simp add: expired_def)
qed (simp_all add: expired_def)

lemma to_u32_add: "to_u32 (to_u32 a + b) = to_u32 (a + b)"
  by (simp add: to_u32_def mod_add_left_eq)

lemma check_loop_one_shot:
  assumes "user_handlers_pure g cb" and "list_all one_shot (next_timeout st)" and "diff < 4294967296"
    and "timeouts_last_time st < 4294967296"
  shows "\<exists>p. check_loop cb diff st = Some (st\<lparr>
    next_timeout := drop (length (expired diff (next_timeout st))) (next_timeout st),
    timeouts_last_time := to_u32 (timeouts_last_time st + times_total (expired diff (next_timeout st))),
    tm_pool := p,
    tm_env := cb_check_free_ooseq cb (fold (run_one g cb) (expired diff (next_timeout st)) (tm_env st))\<rparr>)"
  using assms(2-)
proof (induction "next_timeout st" arbitrary: st diff)
  case Nil
  then show ?case
    by (intro exI [of _ "tm_pool st"], subst check_loop.simps) (simp add: expired_simps to_u32_id)
next
  case (Cons t l)
  note l = Cons.hyps(2) [symmetric]
  show ?case
  proof (cases "to_time t \<le> diff")
    case False
    then show ?thesis
      by (intro exI [of _ "tm_pool st"], subst check_loop.simps)
        (use Cons.prems l in \<open>simp add: expired_simps to_u32_id\<close>)
  next
    case True
    define st' where "st' = fire_first cb (st\<lparr>tm_env := cb_check_free_ooseq cb (tm_env st)\<rparr>)"
    have st': "st' = st\<lparr>next_timeout := l, timeouts_last_time := to_u32 (timeouts_last_time st + to_time t),
        tm_pool := do_memp_free_pool (tm_pool st) (to_addr t), tm_env := run_one g cb t (tm_env st)\<rparr>"
      using Cons.prems l assms(1)
      by (auto simp: st'_def fire_first_def Let_def call_handler_def user_handlers_pure_def run_one_def
          split: option.splits handler.splits)
    have step: "check_loop cb diff st = check_loop cb (diff - to_time t) st'"
      by (subst check_loop.simps) (use True Cons.prems l in \<open>simp add: st'_def sub_u32_le Let_def\<close>)
    have "l = next_timeout st'" "list_all one_shot (next_timeout st')" "diff - to_time t < 4294967296"
      "timeouts_last_time st' < 4294967296"
      using Cons.prems l by (auto simp: st')
    from Cons.hyps(1) [OF this] obtain p where p: "check_loop cb (diff - to_time t) st' = Some (st'\<lparr>
        next_timeout := drop (length (expired (diff - to_time t) l)) l,
        timeouts_last_time := to_u32 (timeouts_last_time st' + times_total (expired (diff - to_time t) l)),
        tm_pool := p,
        tm_env := cb_check_free_ooseq cb (fold (run_one g cb) (expired (diff - to_time t) l) (tm_env st'))\<rparr>)"
      using \<open>l = next_timeout st'\<close> by auto
    then show ?thesis
      unfolding step using True l
      by (intro exI [of _ p]) (simp add: st' expired_simps to_u32_add add.assoc)
  qed
qed

section \<open>The check returns\<close>

lemma int_sub_u32: "int (sub_u32 a b) = (int a - int b) mod 4294967296"
proof -
  have "int (sub_u32 a b) = (int a + (4294967296 - int b mod 4294967296)) mod 4294967296"
    by (simp add: sub_u32_def of_nat_mod of_nat_diff less_imp_le add_diff_eq)
  also have "\<dots> = (int a - int b + 4294967296) mod 4294967296"
    unfolding add_diff_eq diff_add_eq [symmetric] using mod_diff_right_eq [of "int a + 4294967296" "int b" 4294967296]
    by (simp add: algebra_simps)
  also have "\<dots> = (int a - int b) mod 4294967296" by simp
  finally show ?thesis .
qed

lemma sub_u32_bound: "sub_u32 a b \<le> 4294967295"
  using sub_u32_less [of a b] by linarith

lemma sub_u32_advance:
  assumes "a \<le> sub_u32 n l"
  shows "sub_u32 n (to_u32 (l + a)) = sub_u32 n l - a"
proof -
  have "int (sub_u32 n (to_u32 (l + a))) = (int n - int l - int a) mod 4294967296"
    unfolding int_sub_u32 to_u32_def by (simp add: of_nat_mod mod_diff_right_eq diff_diff_eq)
  also have "\<dots> = (int (sub_u32 n l) - int a) mod 4294967296"
    by (simp add: int_sub_u32 mod_diff_left_eq)
  also have "\<dots> = int (sub_u32 n l - a)"
    using assms sub_u32_bound [of n l]
    by (simp add: of_nat_diff mod_pos_pos_trivial)
  finally show ?thesis by simp
qed

definition zeros :: "'h sys_timeo list \<Rightarrow> nat" where
  "zeros l = length (takeWhile (\<lambda>t. to_time t = 0) l)"

lemma zeros_simps [simp]: "zeros [] = 0" "zeros (t # l) = (if to_time t = 0 then Suc (zeros l) else 0)"
  by (simp_all add: zeros_def)

lemma timeo_insert_zeros:
  assumes "l \<noteq> []" and "to_time (hd l) \<le> to_time tm" and "0 < to_time tm" and "to_time tm < 4294967296"
    and "0 < ms" and "ms + f < 4294967296"
  shows "zeros (timeo_insert ms f tm l) \<le> zeros l"
  using assms
proof (induction ms f tm l rule: timeo_insert.induct)
  case (2 ms f tm t rest)
  show ?case
  proof (cases "to_time t = 0 \<and> rest \<noteq> []")
    case True
    then obtain n rest' where rest: "rest = n # rest'" by (cases rest) auto
    have d: "sub_u32 (to_time tm) 0 = to_time tm" "to_time t = 0"
      using "2.prems" True by (simp_all add: sub_u32_le)
    show ?thesis
    proof (cases "to_time n > to_time tm")
      case False
      then have "zeros (timeo_insert ms f (tm\<lparr>to_time := sub_u32 (to_time tm) (to_time t)\<rparr>) rest) \<le> zeros rest"
        using "2.prems" rest d by (intro "2.IH") simp_all
      with False show ?thesis using d rest by (simp add: Let_def)
    qed (use d rest "2.prems" in simp)
  next
    case False
    moreover have "to_u32 (ms + f) = ms + f" using "2.prems" by (intro to_u32_id) simp
    moreover have "to_time t = 0 \<Longrightarrow> sub_u32 (to_time tm) (to_time t) = to_time tm" using "2.prems" by (simp add: sub_u32_le)
    ultimately show ?thesis using "2.prems" by (cases rest; cases "to_time t = 0") (simp_all add: Let_def)
  qed
qed simp

definition known_handler :: "'h handler option \<Rightarrow> nat \<Rightarrow> bool" where
  "known_handler h arg \<longleftrightarrow> (h = Some Cyclic_timer \<longrightarrow> arg < length lwip_cyclic_timers)"

definition known :: "'h sys_timeo list \<Rightarrow> bool" where
  "known l \<longleftrightarrow> list_all (\<lambda>t. known_handler (to_h t) (to_arg t)) l"

lemma known_simps [simp]: "known []" "known (t # l) \<longleftrightarrow> known_handler (to_h t) (to_arg t) \<and> known l"
  by (simp_all add: known_def)

lemma timeo_insert_known: "known_handler (to_h tm) (to_arg tm) \<Longrightarrow> known l \<Longrightarrow> known (timeo_insert ms f tm l)"
proof (induction ms f tm l rule: timeo_insert.induct)
  case (2 ms f tm t rest)
  then show ?case by (cases rest) (simp_all add: Let_def)
qed simp

lemma interval_bounds: "i < length lwip_cyclic_timers \<Longrightarrow> 0 < lwip_cyclic_timers ! i \<and> lwip_cyclic_timers ! i \<le> 60000"
  by (auto simp: lwip_cyclic_timers_def less_Suc_eq)

definition in_step :: "nat \<Rightarrow> nat \<Rightarrow> ('h, 'x) timers \<Rightarrow> bool" where
  "in_step k d st \<longleftrightarrow> times_ok (next_timeout st) \<and> known (next_timeout st) \<and> d + 60000 < 4294967296 \<and>
     (length (next_timeout st) \<le> k \<or> sub_u32 (tm_now st) (timeouts_last_time st) = d)"

lemma sys_timeout_in_step:
  assumes "in_step 0 d st" and "0 < ms" and "ms \<le> 60000" and "known_handler h arg"
  shows "in_step 1 d (sys_timeout ms h arg st) \<and>
    zeros (next_timeout (sys_timeout ms h arg st)) \<le> zeros (next_timeout st)"
proof (cases "do_memp_malloc_pool (tm_pool st)")
  case (Pair p r)
  show ?thesis
  proof (cases r)
    case None
    then show ?thesis using assms Pair by (auto simp: sys_timeout_full in_step_def)
  next
    case (Some a)
    with Pair have m: "do_memp_malloc_pool (tm_pool st) = (p, Some a)" by simp
    note ok = sys_timeout_addr(3) [OF m, of ms h arg]
    show ?thesis
    proof (cases "next_timeout st")
      case Nil
      then show ?thesis
        using assms by (simp add: sys_timeout_empty [OF m Nil] in_step_def to_u32_id)
    next
      case (Cons t l)
      have d: "sub_u32 (tm_now st) (timeouts_last_time st) = d" "ms + d < 4294967296"
        using assms Cons by (auto simp: in_step_def)
      define tm where "tm = \<lparr>to_addr = a, to_time = ms + d, to_h = h, to_arg = arg\<rparr>"
      have l: "next_timeout (sys_timeout ms h arg st) = (if ms < to_time t
          then tm # t\<lparr>to_time := sub_u32 (to_time t) ms\<rparr> # l else timeo_insert ms (to_time t) tm (t # l))"
        using m Cons d by (simp add: sys_timeout_def Let_def tm_def to_u32_id del: timeo_insert.simps)
      have "timeouts_last_time (sys_timeout ms h arg st) = timeouts_last_time st"
        using m Cons by (simp add: sys_timeout_def Let_def)
      moreover have "known (next_timeout (sys_timeout ms h arg st))"
        using assms Cons timeo_insert_known [of tm "t # l" ms "to_time t"] unfolding l by (auto simp: in_step_def tm_def)
      moreover have "zeros (timeo_insert ms (to_time t) tm (t # l)) \<le> zeros (t # l)" if "\<not> ms < to_time t"
        using that assms d by (intro timeo_insert_zeros) (auto simp: tm_def)
      then have "zeros (next_timeout (sys_timeout ms h arg st)) \<le> zeros (next_timeout st)"
        unfolding l Cons using assms(2) by (cases "ms < to_time t") (simp_all add: tm_def del: timeo_insert.simps)
      moreover have "times_ok (next_timeout (sys_timeout ms h arg st))" using ok assms(1) by (simp add: in_step_def)
      ultimately show ?thesis
        using assms(1) d by (simp add: in_step_def)
    qed
  qed
qed

lemma in_step_env [simp]: "in_step k d (st\<lparr>tm_env := e\<rparr>) = in_step k d st"
  "in_step k d (st\<lparr>tcpip_tcp_timer_active := b\<rparr>) = in_step k d st"
  by (simp_all add: in_step_def)

lemma in_step_mono: "in_step k d st \<Longrightarrow> k \<le> k' \<Longrightarrow> in_step k' d st"
  by (auto simp: in_step_def)

lemma call_handler_in_step:
  assumes "in_step 0 d st" and "user_handlers_pure g cb" and "known_handler (Some h) arg"
  shows "in_step 1 d (call_handler cb h arg st) \<and>
    zeros (next_timeout (call_handler cb h arg st)) \<le> zeros (next_timeout st)"
proof (cases h)
  case Tcpip_tcp_timer
  then show ?thesis
    using sys_timeout_in_step [of d "st\<lparr>tm_env := cb_tcp_tmr cb (tm_env st)\<rparr>" 250 "Some Tcpip_tcp_timer" 0]
      assms(1) in_step_mono [of 0 d st 1]
    by (simp add: call_handler_def tcpip_tcp_timer_def TCP_TMR_INTERVAL_def Let_def known_handler_def)
next
  case Cyclic_timer
  then have "arg < length lwip_cyclic_timers" using assms(3) by (simp add: known_handler_def)
  from interval_bounds [OF this] show ?thesis
    using sys_timeout_in_step [of d "st\<lparr>tm_env := cb_cyclic cb arg (tm_env st)\<rparr>" "lwip_cyclic_timers ! arg"
        "Some Cyclic_timer" arg] assms Cyclic_timer
    by (simp add: call_handler_def cyclic_timer_def Let_def)
next
  case (User u)
  then show ?thesis
    using assms in_step_mono [of 0 d st 1] by (simp add: call_handler_def user_handlers_pure_def)
qed

lemma fire_first_in_step:
  assumes "in_step 1 d st" and "user_handlers_pure g cb" and "next_timeout st = t # l" and "to_time t \<le> d"
  shows "in_step 1 (d - to_time t) (fire_first cb st) \<and> zeros (next_timeout (fire_first cb st)) \<le> zeros l"
proof -
  define st' where "st' = st\<lparr>timeouts_last_time := to_u32 (timeouts_last_time st + to_time t), next_timeout := l,
     tm_pool := do_memp_free_pool (tm_pool st) (to_addr t)\<rparr>"
  have "l \<noteq> [] \<Longrightarrow> sub_u32 (tm_now st) (to_u32 (timeouts_last_time st + to_time t)) = d - to_time t"
    using assms(1,3,4) sub_u32_advance [of "to_time t" "tm_now st" "timeouts_last_time st"]
    by (simp add: in_step_def)
  then have s: "in_step 0 (d - to_time t) st'" "known_handler (to_h t) (to_arg t)"
    using assms(1,3) by (auto simp: in_step_def st'_def)
  have "fire_first cb st = (case to_h t of None \<Rightarrow> st' | Some h \<Rightarrow> call_handler cb h (to_arg t) st')"
    using assms(3) by (simp add: fire_first_def st'_def Let_def split: option.split)
  then show ?thesis
    using call_handler_in_step [OF s(1) assms(2)] in_step_mono [OF s(1), of 1] s(2)
    by (auto simp: st'_def split: option.split)
qed

lemma check_loop_returns:
  assumes "in_step 1 d st" and "user_handlers_pure g cb"
  shows "\<exists>st'. check_loop cb d st = Some st'"
  using assms(1)
proof (induction d arbitrary: st rule: less_induct)
  case (less d)
  note outer = less.IH
  from less.prems show ?case
  proof (induction "zeros (next_timeout st)" arbitrary: st rule: less_induct)
    case less
    let ?st = "st\<lparr>tm_env := cb_check_free_ooseq cb (tm_env st)\<rparr>"
    show ?case
    proof (cases "next_timeout st")
      case Nil
      then show ?thesis by (subst check_loop.simps) simp
    next
      case (Cons t l)
      show ?thesis
      proof (cases "to_time t \<le> d")
        case False
        then show ?thesis using Cons by (subst check_loop.simps) simp
      next
        case True
        have "d < 4294967296" using less.prems by (simp add: in_step_def)
        then have step: "check_loop cb d st = check_loop cb (d - to_time t) (fire_first cb ?st)"
          by (subst check_loop.simps) (use True Cons in \<open>simp add: sub_u32_le Let_def\<close>)
        have f: "in_step 1 (d - to_time t) (fire_first cb ?st)" "zeros (next_timeout (fire_first cb ?st)) \<le> zeros l"
          using fire_first_in_step [of d ?st g cb t l] less.prems assms(2) Cons True by auto
        show ?thesis
        proof (cases "to_time t = 0")
          case True
          then show ?thesis
            unfolding step using f less.hyps [of "fire_first cb ?st"] Cons by simp
        next
          case False
          then show ?thesis unfolding step using f True by (intro outer) auto
        qed
      qed
    qed
  qed
qed

lemma timeo_remove_due:
  assumes "b + times_total l < 4294967296"
  shows "due b (fst (timeo_remove h arg l)) =
      takeWhile (\<lambda>e. snd e \<noteq> (h, arg)) (due b l) @ tl (dropWhile (\<lambda>e. snd e \<noteq> (h, arg)) (due b l))"
  using assms
proof (induction h arg l arbitrary: b rule: timeo_remove.induct)
  case (2 h arg t rest)
  show ?case
  proof (cases "to_h t = h \<and> to_arg t = arg")
    case True
    then show ?thesis
      using "2.prems" by (cases rest) (simp_all add: to_u32_id add_ac)
  next
    case False
    then show ?thesis
      using "2.IH" [of "b + to_time t"] "2.prems" by (auto split: prod.splits)
  qed
qed simp

lemma timeo_remove_None: "snd (timeo_remove h arg l) = None \<longleftrightarrow> (h, arg) \<notin> set (map snd (due b l))"
  by (induction h arg l arbitrary: b rule: timeo_remove.induct) (auto split: prod.splits)

lemma due_no_match:
  "(h, arg) \<notin> set (map snd D) \<Longrightarrow>
    takeWhile (\<lambda>e. snd e \<noteq> (h, arg)) D @ tl (dropWhile (\<lambda>e. snd e \<noteq> (h, arg)) D) = D"
  by (induction D) auto

lemma expired_prefix: "expired diff l @ drop (length (expired diff l)) l = l"
  unfolding expired_def by (metis append_eq_conv_conj append_take_drop_id)

section \<open>Properties\<close>

text \<open>
  C8. Whatever sequence of timer operations and clock ticks the program performs, as long as the
  user's handlers keep to the same interface, the elements of the pool that are in use are exactly the nodes
  of the list, each once: no timer is leaked, lost or freed twice.
\<close>
theorem timers_pool_exact:
  assumes "timers_reach cb st" and "user_handlers_ok cb"
  shows "timers_ok st \<and> length (next_timeout st) = mp_used (tm_pool st)"
proof -
  have ok: "timers_ok st" using assms by (rule timers_reach_ok)
  then have "card (set (map to_addr (next_timeout st))) = mp_used (tm_pool st)"
    using card_in_use [of "tm_pool st"] unfolding timers_ok_def by metis
  moreover have "card (set (map to_addr (next_timeout st))) = length (map to_addr (next_timeout st))"
    using ok by (intro distinct_card) (simp add: timers_ok_def)
  ultimately show ?thesis using ok by simp
qed

definition demo_cb :: "(nat, nat list) callbacks" where
  "demo_cb = \<lparr>cb_tcp_tmr = (\<lambda>e. e @ [100]), cb_tcp_pcbs = (\<lambda>e. True), cb_cyclic = (\<lambda>i e. e @ [i]),
     cb_check_free_ooseq = id, cb_user = (\<lambda>h arg st. st\<lparr>tm_env := tm_env st @ [h, arg]\<rparr>)\<rparr>"

definition demo_timers :: "(nat, nat list) timers" where
  "demo_timers = \<lparr>tm_now = 5, next_timeout = [], timeouts_last_time = 0, tcpip_tcp_timer_active = False,
     tm_pool = demo_pool, tm_env = []\<rparr>"

lemma demo_cb_ok: "user_handlers_ok demo_cb" "user_handlers_pure (\<lambda>h arg e. e @ [h, arg]) demo_cb"
  by (simp_all add: user_handlers_ok_def user_handlers_pure_def demo_cb_def)

lemma demo_timers_reach: "timers_reach cb demo_timers"
  unfolding demo_timers_def by (intro timers_reach.start demo_pool_wf)

theorem timers_pool_exact_witness:
  "length (next_timeout (sys_timeout 20 (Some (User 7)) 1 demo_timers)) =
     mp_used (tm_pool (sys_timeout 20 (Some (User 7)) 1 demo_timers))"
  using timers_pool_exact [OF timers_reach.set [OF demo_timers_reach] demo_cb_ok(1)] by blast


definition demo_list :: "(nat, nat list) timers" where
  "demo_list = \<lparr>tm_now = 15, next_timeout = [\<lparr>to_addr = 1036, to_time = 30, to_h = Some (User 7), to_arg = 1\<rparr>],
     timeouts_last_time = 5, tcpip_tcp_timer_active = False,
     tm_pool = fst (do_memp_malloc_pool demo_pool), tm_env = []\<rparr>"

lemma demo_diff: "sub_u32 15 5 = 10" by (simp add: sub_u32_le)

lemma demo_malloc: "snd (do_memp_malloc_pool (tm_pool demo_list)) = Some 1020"
proof -
  have "mp_tab demo_pool = Some 1036" "mp_next demo_pool 1036 = Some 1020" by code_simp+
  then show ?thesis by (simp add: demo_list_def do_memp_malloc_pool_def Let_def)
qed


text \<open>
  C25. \<open>sys_untimeout\<close> removes the first timer with this handler and argument and leaves the due times of
  all the others as they are; without such a timer nothing changes.
\<close>
theorem sys_untimeout_deadlines:
  assumes "times_total (next_timeout st) < 4294967296"
  shows "due 0 (next_timeout (sys_untimeout h arg st)) =
      takeWhile (\<lambda>e. snd e \<noteq> (h, arg)) (due 0 (next_timeout st)) @
      tl (dropWhile (\<lambda>e. snd e \<noteq> (h, arg)) (due 0 (next_timeout st)))
    \<and> ((h, arg) \<notin> set (map snd (due 0 (next_timeout st))) \<longrightarrow> sys_untimeout h arg st = st)"
proof -
  obtain l r where lr: "timeo_remove h arg (next_timeout st) = (l, r)" by fastforce
  have d: "due 0 l = takeWhile (\<lambda>e. snd e \<noteq> (h, arg)) (due 0 (next_timeout st)) @
      tl (dropWhile (\<lambda>e. snd e \<noteq> (h, arg)) (due 0 (next_timeout st)))"
    using timeo_remove_due [of 0 "next_timeout st" h arg] assms lr by simp
  note n = timeo_remove_None [of h arg "next_timeout st" 0, unfolded lr snd_conv]
  show ?thesis
  proof (cases r)
    case None
    then show ?thesis
      using n due_no_match [of h arg "due 0 (next_timeout st)"] lr by (simp add: sys_untimeout_def)
  next
    case (Some t)
    then show ?thesis using n d lr by (simp add: sys_untimeout_def Let_def)
  qed
qed

theorem sys_untimeout_deadlines_witness:
  "next_timeout (sys_untimeout (Some (User 7)) 1 demo_list) = []"
proof -
  have "times_total (next_timeout demo_list) < 4294967296" by (simp add: demo_list_def)
  from sys_untimeout_deadlines [OF this, of "Some (User 7)" 1] show ?thesis
    by (simp add: demo_list_def)
qed



text \<open>
  C24. \<open>sys_check_timeouts\<close> returns although the stack's own handlers set themselves again: with the cyclic
  timers, the TCP timer and user handlers that set none, unless the stack has not been
  called for so long that the time since then and the longest interval no longer fit 32 bits.
\<close>
theorem sys_check_timeouts_returns:
  assumes "user_handlers_pure g cb" and "times_ok (next_timeout st)" and "known (next_timeout st)"
    and "sub_u32 (tm_now st) (timeouts_last_time st) + 60000 < 4294967296"
  shows "\<exists>st'. sys_check_timeouts cb st = Some st'"
  using check_loop_returns [OF _ assms(1), of "sub_u32 (tm_now st) (timeouts_last_time st)" st] assms(2-)
  by (simp add: sys_check_timeouts_def in_step_def)

theorem sys_check_timeouts_returns_witness:
  "\<exists>st'. sys_check_timeouts demo_cb (demo_list\<lparr>next_timeout :=
     [\<lparr>to_addr = 1036, to_time = 0, to_h = Some Cyclic_timer, to_arg = 5\<rparr>], tm_now := 5005\<rparr>) = Some st'"
proof (rule sys_check_timeouts_returns [OF demo_cb_ok(2)])
  have "sub_u32 5005 5 = 5000" by (simp add: sub_u32_le)
  then show "sub_u32 (tm_now (demo_list\<lparr>next_timeout :=
      [\<lparr>to_addr = 1036, to_time = 0, to_h = Some Cyclic_timer, to_arg = 5\<rparr>], tm_now := 5005\<rparr>))
    (timeouts_last_time (demo_list\<lparr>next_timeout :=
      [\<lparr>to_addr = 1036, to_time = 0, to_h = Some Cyclic_timer, to_arg = 5\<rparr>], tm_now := 5005\<rparr>)) + 60000 < 4294967296"
    by (simp add: demo_list_def)
qed (simp_all add: demo_list_def known_handler_def lwip_cyclic_timers_def)

end
