(* ===== verification/Mem.thy ===== *)
theory Mem
  imports Lwip_Prelude
begin

text \<open>
  The heap of \<open>core/mem.c\<close>: a first-fit allocator whose blocks form a doubly linked list of
  headers inside the array \<open>ram\<close>.  Pointers are offsets from \<open>ram\<close> (\<open>None\<close> is \<open>NULL\<close>); the array
  is the function that gives the header stored at an offset, so a header that is no longer linked
  stays where it was, as in the code.  \<open>mem_size_t\<close> is \<open>u16_t\<close> for the configured 24000 bytes and
  every assignment to it is reduced by \<open>u16\<close>.  The statistics counters of \<open>lwip_stats.mem\<close> are
  part of the state.  Bytes of user data are not: no operation of this file reads them, and
  \<open>mem_calloc\<close> returns the range it clears.

  The invariant \<open>heap_ok h S\<close> says that the offsets \<open>S\<close> are the linked headers of a heap without
  overlap, gaps or neighbouring free blocks; the locale \<open>heap_allocator\<close> is the contract clients
  get, interpreted on the operations below.
\<close>

section \<open>Data and configuration\<close>

definition MEM_SIZE_ALIGNED :: int where [simp]: "MEM_SIZE_ALIGNED = 24000"
definition SIZEOF_STRUCT_MEM :: int where [simp]: "SIZEOF_STRUCT_MEM = 8"
definition MIN_SIZE_ALIGNED :: int where [simp]: "MIN_SIZE_ALIGNED = 12"

definition u16i :: "int \<Rightarrow> int" where
  "u16i x = x mod 65536"

definition LWIP_MEM_ALIGN_SIZE :: "int \<Rightarrow> int" where
  "LWIP_MEM_ALIGN_SIZE sz = (sz + 3) mod 2 ^ 32 div 4 * 4"

record mem_hdr =
  mnext :: int
  mprev :: int
  mused :: bool

record heap =
  ram :: "int \<Rightarrow> mem_hdr"
  lfree :: int
  st_err :: int
  st_avail :: int
  st_used :: int
  st_max :: int
  st_illegal :: int

definition set_next :: "int \<Rightarrow> int \<Rightarrow> heap \<Rightarrow> heap" where
  "set_next p v h = h\<lparr>ram := (ram h)(p := (ram h p)\<lparr>mnext := u16i v\<rparr>)\<rparr>"

definition set_prev :: "int \<Rightarrow> int \<Rightarrow> heap \<Rightarrow> heap" where
  "set_prev p v h = h\<lparr>ram := (ram h)(p := (ram h p)\<lparr>mprev := u16i v\<rparr>)\<rparr>"

definition set_used :: "int \<Rightarrow> bool \<Rightarrow> heap \<Rightarrow> heap" where
  "set_used p v h = h\<lparr>ram := (ram h)(p := (ram h p)\<lparr>mused := v\<rparr>)\<rparr>"

definition MEM_STATS_INC_USED :: "int \<Rightarrow> heap \<Rightarrow> heap" where
  "MEM_STATS_INC_USED y h =
     (let h = h\<lparr>st_used := u16i (st_used h + y)\<rparr>
      in if st_max h < st_used h then h\<lparr>st_max := st_used h\<rparr> else h)"

definition MEM_STATS_DEC_USED :: "int \<Rightarrow> heap \<Rightarrow> heap" where
  "MEM_STATS_DEC_USED y h = h\<lparr>st_used := u16i (st_used h - y)\<rparr>"

section \<open>Operations\<close>

definition plug_forward :: "int \<Rightarrow> heap \<Rightarrow> heap" where
  "plug_forward mem h =
     (let nmem = mnext (ram h mem) in
      if mem \<noteq> nmem \<and> \<not> mused (ram h nmem) \<and> nmem \<noteq> MEM_SIZE_ALIGNED then
        let h = (if lfree h = nmem then h\<lparr>lfree := mem\<rparr> else h);
            h = set_next mem (mnext (ram h nmem)) h
        in set_prev (mnext (ram h nmem)) mem h
      else h)"

definition plug_backward :: "int \<Rightarrow> heap \<Rightarrow> heap" where
  "plug_backward mem h =
     (let pmem = mprev (ram h mem) in
      if pmem \<noteq> mem \<and> \<not> mused (ram h pmem) then
        let h = (if lfree h = mem then h\<lparr>lfree := pmem\<rparr> else h);
            h = set_next pmem (mnext (ram h mem)) h
        in set_prev (mnext (ram h mem)) pmem h
      else h)"

definition plug_holes :: "int \<Rightarrow> heap \<Rightarrow> heap" where
  "plug_holes mem h = plug_backward mem (plug_forward mem h)"

definition mem_init :: "heap \<Rightarrow> heap" where
  "mem_init h =
     (let h = set_next 0 MEM_SIZE_ALIGNED h;
          h = set_prev 0 0 h;
          h = set_used 0 False h;
          h = set_used MEM_SIZE_ALIGNED True h;
          h = set_next MEM_SIZE_ALIGNED MEM_SIZE_ALIGNED h;
          h = set_prev MEM_SIZE_ALIGNED MEM_SIZE_ALIGNED h;
          h = h\<lparr>lfree := 0\<rparr>
      in h\<lparr>st_avail := MEM_SIZE_ALIGNED\<rparr>)"

definition mem_free :: "int option \<Rightarrow> heap \<Rightarrow> heap" where
  "mem_free rmem h =
     (case rmem of
        None \<Rightarrow> h
      | Some r \<Rightarrow>
          if r < 0 \<or> r \<ge> MEM_SIZE_ALIGNED then h\<lparr>st_illegal := u16i (st_illegal h + 1)\<rparr>
          else
            let mem = r - SIZEOF_STRUCT_MEM;
                h = set_used mem False h;
                h = (if mem < lfree h then h\<lparr>lfree := mem\<rparr> else h);
                h = MEM_STATS_DEC_USED (mnext (ram h mem) - u16i mem) h
            in plug_holes mem h)"

definition mem_shrink :: "int \<Rightarrow> int \<Rightarrow> heap \<Rightarrow> heap \<times> int option" where
  "mem_shrink rmem newsize h =
     (let mem = rmem - SIZEOF_STRUCT_MEM;
          ptr = u16i mem;
          sz = u16i (mnext (ram h mem) - ptr - SIZEOF_STRUCT_MEM)
      in
      if newsize > sz then (h, None)
      else if newsize = sz then (h, Some rmem)
      else
        let mem2 = mnext (ram h mem) in
        if \<not> mused (ram h mem2) then
          let nxt = mnext (ram h mem2);
              ptr2 = u16i (ptr + SIZEOF_STRUCT_MEM + newsize);
              h = (if lfree h = mem2 then h\<lparr>lfree := ptr2\<rparr> else h);
              h = set_used ptr2 False h;
              h = set_next ptr2 nxt h;
              h = set_prev ptr2 ptr h;
              h = set_next mem ptr2 h;
              h = (if mnext (ram h ptr2) \<noteq> MEM_SIZE_ALIGNED
                   then set_prev (mnext (ram h ptr2)) ptr2 h else h)
          in (MEM_STATS_DEC_USED (sz - newsize) h, Some rmem)
        else if newsize + SIZEOF_STRUCT_MEM + MIN_SIZE_ALIGNED \<le> sz then
          let ptr2 = u16i (ptr + SIZEOF_STRUCT_MEM + newsize);
              h = (if ptr2 < lfree h then h\<lparr>lfree := ptr2\<rparr> else h);
              h = set_used ptr2 False h;
              h = set_next ptr2 (mnext (ram h mem)) h;
              h = set_prev ptr2 ptr h;
              h = set_next mem ptr2 h;
              h = (if mnext (ram h ptr2) \<noteq> MEM_SIZE_ALIGNED
                   then set_prev (mnext (ram h ptr2)) ptr2 h else h)
          in (MEM_STATS_DEC_USED (sz - newsize) h, Some rmem)
        else (h, Some rmem))"

definition mem_trim :: "int \<Rightarrow> int \<Rightarrow> heap \<Rightarrow> heap \<times> int option" where
  "mem_trim rmem newsize h =
     (let newsize = u16i (LWIP_MEM_ALIGN_SIZE newsize);
          newsize = (if newsize < MIN_SIZE_ALIGNED then MIN_SIZE_ALIGNED else newsize)
      in
      if newsize > MEM_SIZE_ALIGNED then (h, None)
      else if rmem < 0 \<or> rmem \<ge> MEM_SIZE_ALIGNED
      then (h\<lparr>st_illegal := u16i (st_illegal h + 1)\<rparr>, Some rmem)
      else mem_shrink rmem newsize h)"

text \<open>The two loops of \<open>mem_malloc\<close>; on a corrupted list they would not return.\<close>

partial_function (option) mem_scan :: "heap \<Rightarrow> int \<Rightarrow> int \<Rightarrow> int option option" where
  "mem_scan h sz ptr =
     (if ptr < MEM_SIZE_ALIGNED - sz then
        if \<not> mused (ram h ptr) \<and> (mnext (ram h ptr) - (ptr + SIZEOF_STRUCT_MEM)) mod 2 ^ 32 \<ge> sz
        then Some (Some ptr)
        else mem_scan h sz (mnext (ram h ptr))
      else Some None)"

partial_function (option) lfree_scan :: "heap \<Rightarrow> int \<Rightarrow> int option" where
  "lfree_scan h cur =
     (if mused (ram h cur) \<and> cur \<noteq> MEM_SIZE_ALIGNED then lfree_scan h (mnext (ram h cur)) else Some cur)"

definition mem_take :: "int \<Rightarrow> int \<Rightarrow> heap \<Rightarrow> heap" where
  "mem_take sz ptr h =
     (if (mnext (ram h ptr) - (ptr + SIZEOF_STRUCT_MEM)) mod 2 ^ 32
           \<ge> sz + SIZEOF_STRUCT_MEM + MIN_SIZE_ALIGNED then
        let ptr2 = u16i (ptr + SIZEOF_STRUCT_MEM + sz);
            h = set_used ptr2 False h;
            h = set_next ptr2 (mnext (ram h ptr)) h;
            h = set_prev ptr2 ptr h;
            h = set_next ptr ptr2 h;
            h = set_used ptr True h;
            h = (if mnext (ram h ptr2) \<noteq> MEM_SIZE_ALIGNED
                 then set_prev (mnext (ram h ptr2)) ptr2 h else h)
        in MEM_STATS_INC_USED (sz + SIZEOF_STRUCT_MEM) h
      else
        let h = set_used ptr True h
        in MEM_STATS_INC_USED (mnext (ram h ptr) - u16i ptr) h)"

definition mem_malloc :: "int \<Rightarrow> heap \<Rightarrow> (heap \<times> int option) option" where
  "mem_malloc sz h =
     (if sz = 0 then Some (h, None)
      else
        let sz = u16i (LWIP_MEM_ALIGN_SIZE sz);
            sz = (if sz < MIN_SIZE_ALIGNED then MIN_SIZE_ALIGNED else sz)
        in
        if sz > MEM_SIZE_ALIGNED then Some (h, None)
        else
          case mem_scan h sz (lfree h) of
            None \<Rightarrow> None
          | Some None \<Rightarrow> Some (h\<lparr>st_err := u16i (st_err h + 1)\<rparr>, None)
          | Some (Some ptr) \<Rightarrow>
              (let h = mem_take sz ptr h in
               if ptr = lfree h then
                 case lfree_scan h (lfree h) of
                   None \<Rightarrow> None
                 | Some cur \<Rightarrow> Some (h\<lparr>lfree := cur\<rparr>, Some (ptr + SIZEOF_STRUCT_MEM))
               else Some (h, Some (ptr + SIZEOF_STRUCT_MEM))))"

definition mem_calloc :: "int \<Rightarrow> int \<Rightarrow> heap \<Rightarrow> (heap \<times> int option \<times> int) option" where
  "mem_calloc count sz h =
     (case mem_malloc (u16i (count * sz)) h of
        None \<Rightarrow> None
      | Some (h, None) \<Rightarrow> Some (h, None, 0)
      | Some (h, Some p) \<Rightarrow> Some (h, Some p, count * sz))"

section \<open>The linked list of blocks\<close>

definition links :: "(int \<Rightarrow> int) \<Rightarrow> (int \<Rightarrow> int) \<Rightarrow> int set \<Rightarrow> bool" where
  "links n v S \<longleftrightarrow> finite S \<and> 0 \<in> S \<and> v 0 = 0 \<and>
     (\<forall>p\<in>S. 0 \<le> p \<and> 4 dvd p \<and> p + 20 \<le> n p \<and> n p \<le> 24000) \<and>
     (\<forall>p\<in>S. n p = 24000 \<or> n p \<in> S \<and> v (n p) = p) \<and> (\<forall>p\<in>S. \<forall>q\<in>S. q \<le> p \<or> n p \<le> q)"

lemma links_cong:
  "links n v S \<Longrightarrow> (\<And>x. x \<in> S \<Longrightarrow> n' x = n x) \<Longrightarrow> (\<And>x. x \<in> S \<Longrightarrow> v' x = v x) \<Longrightarrow> links n' v' S"
  unfolding links_def by auto

lemma linksI:
  assumes "finite S" and "0 \<in> S" and "v 0 = 0"
    and "\<And>p. p \<in> S \<Longrightarrow> 0 \<le> p \<and> 4 dvd p \<and> p + 20 \<le> n p \<and> n p \<le> 24000"
    and "\<And>p. p \<in> S \<Longrightarrow> n p = 24000 \<or> n p \<in> S \<and> v (n p) = p"
    and "\<And>p q. p \<in> S \<Longrightarrow> q \<in> S \<Longrightarrow> q \<le> p \<or> n p \<le> q"
  shows "links n v S"
  using assms unfolding links_def by blast

lemma linksD:
  assumes "links n v S" and "p \<in> S"
  shows "0 \<le> p" "4 dvd p" "p + 20 \<le> n p" "n p \<le> 24000" "n p \<noteq> 24000 \<Longrightarrow> n p \<in> S"
    "n p \<noteq> 24000 \<Longrightarrow> v (n p) = p" "q \<in> S \<Longrightarrow> q \<le> p \<or> n p \<le> q"
  using assms unfolding links_def by blast+

lemma links_less: "links n v S \<Longrightarrow> p \<in> S \<Longrightarrow> p < n p"
  and links_end: "links n v S \<Longrightarrow> p \<in> S \<Longrightarrow> p < 24000"
  by (drule (1) linksD(3), simp) (frule (1) linksD(3), drule (1) linksD(4), simp)

lemma links_0 [simp]: "links n v S \<Longrightarrow> 0 \<in> S" and links_v0: "links n v S \<Longrightarrow> v 0 = 0"
  and links_finite [simp]: "links n v S \<Longrightarrow> finite S"
  by (simp_all add: links_def)

lemma links_next_inj:
  assumes "links n v S" and "p \<in> S" and "q \<in> S" and "n p = n q"
  shows "p = q"
  using linksD(7) [OF assms(1,2,3)] linksD(7) [OF assms(1,3,2)] links_less [OF assms(1,2)]
    links_less [OF assms(1,3)] assms(4) by linarith

lemma links_split:
  assumes L: "links n v S" and p: "p \<in> S" and pq: "p + 20 \<le> q" and qn: "q + 20 \<le> n p" and "4 dvd q"
  shows "links (n(p := q, q := n p)) (v(q := p, n p := q)) (insert q S)"
proof (rule linksI)
  have q: "q \<notin> S" "q \<noteq> p"
    using linksD(7) [OF L p, of q] pq qn by auto
  have other: "x \<noteq> q" "n x \<noteq> n p" if "x \<in> S" "x \<noteq> p" for x
    using links_next_inj [OF L that(1) p] that q by auto
  show "finite (insert q S)" "0 \<in> insert q S"
    using L by simp_all
  show "(v(q := p, n p := q)) 0 = 0"
    using links_v0 [OF L] linksD(1) [OF L p] pq qn by auto
  fix x
  assume x: "x \<in> insert q S"
  then show "0 \<le> x \<and> 4 dvd x \<and> x + 20 \<le> (n(p := q, q := n p)) x \<and> (n(p := q, q := n p)) x \<le> 24000"
    using linksD [OF L p] linksD(1-4) [OF L, of x] assms q by (cases "x = q"; cases "x = p") auto
  show "(n(p := q, q := n p)) x = 24000 \<or> (n(p := q, q := n p)) x \<in> insert q S \<and>
      (v(q := p, n p := q)) ((n(p := q, q := n p)) x) = x"
    using x linksD(5,6) [OF L p] linksD(5,6) [OF L, of x] other q pq qn by (cases "x = q"; cases "x = p") auto
  fix y
  assume y: "y \<in> insert q S"
  show "y \<le> x \<or> (n(p := q, q := n p)) x \<le> y"
    using x y p linksD(7) [OF L p, of y] linksD(7) [OF L p, of x] linksD(7) [OF L, of x y] linksD(7) [OF L, of x p] pq qn q
      links_less [OF L p] links_less [OF L, of x]
    by (cases "x = q"; cases "x = p"; cases "y = q") auto
qed

lemma links_merge:
  assumes L: "links n v S" and p: "p \<in> S" and np: "n p \<noteq> 24000"
  shows "links (n(p := n (n p))) (v(n (n p) := p)) (S - {n p})"
proof (rule linksI)
  let ?m = "n p"
  have m: "?m \<in> S" using linksD(5) [OF L p np] .
  have less: "p < ?m" "?m < n ?m"
    using links_less [OF L p] links_less [OF L m] by auto
  have other: "n x \<noteq> ?m" if "x \<in> S" "x \<noteq> p" for x
    using links_next_inj [OF L that(1) p] that by auto
  have other2: "n x \<noteq> n ?m" if "x \<in> S" "x \<noteq> ?m" for x
    using links_next_inj [OF L that(1) m] that by auto
  show "finite (S - {?m})" "0 \<in> S - {?m}"
    using L less(1) linksD(1) [OF L p] by auto
  show "(v(n ?m := p)) 0 = 0"
    using links_v0 [OF L] linksD(1) [OF L p] less by auto
  fix x
  assume x: "x \<in> S - {?m}"
  then show "0 \<le> x \<and> 4 dvd x \<and> x + 20 \<le> (n(p := n ?m)) x \<and> (n(p := n ?m)) x \<le> 24000"
    using linksD(1-4) [OF L p] linksD(1-4) [OF L m] linksD(1-4) [OF L, of x] less by (cases "x = p") auto
  show "(n(p := n ?m)) x = 24000 \<or> (n(p := n ?m)) x \<in> S - {?m} \<and> (v(n ?m := p)) ((n(p := n ?m)) x) = x"
    using x linksD(5,6) [OF L m] linksD(5,6) [OF L, of x] other [of x] other2 [of x] less by (cases "x = p") auto
  fix y
  assume y: "y \<in> S - {?m}"
  show "y \<le> x \<or> (n(p := n ?m)) x \<le> y"
    using x y linksD(7) [OF L p, of y] linksD(7) [OF L m, of y] linksD(7) [OF L, of x y] less
    by (cases "x = p") auto
qed


definition total_used :: "(int \<Rightarrow> int) \<Rightarrow> (int \<Rightarrow> bool) \<Rightarrow> int set \<Rightarrow> int" where
  "total_used n u S = (\<Sum>p\<in>S. if u p then n p - p else 0)"

lemma total_used_bounds:
  assumes "links n v S"
  shows "0 \<le> total_used n u S" and "total_used n u S \<le> 24000"
proof -
  have pos: "0 \<le> (if u p then n p - p else 0)" "(if u p then n p - p else 0) \<le> int (card {p..<n p})"
    if "p \<in> S" for p
    using links_less [OF assms that] by auto
  show "0 \<le> total_used n u S"
    unfolding total_used_def by (intro sum_nonneg) (use pos in auto)
  have "total_used n u S \<le> (\<Sum>p\<in>S. int (card {p..<n p}))"
    unfolding total_used_def by (intro sum_mono) (use pos in auto)
  also have "\<dots> = int (card (\<Union>p\<in>S. {p..<n p}))"
  proof -
    have "{p..<n p} \<inter> {q..<n q} = {}" if "p \<in> S" "q \<in> S" "p \<noteq> q" for p q
      using linksD(7) [OF assms that(1,2)] linksD(7) [OF assms that(2,1)] that(3) by auto
    then show ?thesis
      using assms by (subst card_UN_disjoint) auto
  qed
  also have "\<dots> \<le> int (card {0..<24000::int})"
  proof -
    have "(\<Union>p\<in>S. {p..<n p}) \<subseteq> {0..<24000}"
      using linksD(1,4) [OF assms] by fastforce
    then show ?thesis by (intro of_nat_mono card_mono) auto
  qed
  finally show "total_used n u S \<le> 24000" by simp
qed

lemma total_used_upd:
  assumes "finite S" and "p \<in> S"
    and "\<And>x. x \<in> S \<Longrightarrow> x \<noteq> p \<Longrightarrow> n' x = n x \<and> u' x = u x"
  shows "total_used n' u' S = total_used n u S - (if u p then n p - p else 0) + (if u' p then n' p - p else 0)"
proof -
  have "(\<Sum>x\<in>S - {p}. if u' x then n' x - x else 0) = (\<Sum>x\<in>S - {p}. if u x then n x - x else 0)"
    using assms(3) by (intro sum.cong) auto
  then show ?thesis
    using assms(1,2) by (simp add: total_used_def sum.remove [OF assms(1,2)])
qed

lemma total_used_insert:
  assumes "finite S" and "q \<notin> S" and "\<not> u q"
  shows "total_used n u (insert q S) = total_used n u S"
  using assms by (simp add: total_used_def)

lemma total_used_remove:
  assumes "finite S" and "q \<in> S" and "\<not> u q"
  shows "total_used n u (S - {q}) = total_used n u S"
  using assms by (simp add: total_used_def sum.remove [OF assms(1,2)])

abbreviation nx :: "heap \<Rightarrow> int \<Rightarrow> int" where "nx h p \<equiv> mnext (ram h p)"
abbreviation pv :: "heap \<Rightarrow> int \<Rightarrow> int" where "pv h p \<equiv> mprev (ram h p)"
abbreviation us :: "heap \<Rightarrow> int \<Rightarrow> bool" where "us h p \<equiv> mused (ram h p)"

definition heap_ok :: "heap \<Rightarrow> int set \<Rightarrow> bool" where
  "heap_ok h S \<longleftrightarrow> links (nx h) (pv h) S \<and> us h 24000 \<and>
     (\<forall>p\<in>S. us h p \<or> us h (nx h p)) \<and>
     (lfree h = 24000 \<or> lfree h \<in> S \<and> \<not> us h (lfree h)) \<and> (\<forall>p\<in>S. p < lfree h \<longrightarrow> us h p) \<and>
     st_used h = total_used (nx h) (us h) S"

lemma set_simps [simp]:
  "nx (set_next p v h) x = (if x = p then u16i v else nx h x)" "pv (set_next p v h) x = pv h x"
  "us (set_next p v h) x = us h x"
  "nx (set_prev p v h) x = nx h x" "pv (set_prev p v h) x = (if x = p then u16i v else pv h x)"
  "us (set_prev p v h) x = us h x"
  "nx (set_used p b h) x = nx h x" "pv (set_used p b h) x = pv h x"
  "us (set_used p b h) x = (if x = p then b else us h x)"
  "lfree (set_next p v h) = lfree h" "lfree (set_prev p v h) = lfree h" "lfree (set_used p b h) = lfree h"
  "st_used (set_next p v h) = st_used h" "st_used (set_prev p v h) = st_used h"
  "st_used (set_used p b h) = st_used h"
  by (auto simp: set_next_def set_prev_def set_used_def)

lemma stats_simps [simp]:
  "ram (MEM_STATS_INC_USED y h) = ram h" "ram (MEM_STATS_DEC_USED y h) = ram h"
  "lfree (MEM_STATS_INC_USED y h) = lfree h" "lfree (MEM_STATS_DEC_USED y h) = lfree h"
  "st_used (MEM_STATS_INC_USED y h) = u16i (st_used h + y)"
  "st_used (MEM_STATS_DEC_USED y h) = u16i (st_used h - y)"
  by (auto simp: MEM_STATS_INC_USED_def MEM_STATS_DEC_USED_def Let_def)

lemma u16i_id [simp]: "0 \<le> x \<Longrightarrow> x < 65536 \<Longrightarrow> u16i x = x"
  by (simp add: u16i_def)

section \<open>The loops\<close>

definition fits :: "heap \<Rightarrow> int \<Rightarrow> int \<Rightarrow> bool" where
  "fits h sz p \<longleftrightarrow> \<not> us h p \<and> sz \<le> nx h p - p - 8"

lemma fits_code:
  assumes "links (nx h) (pv h) S" and "p \<in> S"
  shows "(nx h p - (p + 8)) mod 2 ^ 32 = nx h p - p - 8"
proof -
  have "(nx h p - (p + 8)) mod 2 ^ 32 = nx h p - (p + 8)"
    using linksD(1,3,4) [OF assms] by (intro mod_pos_pos_trivial) auto
  then show ?thesis by simp
qed

lemma mem_scan_result:
  assumes "links (nx h) (pv h) S" and "0 < sz" and "p = 24000 \<or> p \<in> S"
  shows "(mem_scan h sz p = Some None \<and> (\<forall>q\<in>S. p \<le> q \<longrightarrow> \<not> fits h sz q)) \<or>
    (\<exists>q\<in>S. mem_scan h sz p = Some (Some q) \<and> p \<le> q \<and> fits h sz q \<and>
       (\<forall>x\<in>S. p \<le> x \<longrightarrow> x < q \<longrightarrow> \<not> fits h sz x))"
  using assms(3)
proof (induction "nat (24000 - p)" arbitrary: p rule: less_induct)
  case less
  have small: "x < 24000 - sz" if "x \<in> S" "fits h sz x" for x
    using linksD(4) [OF assms(1) that(1)] that(2) by (simp add: fits_def)
  show ?case
  proof (cases "p < 24000 - sz")
    case False
    then have "mem_scan h sz p = Some None"
      by (subst mem_scan.simps) simp
    with False small show ?thesis by force
  next
    case True
    with less.prems assms(2) have p: "p \<in> S" by auto
    show ?thesis
    proof (cases "fits h sz p")
      case fit: True
      then have "mem_scan h sz p = Some (Some p)"
        using True fits_code [OF assms(1) p] by (subst mem_scan.simps) (simp add: fits_def)
      with fit p show ?thesis by fastforce
    next
      case nofit: False
      then have step: "mem_scan h sz p = mem_scan h sz (nx h p)"
        using True fits_code [OF assms(1) p] by (subst mem_scan.simps) (auto simp: fits_def)
      have range: "p \<le> x \<longleftrightarrow> x = p \<or> nx h p \<le> x" if "x \<in> S" for x
        using linksD(7) [OF assms(1) p that] links_less [OF assms(1) p] by auto
      have "nat (24000 - nx h p) < nat (24000 - p)"
        using links_less [OF assms(1) p] links_end [OF assms(1) p] by simp
      moreover have "nx h p = 24000 \<or> nx h p \<in> S"
        using linksD(5) [OF assms(1) p] by blast
      ultimately have "(mem_scan h sz (nx h p) = Some None \<and> (\<forall>q\<in>S. nx h p \<le> q \<longrightarrow> \<not> fits h sz q)) \<or>
        (\<exists>q\<in>S. mem_scan h sz (nx h p) = Some (Some q) \<and> nx h p \<le> q \<and> fits h sz q \<and>
           (\<forall>x\<in>S. nx h p \<le> x \<longrightarrow> x < q \<longrightarrow> \<not> fits h sz x))"
        by (rule less.hyps)
      then show ?thesis
        unfolding step using nofit range by blast
    qed
  qed
qed

lemma lfree_scan_result:
  assumes "links (nx h) (pv h) S" and "p = 24000 \<or> p \<in> S"
  shows "\<exists>c. lfree_scan h p = Some c \<and> p \<le> c \<and> (c = 24000 \<or> c \<in> S \<and> \<not> us h c) \<and>
    (\<forall>x\<in>S. p \<le> x \<longrightarrow> x < c \<longrightarrow> us h x)"
  using assms(2)
proof (induction "nat (24000 - p)" arbitrary: p rule: less_induct)
  case less
  show ?case
  proof (cases "us h p \<and> p \<noteq> 24000")
    case False
    then have "lfree_scan h p = Some p"
      by (subst lfree_scan.simps) auto
    with False less.prems show ?thesis by auto
  next
    case True
    with less.prems have p: "p \<in> S" by auto
    have step: "lfree_scan h p = lfree_scan h (nx h p)"
      using True by (subst lfree_scan.simps) simp
    have range: "p \<le> x \<longleftrightarrow> x = p \<or> nx h p \<le> x" if "x \<in> S" for x
      using linksD(7) [OF assms(1) p that] links_less [OF assms(1) p] by auto
    have "nat (24000 - nx h p) < nat (24000 - p)"
      using links_less [OF assms(1) p] links_end [OF assms(1) p] by simp
    moreover have "nx h p = 24000 \<or> nx h p \<in> S"
      using linksD(5) [OF assms(1) p] by blast
    ultimately have "\<exists>c. lfree_scan h (nx h p) = Some c \<and> nx h p \<le> c \<and> (c = 24000 \<or> c \<in> S \<and> \<not> us h c) \<and>
      (\<forall>x\<in>S. nx h p \<le> x \<longrightarrow> x < c \<longrightarrow> us h x)"
      by (rule less.hyps)
    then obtain c where "lfree_scan h (nx h p) = Some c" "nx h p \<le> c" "c = 24000 \<or> c \<in> S \<and> \<not> us h c"
      "\<forall>x\<in>S. nx h p \<le> x \<longrightarrow> x < c \<longrightarrow> us h x" by blast
    moreover from this have "p \<le> c"
      using links_less [OF assms(1) p] by simp
    ultimately show ?thesis
      unfolding step using True range by blast
  qed
qed


definition heap_pre :: "heap \<Rightarrow> int set \<Rightarrow> bool" where
  "heap_pre h S \<longleftrightarrow> links (nx h) (pv h) S \<and> us h 24000 \<and>
     (\<forall>p\<in>S. us h p \<or> us h (nx h p)) \<and> (lfree h = 24000 \<or> lfree h \<in> S) \<and>
     (\<forall>p\<in>S. p < lfree h \<longrightarrow> us h p) \<and> st_used h = total_used (nx h) (us h) S"

lemma heap_ok_pre: "heap_ok h S \<longleftrightarrow> heap_pre h S \<and> (lfree h = 24000 \<or> \<not> us h (lfree h))"
  unfolding heap_ok_def heap_pre_def by auto

lemma heap_ok_links: "heap_ok h S \<Longrightarrow> links (nx h) (pv h) S"
  by (simp add: heap_ok_def)

lemma mem_take_near:
  assumes "heap_ok h S" and "p \<in> S" and "\<not> us h p" and "nx h p - p - 8 < sz + 20"
  shows "heap_pre (mem_take sz p h) S" and "lfree (mem_take sz p h) = lfree h"
    and "nx (mem_take sz p h) x = nx h x" and "us (mem_take sz p h) x = (x = p \<or> us h x)"
proof -
  note L = heap_ok_links [OF assms(1)]
  have mt: "mem_take sz p h = MEM_STATS_INC_USED (nx h p - p) (set_used p True h)"
    using assms(4) fits_code [OF L assms(2)] linksD(1,4) [OF L assms(2)] links_end [OF L assms(2)]
    by (simp add: mem_take_def Let_def)
  show "lfree (mem_take sz p h) = lfree h" "nx (mem_take sz p h) x = nx h x"
    "us (mem_take sz p h) x = (x = p \<or> us h x)"
    by (simp_all add: mt)
  have tot: "total_used (nx (mem_take sz p h)) (us (mem_take sz p h)) S = total_used (nx h) (us h) S + (nx h p - p)"
    using assms(2,3) L by (subst total_used_upd [of S p _ "nx h" _ "us h"]) (simp_all add: mt)
  moreover have "0 \<le> total_used (nx h) (us h) S" "total_used (nx (mem_take sz p h)) (us (mem_take sz p h)) S \<le> 24000"
    using total_used_bounds [of "nx (mem_take sz p h)" "pv h" S] total_used_bounds [OF L] L by (simp_all add: mt)
  ultimately have "st_used (mem_take sz p h) = total_used (nx (mem_take sz p h)) (us (mem_take sz p h)) S"
    using assms(1) links_less [OF L assms(2)] by (simp add: mt heap_ok_def)
  moreover have "links (nx (mem_take sz p h)) (pv (mem_take sz p h)) S"
    using L by (simp add: mt)
  ultimately show "heap_pre (mem_take sz p h) S"
    using assms(1) unfolding heap_pre_def heap_ok_def by (auto simp: mt)
qed

lemma mem_take_split:
  assumes "heap_ok h S" and "p \<in> S" and "\<not> us h p" and "sz + 20 \<le> nx h p - p - 8" and "12 \<le> sz" and "4 dvd sz"
  defines "q \<equiv> p + 8 + sz" and "h' \<equiv> mem_take sz p h"
  shows "heap_pre h' (insert q S)" and "lfree h' = lfree h"
    and "nx h' x = (if x = q then nx h p else if x = p then q else nx h x)"
    and "us h' x = (x \<noteq> q \<and> (x = p \<or> us h x))" and "q \<notin> S"
proof -
  note L = heap_ok_links [OF assms(1)]
  have le: "0 \<le> p" "nx h p \<le> 24000" "4 dvd p" "p < q" "q < nx h p" "p + 20 \<le> q" "q + 20 \<le> nx h p"
    using linksD(1-4) [OF L assms(2)] assms(4,5) by (auto simp: q_def)
  have q: "q \<notin> S" "4 dvd q"
    using linksD(7) [OF L assms(2), of q] le assms(6) by (auto simp: q_def)
  have mt: "h' = MEM_STATS_INC_USED (sz + 8)
      (let h = set_used p True (set_next p q (set_prev q p (set_next q (nx h p) (set_used q False h))))
       in if nx h q \<noteq> 24000 then set_prev (nx h q) q h else h)"
    using assms(4) fits_code [OF L assms(2)] le by (simp add: h'_def mem_take_def Let_def q_def)
  have fields: "\<And>x. nx h' x = (if x = q then nx h p else if x = p then q else nx h x)"
    "\<And>x. us h' x = (x \<noteq> q \<and> (x = p \<or> us h x))" "lfree h' = lfree h"
    "\<And>x. x \<noteq> 24000 \<Longrightarrow> pv h' x = (if x = nx h p then q else if x = q then p else pv h x)" "st_used h' = u16i (st_used h + (sz + 8))"
    using le by (auto simp: mt Let_def)
  have ne: "x \<noteq> 24000" if "x \<in> insert q S" for x
    using links_end [OF L, of x] that le by auto
  have links: "links (nx h') (pv h') (insert q S)"
    using links_split [OF L assms(2) le(6,7) q(2)] by (rule links_cong) (use fields ne in auto)
  have "total_used (nx h') (us h') (insert q S) = total_used (nx h') (us h') S"
    using q L le by (intro total_used_insert) (auto simp: fields)
  also have "\<dots> = total_used (nx h) (us h) S + (q - p)"
    using assms(2,3) L q le by (subst total_used_upd [of S p _ "nx h" _ "us h"]) (auto simp: fields)
  finally have tot: "total_used (nx h') (us h') (insert q S) = total_used (nx h) (us h) S + (q - p)" .
  have qp: "q - p = sz + 8" by (simp add: q_def)
  have "st_used h' = total_used (nx h') (us h') (insert q S)"
    using total_used_bounds [OF links, of "us h'"] total_used_bounds [OF L, of "us h"] assms(1,5)
    by (simp add: fields(5) tot heap_ok_def qp)
  moreover have "us h (nx h p)" "us h 24000"
    using assms(1-3) by (auto simp: heap_ok_def)
  moreover have "\<forall>x\<in>S. us h' x \<or> us h' (nx h' x)"
  proof
    fix x assume x: "x \<in> S"
    then have "us h x \<or> us h (nx h x)" "nx h x \<noteq> q"
      using assms(1) ne linksD(5) [OF L x] q(1) le by (auto simp: heap_ok_def)
    then show "us h' x \<or> us h' (nx h' x)"
      using x q(1) le by (auto simp: fields)
  qed
  moreover have "lfree h \<le> p"
    using assms(1-3) by (auto simp: heap_ok_def not_le)
  ultimately show "heap_pre h' (insert q S)"
    unfolding heap_pre_def using links assms(1) q le by (auto simp: fields heap_ok_def)
  show "lfree h' = lfree h" "nx h' x = (if x = q then nx h p else if x = p then q else nx h x)"
    "us h' x = (x \<noteq> q \<and> (x = p \<or> us h x))" "q \<notin> S"
    using le q by (auto simp: fields)
qed


fun block_list :: "nat \<Rightarrow> heap \<Rightarrow> int \<Rightarrow> int list" where
  "block_list fuel h p =
     (if fuel = 0 \<or> p = MEM_SIZE_ALIGNED then [] else p # block_list (fuel - 1) h (nx h p))"

declare block_list.simps [simp del]

definition blocks :: "heap \<Rightarrow> int set" where
  "blocks h = set (block_list 1201 h 0)"

definition heap_wf :: "heap \<Rightarrow> bool" where
  "heap_wf h \<longleftrightarrow> heap_ok h (blocks h)"

definition regions :: "heap \<Rightarrow> int set \<Rightarrow> (int \<times> int) set" where
  "regions h S = (\<lambda>x. (x + 8, nx h x - x - 8)) ` {x \<in> S. us h x}"

definition live :: "heap \<Rightarrow> (int \<times> int) set" where
  "live h = regions h (blocks h)"

definition region :: "int \<times> int \<Rightarrow> int set" where
  "region r = {fst r..<fst r + snd r}"

definition aligned_size :: "int \<Rightarrow> int" where
  "aligned_size n = (if u16i (LWIP_MEM_ALIGN_SIZE n) < 12 then 12 else u16i (LWIP_MEM_ALIGN_SIZE n))"

lemma block_list_links:
  assumes "links (nx h) (pv h) S" and "p = 24000 \<or> p \<in> S" and "24000 - p \<le> 20 * int fuel"
  shows "set (block_list fuel h p) = {x \<in> S. p \<le> x}"
  using assms(2,3)
proof (induction fuel arbitrary: p)
  case 0
  then show ?case
    using links_end [OF assms(1)] by (subst block_list.simps) force
next
  case (Suc f)
  show ?case
  proof (cases "p = 24000")
    case True
    then show ?thesis
      using links_end [OF assms(1)] by (subst block_list.simps) force
  next
    case False
    with Suc.prems have p: "p \<in> S" by simp
    have "set (block_list f h (nx h p)) = {x \<in> S. nx h p \<le> x}"
      using linksD(3,5) [OF assms(1) p] Suc.prems(2) by (intro Suc.IH) auto
    moreover have "{x \<in> S. p \<le> x} = insert p {x \<in> S. nx h p \<le> x}"
      using linksD(7) [OF assms(1) p] links_less [OF assms(1) p] p by fastforce
    ultimately show ?thesis
      using False by (subst block_list.simps) simp
  qed
qed

lemma blocks_links: "links (nx h) (pv h) S \<Longrightarrow> blocks h = S"
  using block_list_links [of h S 0 1201] linksD(1) [of "nx h" "pv h" S] by (auto simp: blocks_def)

lemma heap_wfI: "heap_ok h S \<Longrightarrow> heap_wf h" and heap_ok_blocks: "heap_ok h S \<Longrightarrow> blocks h = S"
  using blocks_links [of h S] by (simp_all add: heap_wf_def heap_ok_def)

lemma live_ok: "heap_ok h S \<Longrightarrow> live h = regions h S"
  by (simp add: live_def heap_ok_blocks)

lemma aligned_size:
  assumes "0 < n" and "n \<le> 65532"
  shows "n \<le> aligned_size n" "12 \<le> aligned_size n" "4 dvd aligned_size n" "aligned_size n < 65536" "aligned_size n < n + 16"
proof -
  have "(n + 3) mod 2 ^ 32 = n + 3"
    using assms by (intro mod_pos_pos_trivial) auto
  moreover have "n \<le> (n + 3) div 4 * 4" "(n + 3) div 4 * 4 \<le> n + 3" by presburger+
  moreover have "(n + 3) div 4 * 4 < 65536" using assms(2) by presburger
  ultimately show "n \<le> aligned_size n" "12 \<le> aligned_size n" "4 dvd aligned_size n" "aligned_size n < 65536" "aligned_size n < n + 16"
    using assms by (auto simp: aligned_size_def LWIP_MEM_ALIGN_SIZE_def)
qed

lemma mem_malloc_unfold:
  "n \<noteq> 0 \<Longrightarrow> mem_malloc n h = (let sz = aligned_size n in
     if sz > 24000 then Some (h, None) else
       case mem_scan h sz (lfree h) of
            None \<Rightarrow> None
          | Some None \<Rightarrow> Some (h\<lparr>st_err := u16i (st_err h + 1)\<rparr>, None)
          | Some (Some ptr) \<Rightarrow>
              (let h = mem_take sz ptr h in
               if ptr = lfree h then
                 case lfree_scan h (lfree h) of
                   None \<Rightarrow> None
                 | Some cur \<Rightarrow> Some (h\<lparr>lfree := cur\<rparr>, Some (ptr + 8))
               else Some (h, Some (ptr + 8))))"
  unfolding mem_malloc_def aligned_size_def Let_def MEM_SIZE_ALIGNED_def SIZEOF_STRUCT_MEM_def MIN_SIZE_ALIGNED_def
  by (simp only: if_False)

lemma regions_insert:
  assumes "p \<in> S'" and "{x \<in> S'. us h' x} = insert p {x \<in> S. us h x}"
    and "\<And>x. x \<in> S \<Longrightarrow> us h x \<Longrightarrow> nx h' x = nx h x"
  shows "regions h' S' = insert (p + 8, nx h' p - p - 8) (regions h S)"
  unfolding regions_def assms(2) using assms(3) by (auto simp: image_iff)

lemma mem_take_ok:
  assumes "heap_ok h S" and "p \<in> S" and "fits h sz p" and "12 \<le> sz" and "4 dvd sz"
  defines "h' \<equiv> mem_take sz p h"
  shows "\<exists>S' m. heap_pre h' S' \<and> lfree h' = lfree h \<and> S \<subseteq> S' \<and>
    (\<forall>x\<in>S. us h' x = (x = p \<or> us h x)) \<and>
    regions h' S' = insert (p + 8, m) (live h) \<and> sz \<le> m \<and> m < sz + 20"
proof (cases "sz + 20 \<le> nx h p - p - 8")
  case True
  have free: "\<not> us h p" using assms(3) by (simp add: fits_def)
  note mt = mem_take_split [OF assms(1,2) free True assms(4,5), folded h'_def]
  have "regions h' (insert (p + 8 + sz) S) = insert (p + 8, nx h' p - p - 8) (regions h S)"
    using mt(3-5) assms(2,4) free by (intro regions_insert) auto
  then show ?thesis
    using mt(1,2,5) assms(2,4) live_ok [OF assms(1)]
    by (intro exI [of _ "insert (p + 8 + sz) S"] exI [of _ sz]) (auto simp: mt(3,4))
next
  case False
  have free: "\<not> us h p" using assms(3) by (simp add: fits_def)
  note mt = mem_take_near [OF assms(1,2) free, of sz, folded h'_def]
  have "regions h' S = insert (p + 8, nx h' p - p - 8) (regions h S)"
    using mt(3,4) assms(2) False by (intro regions_insert) auto
  then show ?thesis
    using mt assms(2,3) False live_ok [OF assms(1)]
    by (intro exI [of _ S] exI [of _ "nx h p - p - 8"]) (auto simp: fits_def)
qed

definition malloc_post :: "int \<Rightarrow> heap \<Rightarrow> int set \<Rightarrow> heap \<Rightarrow> int option \<Rightarrow> bool" where
  "malloc_post sz h S h' r \<longleftrightarrow> heap_wf h' \<and>
    (case r of None \<Rightarrow> live h' = live h \<and> (\<forall>p\<in>S. \<not> fits h sz p)
     | Some p \<Rightarrow> p - 8 \<in> S \<and> fits h sz (p - 8) \<and> (\<forall>x\<in>S. x < p - 8 \<longrightarrow> \<not> fits h sz x) \<and>
         (\<exists>m. sz \<le> m \<and> m < sz + 20 \<and> live h' = insert (p, m) (live h)))"

lemma malloc_found:
  assumes ok: "heap_ok h S" and n: "0 < n" "aligned_size n \<le> 24000"
    and sz: "sz = aligned_size n" "12 \<le> sz" "4 dvd sz"
    and p: "p \<in> S" "mem_scan h sz (lfree h) = Some (Some p)" "fits h sz p" "\<forall>x\<in>S. x < p \<longrightarrow> \<not> fits h sz x"
  shows "\<exists>h' r. mem_malloc n h = Some (h', r) \<and> malloc_post sz h S h' r"
proof -
  define t where "t = mem_take sz p h"
  from mem_take_ok [OF ok p(1,3) sz(2,3), folded t_def] obtain S' m where
    pre: "heap_pre t S'" and lf': "lfree t = lfree h" and sub: "S \<subseteq> S'"
    and us: "\<forall>x\<in>S. us t x = (x = p \<or> us h x)"
    and reg: "regions t S' = insert (p + 8, m) (live h)" and m: "sz \<le> m" "m < sz + 20"
    by blast
  have lf: "lfree h = 24000 \<or> lfree h \<in> S \<and> \<not> us h (lfree h)"
    using ok by (auto simp: heap_ok_def)
  have mm: "mem_malloc n h = (if p = lfree h then
      case lfree_scan t (lfree h) of None \<Rightarrow> None | Some cur \<Rightarrow> Some (t\<lparr>lfree := cur\<rparr>, Some (p + 8))
      else Some (t, Some (p + 8)))"
    using n p(2) lf' by (simp add: mem_malloc_unfold sz(1) [symmetric] t_def [symmetric] Let_def)
  have "\<exists>c. mem_malloc n h = Some (t\<lparr>lfree := c\<rparr>, Some (p + 8)) \<and> heap_ok (t\<lparr>lfree := c\<rparr>) S'"
  proof (cases "p = lfree h")
    case True
    obtain c where c: "lfree_scan t p = Some c" "c = 24000 \<or> c \<in> S' \<and> \<not> us t c"
      "\<forall>x\<in>S'. p \<le> x \<longrightarrow> x < c \<longrightarrow> us t x"
      using lfree_scan_result [of t S' p] pre p(1) sub by (auto simp: heap_pre_def)
    have "mem_malloc n h = Some (t\<lparr>lfree := c\<rparr>, Some (p + 8))"
      using True c(1) by (simp add: mm)
    moreover have "heap_ok (t\<lparr>lfree := c\<rparr>) S'"
      using pre c lf' True unfolding heap_pre_def heap_ok_def by (auto simp: not_le)
    ultimately show ?thesis by blast
  next
    case ne: False
    have "mem_malloc n h = Some (t\<lparr>lfree := lfree h\<rparr>, Some (p + 8))"
      using ne by (simp add: mm flip: lf')
    moreover have "heap_ok (t\<lparr>lfree := lfree h\<rparr>) S'"
      using pre lf lf' us ne unfolding heap_pre_def heap_ok_def by auto
    ultimately show ?thesis by blast
  qed
  then obtain c where c: "mem_malloc n h = Some (t\<lparr>lfree := c\<rparr>, Some (p + 8))" "heap_ok (t\<lparr>lfree := c\<rparr>) S'"
    by blast
  moreover have "live (t\<lparr>lfree := c\<rparr>) = insert (p + 8, m) (live h)"
    using reg live_ok [OF c(2)] by (simp add: regions_def)
  ultimately show ?thesis
    using m p heap_wfI [OF c(2)] by (auto simp: malloc_post_def)
qed

lemma malloc_result:
  assumes "heap_ok h S" and "0 < n" and "n \<le> 65532"
  shows "\<exists>h' r. mem_malloc n h = Some (h', r) \<and> malloc_post (aligned_size n) h S h' r"
proof -
  define sz where "sz = aligned_size n"
  note L = heap_ok_links [OF assms(1)]
  note sz = aligned_size [OF assms(2,3), folded sz_def]
  have nofit: "\<not> fits h sz p" if "p \<in> S" "p < lfree h" for p
    using assms(1) that by (auto simp: heap_ok_def fits_def)
  show ?thesis
  proof (cases "24000 < sz")
    case True
    then have "\<not> fits h sz p" if "p \<in> S" for p
      using linksD(1,4) [OF L that] by (auto simp: fits_def)
    then show ?thesis
      using True assms heap_wfI [OF assms(1)]
      by (simp add: mem_malloc_unfold malloc_post_def sz_def [symmetric])
  next
    case False
    have lf: "lfree h = 24000 \<or> lfree h \<in> S"
      using assms(1) by (auto simp: heap_ok_def)
    from mem_scan_result [OF L _ lf, of sz] sz(2)
    consider "mem_scan h sz (lfree h) = Some None" "\<forall>q\<in>S. lfree h \<le> q \<longrightarrow> \<not> fits h sz q"
      | p where "p \<in> S" "mem_scan h sz (lfree h) = Some (Some p)" "lfree h \<le> p" "fits h sz p"
        "\<forall>x\<in>S. lfree h \<le> x \<longrightarrow> x < p \<longrightarrow> \<not> fits h sz x"
      by force
    then show ?thesis
    proof cases
      case 1
      have ok: "heap_ok (h\<lparr>st_err := u16i (st_err h + 1)\<rparr>) S"
        using assms(1) by (simp add: heap_ok_def)
      moreover have "live (h\<lparr>st_err := u16i (st_err h + 1)\<rparr>) = live h"
        by (simp add: live_ok [OF ok] live_ok [OF assms(1)] regions_def)
      ultimately show ?thesis
        using 1 nofit False assms(2) heap_wfI
        by (force simp: mem_malloc_unfold malloc_post_def sz_def [symmetric] not_le)
    next
      case (2 p)
      have "\<forall>x\<in>S. x < p \<longrightarrow> \<not> fits h sz x"
        using 2(5) nofit by force
      from malloc_found [OF assms(1,2) _ sz_def sz(2,3) 2(1,2,4) this] False show ?thesis
        by (simp add: sz_def)
    qed
  qed
qed


lemma links_pred:
  assumes L: "links n v S" and "p \<in> S" and "p \<noteq> 0"
  obtains x where "x \<in> S" "n x = p" "v p = x"
proof -
  let ?B = "{x \<in> S. x < p}"
  define x where "x = Max ?B"
  have B: "finite ?B" "0 \<in> ?B"
    using L linksD(1) [OF L assms(2)] assms(3) by auto
  then have "x \<in> ?B" unfolding x_def by (intro Max_in) auto
  then have x: "x \<in> S" "x < p" by auto
  have "n x \<le> p" using linksD(7) [OF L x(1) assms(2)] x(2) by auto
  moreover have "\<not> n x < p"
  proof
    assume less: "n x < p"
    then have "n x \<in> ?B"
      using linksD(5) [OF L x(1)] links_end [OF L assms(2)] by auto
    then have "n x \<le> x" unfolding x_def using B(1) by (rule Max_ge [rotated])
    then show False using links_less [OF L x(1)] by simp
  qed
  ultimately have "n x = p" by simp
  then show ?thesis
    using that x(1) linksD(6) [OF L x(1)] links_end [OF L assms(2)] by auto
qed

lemma regions_same:
  assumes "{x \<in> S'. us h' x} = {x \<in> S. us h x}" and "\<And>x. x \<in> S \<Longrightarrow> us h x \<Longrightarrow> nx h' x = nx h x"
  shows "regions h' S' = regions h S"
  unfolding regions_def assms(1) using assms(2) by (auto intro!: image_cong)

text \<open>Joining a free block with the free block that follows it.\<close>

lemma merge_step:
  assumes L: "links (nx h) (pv h) S" and x: "x \<in> S" "nx h x = y" "y \<noteq> 24000" "\<not> us h x" "\<not> us h y"
    and h': "\<And>z. nx h' z = (if z = x then nx h y else nx h z)" "\<And>z. us h' z = us h z"
      "\<And>z. pv h' z = (if z = nx h y then x else pv h z)"
  shows "links (nx h') (pv h') (S - {y})" and "total_used (nx h') (us h') (S - {y}) = total_used (nx h) (us h) S"
    and "regions h' (S - {y}) = regions h S" and "y \<in> S" and "x \<noteq> y"
proof -
  show y: "y \<in> S" "x \<noteq> y"
    using linksD(5) [OF L x(1)] links_less [OF L x(1)] x by auto
  have "links ((nx h)(x := nx h (nx h x))) ((pv h)(nx h (nx h x) := x)) (S - {nx h x})"
    using links_merge [OF L x(1)] x by simp
  then show "links (nx h') (pv h') (S - {y})"
    unfolding x(2) by (rule links_cong) (auto simp: h')
  have "total_used (nx h') (us h') (S - {y}) = total_used (nx h') (us h') S"
    using L x y by (intro total_used_remove) (auto simp: h')
  also have "\<dots> = total_used (nx h) (us h) S"
    using L x by (subst total_used_upd [of S x _ "nx h" _ "us h"]) (auto simp: h')
  finally show "total_used (nx h') (us h') (S - {y}) = total_used (nx h) (us h) S" .
  show "regions h' (S - {y}) = regions h S"
    using x by (intro regions_same) (auto simp: h')
qed

text \<open>The heap between \<open>mem->used = 0\<close> and the end of \<open>plug_holes\<close>: \<open>p\<close> may have free neighbours.\<close>

definition heap_hole :: "heap \<Rightarrow> int set \<Rightarrow> int \<Rightarrow> bool" where
  "heap_hole h S p \<longleftrightarrow> links (nx h) (pv h) S \<and> us h 24000 \<and> p \<in> S \<and> \<not> us h p \<and>
     (\<forall>x\<in>S. x \<noteq> p \<longrightarrow> nx h x \<noteq> p \<longrightarrow> us h x \<or> us h (nx h x)) \<and>
     (lfree h \<in> S \<and> \<not> us h (lfree h)) \<and> (\<forall>x\<in>S. x < lfree h \<longrightarrow> us h x) \<and>
     st_used h = total_used (nx h) (us h) S"

lemma plug_forward_ok:
  assumes "heap_hole h S p"
  defines "h' \<equiv> plug_forward p h"
  shows "\<exists>S'. heap_hole h' S' p \<and> us h' (nx h' p) \<and> regions h' S' = regions h S"
proof (cases "us h (nx h p) \<or> nx h p = 24000")
  case True
  moreover have "h' = h"
    using True by (auto simp: h'_def plug_forward_def)
  ultimately show ?thesis
    using assms by (auto simp: heap_hole_def)
next
  case False
  define y where "y = nx h p"
  have h: "links (nx h) (pv h) S" "p \<in> S" "nx h p = y" "y \<noteq> 24000" "\<not> us h p" "\<not> us h y" "lfree h \<in> S"
    using assms False by (auto simp: heap_hole_def y_def)
  have lf: "lfree h \<le> p"
    using assms(1) h by (auto simp: heap_hole_def not_le)
  have y: "y \<in> S" "p < y" using linksD(5) [OF h(1,2)] links_less [OF h(1,2)] h by auto
  have b: "0 \<le> p" "p < 24000" "0 \<le> nx h y" "nx h y \<le> 24000" "nx h y \<noteq> y"
    using linksD(1,3,4) [OF h(1) y(1)] links_end [OF h(1,2)] linksD(1) [OF h(1,2)] by auto
  have "h' = set_prev (nx h y) p (set_next p (nx h y) h)"
    using h lf y b by (auto simp: h'_def plug_forward_def Let_def)
  then have f: "\<And>z. nx h' z = (if z = p then nx h y else nx h z)" "\<And>z. us h' z = us h z"
      "\<And>z. pv h' z = (if z = nx h y then p else pv h z)" "lfree h' = lfree h" "st_used h' = st_used h"
    using b by auto
  note m = merge_step [OF h(1-6) f(1-3)]
  have "nx h y \<noteq> p" "y \<noteq> p"
    using links_less [OF h(1) y(1)] y(2) by auto
  then have "us h (nx h y)"
    using assms(1) y(1) h(6) unfolding heap_hole_def by blast
  moreover have "nx h z \<noteq> y" if "z \<in> S" "z \<noteq> p" for z
    using links_next_inj [OF h(1) that(1) h(2)] that(2) h(3) by auto
  ultimately have "heap_hole h' (S - {y}) p"
    using assms(1) m h y lf unfolding heap_hole_def by (auto simp: f)
  then show ?thesis
    using m(3) \<open>us h (nx h y)\<close> y by (auto simp: f)
qed

lemma plug_backward_ok:
  assumes "heap_hole h S p" and "us h (nx h p)"
  defines "h' \<equiv> plug_backward p h"
  shows "\<exists>S'. heap_ok h' S' \<and> regions h' S' = regions h S"
proof (cases "pv h p = p \<or> us h (pv h p)")
  case True
  then have "h' = h" by (auto simp: h'_def plug_backward_def)
  moreover have "us h x \<or> us h (nx h x)" if "x \<in> S" for x
  proof (cases "nx h x = p")
    case nx: True
    have "links (nx h) (pv h) S" "p \<in> S" using assms(1) by (auto simp: heap_hole_def)
    then have "pv h p = x" "x \<noteq> p"
      using nx linksD(6) [OF _ that] links_less [OF _ that] links_end by fastforce+
    then show ?thesis using True by auto
  qed (use assms that in \<open>auto simp: heap_hole_def\<close>)
  ultimately show ?thesis
    using assms(1) unfolding heap_hole_def heap_ok_def by blast
next
  case False
  have h: "links (nx h) (pv h) S" "p \<in> S" "\<not> us h p" "lfree h \<in> S"
    using assms by (auto simp: heap_hole_def)
  have "p \<noteq> 0" using False links_v0 [OF h(1)] by auto
  then obtain x where x: "x \<in> S" "nx h x = p" "pv h p = x"
    using links_pred [OF h(1,2)] by auto
  have b: "0 \<le> x" "x < p" "p < 24000" "p < nx h p" "nx h p \<le> 24000" "0 \<le> p"
    using linksD(1) [OF h(1) x(1)] links_less [OF h(1) x(1)] links_end [OF h(1,2)]
      links_less [OF h(1,2)] linksD(1,4) [OF h(1,2)] x by auto
  have lf: "lfree h \<le> x"
    using assms(1) x False by (auto simp: heap_hole_def not_le)
  have "h' = set_prev (nx h p) x (set_next x (nx h p) h)"
    using False x lf b by (auto simp: h'_def plug_backward_def Let_def)
  then have f: "\<And>z. nx h' z = (if z = x then nx h p else nx h z)" "\<And>z. us h' z = us h z"
      "\<And>z. pv h' z = (if z = nx h p then x else pv h z)" "lfree h' = lfree h" "st_used h' = st_used h"
    using b by auto
  have "p \<noteq> 24000" "\<not> us h x" using b False x by auto
  note m = merge_step [OF h(1) x(1,2) this h(3) f(1-3)]
  have "nx h z \<noteq> p" if "z \<in> S" "z \<noteq> x" for z
    using links_next_inj [OF h(1) that(1) x(1)] that(2) x(2) by auto
  then have "heap_ok h' (S - {p})"
    using assms(1,2) m lf b x unfolding heap_hole_def heap_ok_def by (auto simp: f)
  then show ?thesis using m(3) by blast
qed


lemma heap_hole_freed:
  assumes ok: "heap_ok h S" and p: "p \<in> S" "us h p"
  defines "t \<equiv> set_used p False h"
  defines "h1 \<equiv> MEM_STATS_DEC_USED (nx h p - p) (if p < lfree h then t\<lparr>lfree := p\<rparr> else t)"
  shows "heap_hole h1 S p" and "regions h1 S = regions h S - {(p + 8, nx h p - p - 8)}"
proof -
  note L = heap_ok_links [OF ok]
  have f: "\<And>z. nx h1 z = nx h z" "\<And>z. us h1 z = (z \<noteq> p \<and> us h z)" "\<And>z. pv h1 z = pv h z"
    "lfree h1 = min p (lfree h)" "st_used h1 = u16i (st_used h - (nx h p - p))"
    by (auto simp: h1_def t_def)
  have links: "links (nx h1) (pv h1) S" using L by (simp add: f)
  have "total_used (nx h1) (us h1) S = total_used (nx h) (us h) S - (nx h p - p)"
    using L p by (subst total_used_upd [of S p _ "nx h" _ "us h"]) (auto simp: f)
  then have "st_used h1 = total_used (nx h1) (us h1) S"
    using total_used_bounds [OF links, of "us h1"] ok by (simp add: f(5) heap_ok_def)
  moreover have "us h1 24000" using ok links_end [OF L p(1)] by (simp add: f heap_ok_def)
  moreover have "min p (lfree h) \<in> S" "\<not> us h1 (min p (lfree h))"
    using ok p links_end [OF L p(1)] by (auto simp: heap_ok_def f min_def)
  ultimately show "heap_hole h1 S p"
    unfolding heap_hole_def using links p ok by (auto simp: f heap_ok_def)
  show "regions h1 S = regions h S - {(p + 8, nx h p - p - 8)}"
    by (auto simp: regions_def f)
qed

lemma mem_free_ok:
  assumes ok: "heap_ok h S" and p: "p \<in> S" "us h p"
  shows "\<exists>S'. heap_ok (mem_free (Some (p + 8)) h) S' \<and>
    live (mem_free (Some (p + 8)) h) = live h - {(p + 8, nx h p - p - 8)}"
proof -
  note L = heap_ok_links [OF ok]
  have b: "0 \<le> p" "p + 8 < 24000" "p < 65536"
    using linksD(1,3,4) [OF L p(1)] by auto
  define h1 where "h1 = MEM_STATS_DEC_USED (nx h p - p)
    (if p < lfree h then set_used p False h\<lparr>lfree := p\<rparr> else set_used p False h)"
  have free: "mem_free (Some (p + 8)) h = plug_backward p (plug_forward p h1)"
    using b by (simp add: mem_free_def h1_def Let_def plug_holes_def)
  note h1 = heap_hole_freed [OF ok p, folded h1_def]
  obtain S1 where S1: "heap_hole (plug_forward p h1) S1 p" "us (plug_forward p h1) (nx (plug_forward p h1) p)"
    "regions (plug_forward p h1) S1 = regions h1 S"
    using plug_forward_ok [OF h1(1)] by blast
  obtain S2 where "heap_ok (plug_backward p (plug_forward p h1)) S2"
    "regions (plug_backward p (plug_forward p h1)) S2 = regions (plug_forward p h1) S1"
    using plug_backward_ok [OF S1(1,2)] by blast
  then show ?thesis
    using S1(3) h1(2) live_ok [OF ok] by (auto simp: free live_ok)
qed

lemma mem_init_ok:
  assumes "st_used h = 0"
  shows "heap_ok (mem_init h) {0}" and "live (mem_init h) = {}"
proof -
  have f: "nx (mem_init h) 0 = 24000" "pv (mem_init h) 0 = 0" "\<not> us (mem_init h) 0" "us (mem_init h) 24000"
    "lfree (mem_init h) = 0" "st_used (mem_init h) = st_used h"
    by (simp_all add: mem_init_def Let_def)
  show ok: "heap_ok (mem_init h) {0}"
    using assms by (auto simp: heap_ok_def links_def total_used_def f)
  show "live (mem_init h) = {}"
    by (simp add: live_ok [OF ok] regions_def f)
qed


text \<open>The two ways \<open>mem_trim\<close> gives bytes back, as updates of the fields.\<close>

definition trim_write :: "int \<Rightarrow> int \<Rightarrow> int \<Rightarrow> heap \<Rightarrow> heap" where
  "trim_write p q nxt h =
     (let h = set_next p q (set_prev q p (set_next q nxt (set_used q False h)))
      in if nx h q \<noteq> 24000 then set_prev (nx h q) q h else h)"

lemma trim_write_fields:
  assumes "0 \<le> p" "p < q" "q < nxt" "nxt \<le> 24000"
  shows "nx (trim_write p q nxt h) x = (if x = p then q else if x = q then nxt else nx h x)"
    and "us (trim_write p q nxt h) x = (x \<noteq> q \<and> us h x)"
    and "x \<noteq> 24000 \<Longrightarrow> pv (trim_write p q nxt h) x = (if x = nxt then q else if x = q then p else pv h x)"
    and "lfree (trim_write p q nxt h) = lfree h" and "st_used (trim_write p q nxt h) = st_used h"
  using assms by (auto simp: trim_write_def Let_def)

lemma trim_regions:
  assumes "p \<in> S" "us h p" and "S - {y} \<subseteq> S'" "S' \<subseteq> insert q S" "y \<noteq> p" "y \<in> S \<longrightarrow> \<not> us h y"
    and "\<And>x. us h' x = (x \<noteq> q \<and> us h x)" and "q \<notin> S" "\<And>x. x \<in> S \<Longrightarrow> x \<noteq> p \<Longrightarrow> nx h' x = nx h x"
  shows "regions h' S' = insert (p + 8, nx h' p - p - 8) (regions h S - {(p + 8, nx h p - p - 8)})"
proof -
  have e: "{x \<in> S'. us h' x} = insert p ({x \<in> S. us h x} - {p})"
    using assms by auto
  have "(\<lambda>x. (x + 8, nx h' x - x - 8)) ` ({x \<in> S. us h x} - {p}) =
      (\<lambda>x. (x + 8, nx h x - x - 8)) ` ({x \<in> S. us h x} - {p})"
    by (rule image_cong) (auto simp: assms(9))
  then have "regions h' S' = insert (p + 8, nx h' p - p - 8) ((\<lambda>x. (x + 8, nx h x - x - 8)) ` ({x \<in> S. us h x} - {p}))"
    unfolding regions_def e image_insert by simp
  also have "(\<lambda>x. (x + 8, nx h x - x - 8)) ` ({x \<in> S. us h x} - {p}) = regions h S - {(p + 8, nx h p - p - 8)}"
    by (auto simp: regions_def)
  finally show ?thesis .
qed

lemma trim_split_ok:
  assumes ok: "heap_ok h S" and p: "p \<in> S" "us h p" and q: "p + 20 \<le> q" "q + 20 \<le> nx h p" "4 dvd q"
    and nu: "us h (nx h p)"
  defines "h1 \<equiv> (if q < lfree h then h\<lparr>lfree := q\<rparr> else h)"
  defines "h' \<equiv> MEM_STATS_DEC_USED (nx h p - q) (trim_write p q (nx h p) h1)"
  shows "heap_ok h' (insert q S) \<and> regions h' (insert q S) = insert (p + 8, q - p - 8) (regions h S - {(p + 8, nx h p - p - 8)})"
proof -
  note L = heap_ok_links [OF ok]
  have b: "0 \<le> p" "p < q" "q < nx h p" "nx h p \<le> 24000"
    using linksD(1,4) [OF L p(1)] q by auto
  have h1: "nx h1 x = nx h x" "us h1 x = us h x" "pv h1 x = pv h x" "st_used h1 = st_used h" "lfree h1 = (if q < lfree h then q else lfree h)" for x
    by (auto simp: h1_def)
  have f: "\<And>x. nx h' x = (if x = p then q else if x = q then nx h p else nx h x)" "\<And>x. us h' x = (x \<noteq> q \<and> us h x)"
    "\<And>x. x \<noteq> 24000 \<Longrightarrow> pv h' x = (if x = nx h p then q else if x = q then p else pv h x)"
    "lfree h' = (if q < lfree h then q else lfree h)" "st_used h' = u16i (st_used h - (nx h p - q))"
    using trim_write_fields [OF b] by (simp_all add: h'_def h1)
  have qS: "q \<notin> S" using linksD(7) [OF L p(1), of q] b by auto
  have ne: "x \<noteq> 24000" if "x \<in> insert q S" for x
    using links_end [OF L, of x] that b by auto
  have links: "links (nx h') (pv h') (insert q S)"
    using links_split [OF L p(1) q] by (rule links_cong) (use f ne b in auto)
  have "total_used (nx h') (us h') (insert q S) = total_used (nx h') (us h') S"
    using qS L by (intro total_used_insert) (auto simp: f)
  also have "\<dots> = total_used (nx h) (us h) S - (nx h p - q)"
    using p L qS b by (subst total_used_upd [of S p _ "nx h" _ "us h"]) (auto simp: f)
  finally have "st_used h' = total_used (nx h') (us h') (insert q S)"
    using total_used_bounds [OF links, of "us h'"] ok by (simp add: f(5) heap_ok_def)
  moreover have "nx h x \<noteq> q" if "x \<in> S" for x
    using linksD(5) [OF L that] qS b by auto
  moreover have "q \<noteq> 24000" using ne by simp
  ultimately have "heap_ok h' (insert q S)"
    unfolding heap_ok_def using links ok qS nu b p by (auto simp: f heap_ok_def)
  moreover have "regions h' (insert q S) = insert (p + 8, nx h' p - p - 8) (regions h S - {(p + 8, nx h p - p - 8)})"
    using p qS b by (intro trim_regions [of _ _ _ q]) (auto simp: f)
  ultimately show ?thesis by (simp add: f)
qed

lemma trim_move_ok:
  assumes ok: "heap_ok h S" and p: "p \<in> S" "us h p" and q: "p + 20 \<le> q" "q < nx h p" "4 dvd q"
    and nu: "\<not> us h (nx h p)"
  defines "y \<equiv> nx h p"
  defines "h1 \<equiv> (if lfree h = y then h\<lparr>lfree := q\<rparr> else h)"
  defines "h' \<equiv> MEM_STATS_DEC_USED (y - q) (trim_write p q (nx h y) h1)"
  shows "heap_ok h' (insert q (S - {y})) \<and>
    regions h' (insert q (S - {y})) = insert (p + 8, q - p - 8) (regions h S - {(p + 8, nx h p - p - 8)})"
proof -
  note L = heap_ok_links [OF ok]
  have ye: "y \<noteq> 24000"
    using nu ok by (auto simp: heap_ok_def y_def)
  have yS: "y \<in> S"
    using linksD(5) [OF L p(1)] ye by (simp add: y_def)
  have "us h (nx h y)"
    using ok yS nu unfolding heap_ok_def y_def by blast
  then have y: "y \<in> S" "y \<noteq> 24000" "nx h p = y" "us h (nx h y)" "p < y"
    using yS ye links_less [OF L p(1)] by (simp_all add: y_def)
  have nu': "\<not> us h y" using nu by (simp add: y_def)
  have b: "0 \<le> p" "p < q" "q < nx h y" "nx h y \<le> 24000" "q + 20 \<le> nx h y" "q < y"
    using linksD(1) [OF L p(1)] linksD(3,4) [OF L y(1)] q y by auto
  have h1: "nx h1 x = nx h x" "us h1 x = us h x" "pv h1 x = pv h x" "st_used h1 = st_used h"
    "lfree h1 = (if lfree h = y then q else lfree h)" for x
    by (auto simp: h1_def)
  have f: "\<And>x. nx h' x = (if x = p then q else if x = q then nx h y else nx h x)" "\<And>x. us h' x = (x \<noteq> q \<and> us h x)"
    "\<And>x. x \<noteq> 24000 \<Longrightarrow> pv h' x = (if x = nx h y then q else if x = q then p else pv h x)"
    "lfree h' = (if lfree h = y then q else lfree h)" "st_used h' = u16i (st_used h - (y - q))"
    using trim_write_fields [OF b(1-4)] by (simp_all add: h'_def h1)
  have qS: "q \<notin> S" using linksD(7) [OF L p(1), of q] b y by auto
  have ne: "x \<noteq> 24000" if "x \<in> insert q S" for x
    using links_end [OF L, of x] that b by auto
  have m: "links ((nx h)(p := nx h y)) ((pv h)(nx h y := p)) (S - {y})"
    using links_merge [OF L p(1)] y by simp
  have "links (((nx h)(p := nx h y))(p := q, q := nx h y)) (((pv h)(nx h y := p))(q := p, nx h y := q)) (insert q (S - {y}))"
    using links_split [OF m, of p q] p y b q by simp
  then have links: "links (nx h') (pv h') (insert q (S - {y}))"
    by (rule links_cong) (use f ne b in auto)
  have "total_used (nx h') (us h') (insert q (S - {y})) = total_used (nx h') (us h') (S - {y})"
    using qS L by (intro total_used_insert) (auto simp: f)
  also have "\<dots> = total_used (nx h') (us h') S"
    using y(1) L nu' by (intro total_used_remove) (simp_all add: f)
  also have "\<dots> = total_used (nx h) (us h) S - (y - q)"
    using p L qS b y by (subst total_used_upd [of S p _ "nx h" _ "us h"]) (auto simp: f)
  finally have used: "st_used h' = total_used (nx h') (us h') (insert q (S - {y}))"
    using total_used_bounds [OF links, of "us h'"] ok by (simp add: f(5) heap_ok_def)
  have okD: "us h 24000" "\<And>x. x \<in> S \<Longrightarrow> us h x \<or> us h (nx h x)" "lfree h = 24000 \<or> lfree h \<in> S \<and> \<not> us h (lfree h)"
    "\<And>x. x \<in> S \<Longrightarrow> x < lfree h \<Longrightarrow> us h x"
    using ok by (auto simp: heap_ok_def)
  have nq: "nx h x \<noteq> q" if "x \<in> S" for x
    using linksD(5) [OF L that] qS b ne by auto
  have end': "us h' 24000" using okD(1) ne [of q] by (simp add: f)
  have adj: "us h' x \<or> us h' (nx h' x)" if "x \<in> insert q (S - {y})" for x
    using that okD(2) [of x] nq [of x] nq [OF y(1)] y(4) p b(2) qS by (auto simp: f)
  have lf: "lfree h' = 24000 \<or> lfree h' \<in> insert q (S - {y}) \<and> \<not> us h' (lfree h')"
    using okD(3) qS by (auto simp: f)
  have lower: "us h' x" if "x \<in> insert q (S - {y})" "x < lfree h'" for x
  proof -
    have "lfree h \<le> y" using okD(4) [OF y(1)] nu' by linarith
    moreover have "y < 24000" using links_end [OF L y(1)] .
    moreover have "x \<in> S \<Longrightarrow> x \<le> p \<or> y \<le> x" using linksD(7) [OF L p(1), of x] y(3) by auto
    moreover have "lfree h \<in> S \<Longrightarrow> lfree h \<le> p \<or> y \<le> lfree h" using linksD(7) [OF L p(1), of "lfree h"] y(3) by auto
    ultimately show ?thesis
      using that okD(3) okD(4) [of x] y b qS p by (auto simp: f split: if_splits)
  qed
  have "heap_ok h' (insert q (S - {y}))"
    unfolding heap_ok_def using links end' adj lf lower used by blast
  moreover have "regions h' (insert q (S - {y})) = insert (p + 8, nx h' p - p - 8) (regions h S - {(p + 8, nx h p - p - 8)})"
    using p qS b y nu' by (intro trim_regions [of _ _ _ y]) (auto simp: f)
  ultimately show ?thesis by (simp add: f)
qed


definition trim_post :: "int \<Rightarrow> int \<Rightarrow> int \<Rightarrow> heap \<Rightarrow> heap \<Rightarrow> bool" where
  "trim_post rmem old sz h h' \<longleftrightarrow> heap_wf h' \<and>
     (\<exists>m. sz \<le> m \<and> m \<le> old \<and> live h' = insert (rmem, m) (live h - {(rmem, old)}))"

lemma aligned_size_0: "aligned_size 0 = 12"
  by (simp add: aligned_size_def LWIP_MEM_ALIGN_SIZE_def u16i_def)

lemma aligned_size_props:
  assumes "0 \<le> n" and "n \<le> 65532"
  shows "n \<le> aligned_size n" "12 \<le> aligned_size n" "4 dvd aligned_size n" "aligned_size n < 65536"
  using assms aligned_size [of n] by (cases "n = 0"; simp add: aligned_size_0)+

lemma mem_trim_unfold:
  "mem_trim rmem n h = (if aligned_size n > 24000 then (h, None)
     else if rmem < 0 \<or> rmem \<ge> 24000 then (h\<lparr>st_illegal := u16i (st_illegal h + 1)\<rparr>, Some rmem)
     else mem_shrink rmem (aligned_size n) h)"
  unfolding mem_trim_def aligned_size_def Let_def MEM_SIZE_ALIGNED_def MIN_SIZE_ALIGNED_def by (rule refl)

lemma mem_trim_eq:
  fixes sz q :: int
  assumes b: "0 \<le> p" "p + 20 \<le> nx h p" "nx h p \<le> 24000" and sz: "sz = aligned_size n" "12 \<le> sz"
    and q: "q = p + 8 + sz"
  shows "mem_trim (p + 8) n h = (if sz > nx h p - p - 8 then (h, None) else if sz = nx h p - p - 8 then (h, Some (p + 8))
      else if \<not> us h (nx h p) then
        (MEM_STATS_DEC_USED (nx h p - q) (trim_write p q (nx h (nx h p)) (if lfree h = nx h p then h\<lparr>lfree := q\<rparr> else h)), Some (p + 8))
      else if sz + 20 \<le> nx h p - p - 8 then
        (MEM_STATS_DEC_USED (nx h p - q) (trim_write p q (nx h p) (if q < lfree h then h\<lparr>lfree := q\<rparr> else h)), Some (p + 8))
      else (h, Some (p + 8)))"
proof (cases "sz < nx h p - p - 8")
  case False
  then show ?thesis
    using b sz(2) by (simp add: mem_trim_unfold sz(1) [symmetric] mem_shrink_def Let_def)
next
  case True
  define old where "old = nx h p - p - 8"
  have q16: "u16i (p + 8 + sz) = q" "old - sz = nx h p - q" "u16i p = p" "u16i old = old" "nx h p - p - 8 = old"
    using True b sz(2) q by (auto simp: old_def)
  have qp: "q \<noteq> p" using q sz(2) by simp
  have "mem_shrink (p + 8) sz h = (if \<not> us h (nx h p) then
        (MEM_STATS_DEC_USED (nx h p - q) (trim_write p q (nx h (nx h p)) (if lfree h = nx h p then h\<lparr>lfree := q\<rparr> else h)), Some (p + 8))
      else if sz + 20 \<le> old then
        (MEM_STATS_DEC_USED (nx h p - q) (trim_write p q (nx h p) (if q < lfree h then h\<lparr>lfree := q\<rparr> else h)), Some (p + 8))
      else (h, Some (p + 8)))"
  proof (cases "us h (nx h p)")
    case used: True
    then show ?thesis
      using True q16(5) qp unfolding mem_shrink_def trim_write_def
      by (cases "sz + 20 \<le> old"; cases "q < lfree h") (simp_all add: Let_def q16)
  next
    case False
    then show ?thesis
      using True q16(5) qp unfolding mem_shrink_def trim_write_def
      by (cases "lfree h = nx h p") (simp_all add: Let_def q16)
  qed
  moreover have "mem_trim (p + 8) n h = mem_shrink (p + 8) sz h"
    using True b sz(2) by (simp add: mem_trim_unfold sz(1) [symmetric])
  ultimately show ?thesis
    using True unfolding old_def by (simp split del: if_split)
qed

lemma mem_trim_ok:
  assumes ok: "heap_ok h S" and p: "p \<in> S" "us h p" and n: "0 \<le> n" "n \<le> 65532"
  defines "old \<equiv> nx h p - p - 8"
  shows "(aligned_size n > old \<longrightarrow> mem_trim (p + 8) n h = (h, None)) \<and>
    (aligned_size n \<le> old \<longrightarrow> snd (mem_trim (p + 8) n h) = Some (p + 8) \<and>
       trim_post (p + 8) old (aligned_size n) h (fst (mem_trim (p + 8) n h)))"
proof -
  note L = heap_ok_links [OF ok]
  define sz where "sz = aligned_size n"
  define q where "q = p + 8 + sz"
  note sz = aligned_size_props [OF n, folded sz_def]
  have b: "0 \<le> p" "p + 20 \<le> nx h p" "nx h p \<le> 24000" "4 dvd p" "4 dvd q" "p + 20 \<le> q"
    using linksD(1-4) [OF L p(1)] sz by (auto simp: q_def)
  have reg: "(p + 8, old) \<in> regions h S" using p by (auto simp: regions_def old_def)
  have keep: "trim_post (p + 8) old sz h h" if "sz \<le> old"
    using that reg heap_wfI [OF ok] live_ok [OF ok] unfolding trim_post_def
    by (intro conjI exI [of _ old]) (simp_all add: insert_absorb)
  have post: "trim_post (p + 8) old sz h h'"
    if "heap_ok h' S'" "regions h' S' = insert (p + 8, q - p - 8) (regions h S - {(p + 8, nx h p - p - 8)})" "sz \<le> old" for h' S'
    using that heap_wfI live_ok [OF ok] live_ok [OF that(1)] unfolding trim_post_def
    by (intro conjI exI [of _ sz]) (auto simp: q_def old_def)
  note eq = mem_trim_eq [OF b(1-3) sz_def sz(2) q_def, folded old_def]
  consider "old < sz" | "sz = old" | "sz < old" "\<not> us h (nx h p)"
    | "sz + 20 \<le> old" "us h (nx h p)" | "sz < old" "old < sz + 20" "us h (nx h p)" by linarith
  then show ?thesis
  proof cases
    case 3
    then have "q < nx h p" by (simp add: q_def old_def)
    note tm = trim_move_ok [OF ok p b(6) this b(5) 3(2)]
    show ?thesis
      using post [OF tm [THEN conjunct1] tm [THEN conjunct2]] 3
      unfolding sz_def [symmetric] by (simp add: eq split del: if_split)
  next
    case 4
    then have "q + 20 \<le> nx h p" by (simp add: q_def old_def)
    note ts = trim_split_ok [OF ok p b(6) this b(5) 4(2)]
    show ?thesis
      using post [OF ts [THEN conjunct1] ts [THEN conjunct2]] 4
      unfolding sz_def [symmetric] by (simp add: eq split del: if_split)
  qed (use keep in \<open>simp_all add: eq flip: sz_def\<close>)
qed


section \<open>What clients of the heap rely on\<close>

lemma live_in_blocks:
  assumes "heap_ok h S" and "(r, m) \<in> live h"
  shows "r - 8 \<in> S" and "us h (r - 8)" and "m = nx h (r - 8) - r"
  using assms live_ok [OF assms(1)] by (auto simp: regions_def)

lemma live_bounds:
  assumes "heap_wf h" and "(r, m) \<in> live h"
  shows "8 \<le> r" and "r + m \<le> 24000" and "12 \<le> m" and "4 dvd r"
proof -
  note ok = assms(1) [unfolded heap_wf_def]
  note L = heap_ok_links [OF ok] and b = live_in_blocks [OF ok assms(2)]
  show "8 \<le> r" "r + m \<le> 24000" "12 \<le> m"
    using linksD(1,3,4) [OF L b(1)] b(3) by auto
  have "4 dvd (r - 8) + 8"
    by (intro dvd_add linksD(2) [OF L b(1)]) simp
  then show "4 dvd r" by simp
qed

lemma live_disjoint:
  assumes "heap_wf h" and "r1 \<in> live h" and "r2 \<in> live h" and "r1 \<noteq> r2"
  shows "region r1 \<inter> region r2 = {}"
proof -
  note ok = assms(1) [unfolded heap_wf_def]
  note L = heap_ok_links [OF ok]
  obtain p1 m1 p2 m2 where r: "r1 = (p1, m1)" "r2 = (p2, m2)" by (cases r1; cases r2)
  note b1 = live_in_blocks [OF ok assms(2) [unfolded r]] and b2 = live_in_blocks [OF ok assms(3) [unfolded r]]
  have "p1 \<noteq> p2" using assms(4) b1(3) b2(3) r by auto
  then show ?thesis
    using linksD(7) [OF L b1(1) b2(1)] linksD(7) [OF L b2(1) b1(1)] b1(3) b2(3) by (auto simp: region_def r)
qed

lemma live_func: "heap_wf h \<Longrightarrow> (r, m) \<in> live h \<Longrightarrow> (r, m') \<in> live h \<Longrightarrow> m = m'"
  using live_in_blocks(3) unfolding heap_wf_def by blast

lemma mem_malloc_spec:
  assumes "heap_wf h" and "0 < n" and "n \<le> 65532"
  shows "\<exists>h' r. mem_malloc n h = Some (h', r) \<and> heap_wf h' \<and>
    (case r of None \<Rightarrow> live h' = live h
     | Some p \<Rightarrow> \<exists>m\<ge>n. live h' = insert (p, m) (live h) \<and> p \<notin> fst ` live h)"
proof -
  note ok = assms(1) [unfolded heap_wf_def]
  obtain h' r where r: "mem_malloc n h = Some (h', r)" "malloc_post (aligned_size n) h (blocks h) h' r"
    using malloc_result [OF ok assms(2,3)] by blast
  have "p \<notin> fst ` live h" if "\<not> us h (p - 8)" for p
    using that live_in_blocks(2) [OF ok] by fastforce
  moreover have "n \<le> aligned_size n" using assms aligned_size by blast
  ultimately show ?thesis
    using r unfolding malloc_post_def fits_def
    by (cases r) (auto intro: order_trans)
qed

lemma mem_free_spec:
  assumes "heap_wf h" and "(r, m) \<in> live h"
  shows "heap_wf (mem_free (Some r) h)" and "live (mem_free (Some r) h) = live h - {(r, m)}"
proof -
  note ok = assms(1) [unfolded heap_wf_def]
  note b = live_in_blocks [OF ok assms(2)]
  from mem_free_ok [OF ok b(1,2)] b(3) show "heap_wf (mem_free (Some r) h)" "live (mem_free (Some r) h) = live h - {(r, m)}"
    using heap_wfI by auto
qed

lemma mem_trim_spec:
  assumes "heap_wf h" and "(r, m) \<in> live h" and "0 \<le> n" and "n \<le> 65532"
  shows "heap_wf (fst (mem_trim r n h)) \<and>
    (if aligned_size n > m then mem_trim r n h = (h, None)
     else snd (mem_trim r n h) = Some r \<and>
       (\<exists>k. n \<le> k \<and> k \<le> m \<and> live (fst (mem_trim r n h)) = insert (r, k) (live h - {(r, m)})))"
proof -
  note ok = assms(1) [unfolded heap_wf_def]
  note b = live_in_blocks [OF ok assms(2)]
  have "n \<le> aligned_size n" using aligned_size_props [OF assms(3,4)] by simp
  moreover have m: "nx h (r - 8) - (r - 8) - 8 = m" using b(3) by simp
  ultimately show ?thesis
    using mem_trim_ok [OF ok b(1,2) assms(3,4)] assms(1) unfolding m trim_post_def
    by (cases "aligned_size n > m") (auto intro: order_trans)
qed

locale heap_allocator =
  fixes wf :: "'s \<Rightarrow> bool" and owned :: "'s \<Rightarrow> (int \<times> int) set"
    and alloc :: "int \<Rightarrow> 's \<Rightarrow> ('s \<times> int option) option" and release :: "int option \<Rightarrow> 's \<Rightarrow> 's"
  assumes alloc_spec: "wf s \<Longrightarrow> 0 < n \<Longrightarrow> n \<le> 65532 \<Longrightarrow> \<exists>s' r. alloc n s = Some (s', r) \<and> wf s' \<and>
      (case r of None \<Rightarrow> owned s' = owned s
       | Some p \<Rightarrow> \<exists>m\<ge>n. owned s' = insert (p, m) (owned s) \<and> p \<notin> fst ` owned s)"
    and release_wf: "wf s \<Longrightarrow> (p, m) \<in> owned s \<Longrightarrow> wf (release (Some p) s)"
    and release_owned: "wf s \<Longrightarrow> (p, m) \<in> owned s \<Longrightarrow> owned (release (Some p) s) = owned s - {(p, m)}"
    and owned_disjoint: "wf s \<Longrightarrow> r1 \<in> owned s \<Longrightarrow> r2 \<in> owned s \<Longrightarrow> r1 \<noteq> r2 \<Longrightarrow> region r1 \<inter> region r2 = {}"
begin

lemma alloc_fresh:
  assumes "wf s" and "0 < n" and "n \<le> 65532" and "alloc n s = Some (s', Some p)"
  shows "\<exists>m\<ge>n. owned s' = insert (p, m) (owned s) \<and> (\<forall>r\<in>owned s. region (p, m) \<inter> region r = {})"
proof -
  from alloc_spec [OF assms(1-3)] assms(4) obtain m where
    m: "wf s'" "m \<ge> n" "owned s' = insert (p, m) (owned s)" "p \<notin> fst ` owned s" by auto
  have "region (p, m) \<inter> region r = {}" if "r \<in> owned s" for r
  proof (rule owned_disjoint [OF m(1)])
    show "(p, m) \<noteq> r" using that m(4) by force
  qed (use that m(3) in auto)
  with m show ?thesis by blast
qed

lemma alloc_release:
  assumes "wf s" and "0 < n" and "n \<le> 65532" and "alloc n s = Some (s', Some p)"
  shows "wf (release (Some p) s') \<and> owned (release (Some p) s') = owned s"
proof -
  from alloc_spec [OF assms(1-3)] assms(4) obtain m where
    m: "wf s'" "owned s' = insert (p, m) (owned s)" "p \<notin> fst ` owned s" by auto
  then have "(p, m) \<in> owned s'" "(p, m) \<notin> owned s" by force+
  with release_wf [OF m(1), of p m] release_owned [OF m(1), of p m] m(2) show ?thesis by simp
qed

end

interpretation ram_heap: heap_allocator heap_wf live mem_malloc mem_free
proof
  show "heap_wf s \<Longrightarrow> 0 < n \<Longrightarrow> n \<le> 65532 \<Longrightarrow> \<exists>s' r. mem_malloc n s = Some (s', r) \<and> heap_wf s' \<and>
      (case r of None \<Rightarrow> live s' = live s
       | Some p \<Rightarrow> \<exists>m\<ge>n. live s' = insert (p, m) (live s) \<and> p \<notin> fst ` live s)" for s n
    by (rule mem_malloc_spec)
qed (fact mem_free_spec live_disjoint)+

inductive heap_reach :: "heap \<Rightarrow> bool" where
  init: "st_used h = 0 \<Longrightarrow> heap_reach (mem_init h)"
| malloc: "heap_reach h \<Longrightarrow> 0 \<le> n \<Longrightarrow> n \<le> 65535 \<Longrightarrow> mem_malloc n h = Some (h', r) \<Longrightarrow> heap_reach h'"
| free: "heap_reach h \<Longrightarrow> (r, m) \<in> live h \<Longrightarrow> heap_reach (mem_free (Some r) h)"
| free_null: "heap_reach h \<Longrightarrow> heap_reach (mem_free None h)"
| free_outside: "heap_reach h \<Longrightarrow> r < 0 \<or> 24000 \<le> r \<Longrightarrow> heap_reach (mem_free (Some r) h)"
| trim: "heap_reach h \<Longrightarrow> (r, m) \<in> live h \<Longrightarrow> 0 \<le> n \<Longrightarrow> n \<le> 65532 \<Longrightarrow> heap_reach (fst (mem_trim r n h))"

lemma malloc_wrap:
  assumes "65533 \<le> n" and "n \<le> 65535"
  shows "mem_malloc n h = mem_malloc 12 h"
proof -
  have "(n + 3) div 4 * 4 = 65536" using assms by presburger
  moreover have "(n + 3) mod 2 ^ 32 = n + 3" using assms by (intro mod_pos_pos_trivial) auto
  ultimately have "LWIP_MEM_ALIGN_SIZE n = 65536"
    by (simp add: LWIP_MEM_ALIGN_SIZE_def)
  then have "aligned_size n = 12" by (simp add: aligned_size_def u16i_def)
  moreover have "aligned_size 12 = 12" by (simp add: aligned_size_def LWIP_MEM_ALIGN_SIZE_def u16i_def)
  ultimately show ?thesis using assms by (simp add: mem_malloc_unfold)
qed

lemma heap_reach_wf: "heap_reach h \<Longrightarrow> heap_wf h"
proof (induction rule: heap_reach.induct)
  case (init h)
  then show ?case using mem_init_ok heap_wfI by blast
next
  case (malloc h n h' r)
  consider "n = 0" | "0 < n" "n \<le> 65532" | "65533 \<le> n" using malloc by linarith
  then show ?case
  proof cases
    case 1
    then show ?thesis using malloc by (simp add: mem_malloc_def)
  next
    case 2
    then show ?thesis using mem_malloc_spec [OF malloc.IH 2] malloc.hyps by auto
  next
    case 3
    then show ?thesis using mem_malloc_spec [OF malloc.IH, of 12] malloc.hyps malloc_wrap [of n h] by auto
  qed
next
  case (free_outside h r)
  then have "mem_free (Some r) h = h\<lparr>st_illegal := u16i (st_illegal h + 1)\<rparr>"
    by (auto simp: mem_free_def)
  moreover have "heap_ok (h\<lparr>st_illegal := u16i (st_illegal h + 1)\<rparr>) (blocks h)"
    using free_outside by (simp add: heap_wf_def heap_ok_def)
  ultimately show ?case using heap_wfI by simp
qed (use mem_free_spec mem_trim_spec in \<open>auto simp: mem_free_def\<close>)

lemma used_live:
  assumes "heap_wf h"
  shows "st_used h = (\<Sum>r\<in>live h. snd r + 8)"
proof -
  note ok = assms [unfolded heap_wf_def]
  note L = heap_ok_links [OF ok]
  let ?f = "\<lambda>x. (x + 8, nx h x - x - 8)"
  have "(\<Sum>r\<in>live h. snd r + 8) = (\<Sum>x\<in>{x \<in> blocks h. us h x}. snd (?f x) + 8)"
    unfolding live_def regions_def by (rule sum.reindex_cong [of ?f]) (auto simp: inj_on_def)
  also have "\<dots> = total_used (nx h) (us h) (blocks h)"
    using L by (simp add: total_used_def sum.inter_filter)
  finally show ?thesis using ok by (simp add: heap_ok_def)
qed


lemma mem_calloc_spec:
  assumes "heap_wf h" and "0 < count" and "0 < sz" and "count * sz \<le> 65532"
  shows "\<exists>h' r z. mem_calloc count sz h = Some (h', r, z) \<and> heap_wf h' \<and>
    (case r of None \<Rightarrow> live h' = live h
     | Some p \<Rightarrow> z = count * sz \<and> (\<exists>m\<ge>z. live h' = insert (p, m) (live h)))"
proof -
  have n: "0 < count * sz" using assms by simp
  then have u: "u16i (count * sz) = count * sz" using assms(4) by simp
  from mem_malloc_spec [OF assms(1) n assms(4)] obtain h' r where
    "mem_malloc (count * sz) h = Some (h', r)" "heap_wf h'"
    "case r of None \<Rightarrow> live h' = live h
     | Some p \<Rightarrow> \<exists>m\<ge>count * sz. live h' = insert (p, m) (live h) \<and> p \<notin> fst ` live h" by blast
  then show ?thesis
    by (cases r) (auto simp: mem_calloc_def u)
qed

definition zero_heap :: heap where
  "zero_heap = \<lparr>ram = (\<lambda>_. \<lparr>mnext = 0, mprev = 0, mused = False\<rparr>), lfree = 0, st_err = 0, st_avail = 0,
     st_used = 0, st_max = 0, st_illegal = 0\<rparr>"

lemma zero_heap_init: "heap_reach (mem_init zero_heap)" "heap_wf (mem_init zero_heap)"
  "live (mem_init zero_heap) = {}"
proof -
  have z: "st_used zero_heap = 0" by (simp add: zero_heap_def)
  then show "heap_reach (mem_init zero_heap)" by (rule heap_reach.init)
  then show "heap_wf (mem_init zero_heap)" by (rule heap_reach_wf)
  show "live (mem_init zero_heap) = {}" using mem_init_ok(2) [OF z] .
qed

section \<open>Properties\<close>

text \<open>
  C1. In every state the heap can reach from \<open>mem_init\<close> through calls of \<open>mem_malloc\<close> with any
  size, \<open>mem_free\<close> and \<open>mem_trim\<close> of blocks that are in use, and \<open>mem_free\<close> of \<open>NULL\<close> or of a pointer outside
  the heap, the list of blocks is well formed, blocks in use do not overlap, lie inside the heap,
  are 4-byte aligned and at least 12 bytes long, and the \<open>used\<close> statistic is their total size with headers.
\<close>
theorem heap_reachable_safe:
  assumes "heap_reach h"
  shows "heap_wf h \<and>
    (\<forall>r1\<in>live h. \<forall>r2\<in>live h. r1 \<noteq> r2 \<longrightarrow> region r1 \<inter> region r2 = {}) \<and>
    (\<forall>r\<in>live h. 8 \<le> fst r \<and> fst r + snd r \<le> 24000 \<and> 12 \<le> snd r \<and> 4 dvd fst r) \<and>
    st_used h = (\<Sum>r\<in>live h. snd r + 8)"
proof -
  note wf = heap_reach_wf [OF assms]
  show ?thesis
    using wf live_disjoint [OF wf] live_bounds [OF wf] used_live [OF wf] by auto
qed

theorem heap_reachable_safe_witness:
  "heap_wf (mem_init zero_heap) \<and> st_used (mem_init zero_heap) = 0"
  using heap_reachable_safe [OF zero_heap_init(1)] zero_heap_init(3) by simp

text \<open>
  C6. \<open>mem_malloc\<close> of 1 to 65532 bytes returns.  It takes the lowest free block that is large
  enough, and the bytes it hands out, at least as many as requested, belong to no block in use;
  it returns \<open>NULL\<close> only when no free block is large enough.
\<close>
theorem mem_malloc_first_fit:
  assumes "heap_wf h" and "0 < n" and "n \<le> 65532"
  shows "\<exists>h' r. mem_malloc n h = Some (h', r) \<and> heap_wf h' \<and>
    (case r of None \<Rightarrow> live h' = live h \<and> (\<forall>p\<in>blocks h. \<not> fits h (aligned_size n) p)
     | Some p \<Rightarrow> p - 8 \<in> blocks h \<and> fits h (aligned_size n) (p - 8) \<and>
         (\<forall>x\<in>blocks h. x < p - 8 \<longrightarrow> \<not> fits h (aligned_size n) x) \<and>
         (\<exists>m\<ge>n. live h' = insert (p, m) (live h) \<and> (\<forall>r\<in>live h. region (p, m) \<inter> region r = {})))"
proof -
  obtain h' r where r: "mem_malloc n h = Some (h', r)" "malloc_post (aligned_size n) h (blocks h) h' r"
    using malloc_result [OF assms(1) [unfolded heap_wf_def] assms(2,3)] by blast
  show ?thesis
  proof (cases r)
    case None
    with r show ?thesis by (auto simp: malloc_post_def)
  next
    case (Some p)
    with r show ?thesis
      using ram_heap.alloc_fresh [OF assms, of h' p] by (auto simp: malloc_post_def)
  qed
qed

theorem mem_malloc_first_fit_witness:
  "\<exists>h' r. mem_malloc 100 (mem_init zero_heap) = Some (h', r) \<and> heap_wf h'"
  using mem_malloc_first_fit [OF zero_heap_init(2), of 100] by auto

text \<open>
  Allocating and then freeing leaves the heap well formed with exactly the blocks that were in
  use before.
\<close>
theorem mem_malloc_free_round_trip:
  assumes "heap_wf h" and "0 < n" and "n \<le> 65532" and "mem_malloc n h = Some (h', Some p)"
  shows "heap_wf (mem_free (Some p) h') \<and> live (mem_free (Some p) h') = live h"
  using assms by (rule ram_heap.alloc_release)

theorem mem_malloc_free_round_trip_witness:
  "\<exists>h' p. mem_malloc 12 (mem_init zero_heap) = Some (h', Some p) \<and>
     heap_wf (mem_free (Some p) h') \<and> live (mem_free (Some p) h') = {}"
proof -
  have "mem_scan (mem_init zero_heap) 12 0 = Some (Some 0)"
    by (subst mem_scan.simps) (simp add: mem_init_def Let_def)
  then have "\<exists>h' p. mem_malloc 12 (mem_init zero_heap) = Some (h', Some p)"
    using malloc_result [OF zero_heap_init(2) [unfolded heap_wf_def], of 12]
    by (auto simp: mem_malloc_unfold aligned_size_def LWIP_MEM_ALIGN_SIZE_def Let_def mem_init_def split: option.splits)
  then show ?thesis
    using mem_malloc_free_round_trip [OF zero_heap_init(2), of 12] zero_heap_init(3) by auto
qed

text \<open>
  C11. Freeing a block in use releases that block and no other and keeps the heap well formed, free
  neighbours joined.
\<close>
theorem mem_free_releases:
  assumes "heap_wf h" and "(r, m) \<in> live h"
  shows "heap_wf (mem_free (Some r) h) \<and> live (mem_free (Some r) h) = live h - {(r, m)}"
  using mem_free_spec [OF assms] by simp


definition one_block :: heap where
  "one_block = mem_take 100 0 (mem_init zero_heap)\<lparr>lfree := 108\<rparr>"

lemma one_block_live: "heap_wf one_block" "(8, 100) \<in> live one_block"
proof -
  have f: "nx one_block 0 = 108" "nx one_block 108 = 24000" "us one_block 0" "\<not> us one_block 108"
    "us one_block 24000" "pv one_block 0 = 0" "pv one_block 108 = 0" "lfree one_block = 108" "st_used one_block = 108"
    by (simp_all add: one_block_def mem_take_def mem_init_def zero_heap_def Let_def)
  have ok: "heap_ok one_block {0, 108}"
    using f by (auto simp: heap_ok_def links_def total_used_def)
  then show "heap_wf one_block" "(8, 100) \<in> live one_block"
    using f by (auto simp: heap_wfI live_ok [OF ok] regions_def)
qed

theorem mem_free_releases_witness:
  "heap_wf (mem_free (Some 8) one_block) \<and> live (mem_free (Some 8) one_block) = live one_block - {(8, 100)}"
  using mem_free_releases [OF one_block_live] by simp


text \<open>
  C17. A request of 65533 to 65535 bytes is not refused: rounding the size up to the alignment wraps
  the 16-bit size to 0, and the request is served like one for 12 bytes.
\<close>
theorem mem_malloc_size_wraps:
  assumes "65533 \<le> n" and "n \<le> 65535"
  shows "mem_malloc n h = mem_malloc 12 h"
  using assms by (rule malloc_wrap)

theorem mem_malloc_size_wraps_witness:
  "mem_malloc 65535 (mem_init zero_heap) = mem_malloc 12 (mem_init zero_heap)"
  using mem_malloc_size_wraps [of 65535] by simp

text \<open>
  \<open>mem_calloc\<close> clears only bytes of the block it allocated, as long as the product of its
  arguments does not exceed 65532.
\<close>
theorem mem_calloc_in_bounds:
  assumes "heap_wf h" and "0 < count" and "0 < sz" and "count * sz \<le> 65532"
  shows "\<exists>h' r z. mem_calloc count sz h = Some (h', r, z) \<and> heap_wf h' \<and>
    (case r of None \<Rightarrow> live h' = live h
     | Some p \<Rightarrow> z = count * sz \<and> (\<exists>m\<ge>z. live h' = insert (p, m) (live h)))"
  using assms by (rule mem_calloc_spec)

theorem mem_calloc_in_bounds_witness:
  "\<exists>h' r z. mem_calloc 4 10 (mem_init zero_heap) = Some (h', r, z) \<and> heap_wf h'"
  using mem_calloc_in_bounds [OF zero_heap_init(2), of 4 10] by auto

end
