(* ===== verification/Pbuf.thy ===== *)
theory Pbuf
  imports Mem Memp "HOL-Library.Monad_Syntax"
begin

text \<open>
  The packet buffers of \<open>core/pbuf.c\<close> and \<open>lwip/pbuf.h\<close>.

  The state holds the headers (\<open>struct pbuf\<close>) by address, the payload bytes by address, the heap
  for \<open>PBUF_RAM\<close> (which starts at address \<open>ps_ram\<close>) and the two pools \<open>MEMP_PBUF_POOL\<close> and \<open>MEMP_PBUF\<close>.
  A header stays in the store when it is freed, as it does in memory; \<open>ps_live\<close> says which
  headers are allocated, and following a pointer to one that is not is an error.
  Functions give \<open>None\<close> when the code would follow a null or dangling pointer, or would not return.  The
  function that frees a custom pbuf is the argument \<open>cfree\<close>.
\<close>

section \<open>Headers and state\<close>

datatype pbuf_layer = PBUF_TRANSPORT | PBUF_IP | PBUF_LINK | PBUF_RAW_TX | PBUF_RAW

datatype pbuf_type = PBUF_RAM | PBUF_ROM | PBUF_REF | PBUF_POOL

definition PBUF_FLAG_PUSH :: u8 where "PBUF_FLAG_PUSH = 0x01"
definition PBUF_FLAG_IS_CUSTOM :: u8 where "PBUF_FLAG_IS_CUSTOM = 0x02"
definition PBUF_FLAG_MCASTLOOP :: u8 where "PBUF_FLAG_MCASTLOOP = 0x04"
definition PBUF_FLAG_LLBCAST :: u8 where "PBUF_FLAG_LLBCAST = 0x08"
definition PBUF_FLAG_LLMCAST :: u8 where "PBUF_FLAG_LLMCAST = 0x10"
definition PBUF_FLAG_TCP_FIN :: u8 where "PBUF_FLAG_TCP_FIN = 0x20"

record pbuf =
  pb_next :: "nat option"
  pb_payload :: nat
  pb_tot_len :: nat
  pb_len :: nat
  pb_type :: pbuf_type
  pb_flags :: u8
  pb_ref :: nat
  pb_timestamp :: u32

record pstate =
  ps_buf :: "nat \<Rightarrow> pbuf"
  ps_live :: "nat \<Rightarrow> bool"
  ps_bytes :: "nat \<Rightarrow> u8"
  ps_heap :: heap
  ps_ram :: nat
  ps_pool :: memp_desc
  ps_refs :: memp_desc
  pbuf_free_ooseq_pending :: bool

type_synonym custom_free = "nat \<Rightarrow> pstate \<Rightarrow> pstate option"

definition SIZEOF_STRUCT_PBUF :: nat where [simp]: "SIZEOF_STRUCT_PBUF = 20"
definition PBUF_POOL_BUFSIZE_ALIGNED :: nat where [simp]: "PBUF_POOL_BUFSIZE_ALIGNED = 1516"
definition PBUF_LINK_ENCAPSULATION_HLEN :: nat where [simp]: "PBUF_LINK_ENCAPSULATION_HLEN = 0"
definition PBUF_LINK_HLEN :: nat where [simp]: "PBUF_LINK_HLEN = 16"
definition PBUF_IP_HLEN :: nat where [simp]: "PBUF_IP_HLEN = 20"
definition PBUF_TRANSPORT_HLEN :: nat where [simp]: "PBUF_TRANSPORT_HLEN = 20"

definition deref :: "pstate \<Rightarrow> nat \<Rightarrow> pbuf option" where
  "deref st a = (if ps_live st a then Some (ps_buf st a) else None)"

definition upd :: "nat \<Rightarrow> (pbuf \<Rightarrow> pbuf) \<Rightarrow> pstate \<Rightarrow> pstate" where
  "upd a f st = st\<lparr>ps_buf := (ps_buf st)(a := f (ps_buf st a))\<rparr>"

definition rd :: "(nat \<Rightarrow> u8) \<Rightarrow> nat \<Rightarrow> nat \<Rightarrow> u8 list" where
  "rd m a n = map m [a..<a + n]"

definition wr :: "nat \<Rightarrow> u8 list \<Rightarrow> (nat \<Rightarrow> u8) \<Rightarrow> nat \<Rightarrow> u8" where
  "wr a bs m = (\<lambda>x. if a \<le> x \<and> x < a + length bs then bs ! (x - a) else m x)"

definition memcpy :: "nat \<Rightarrow> u8 list \<Rightarrow> pstate \<Rightarrow> pstate" where
  "memcpy a bs st = st\<lparr>ps_bytes := wr a bs (ps_bytes st)\<rparr>"

section \<open>Freeing\<close>

definition pbuf_pool_is_empty :: "pstate \<Rightarrow> pstate" where
  "pbuf_pool_is_empty st = st\<lparr>pbuf_free_ooseq_pending := True\<rparr>"

definition pbuf_release :: "nat \<Rightarrow> pbuf_type \<Rightarrow> pstate \<Rightarrow> pstate" where
  "pbuf_release p type st =
     (let st = st\<lparr>ps_live := (ps_live st)(p := False)\<rparr> in
      if type = PBUF_POOL then st\<lparr>ps_pool := do_memp_free_pool (ps_pool st) p\<rparr>
      else if type = PBUF_ROM \<or> type = PBUF_REF then st\<lparr>ps_refs := do_memp_free_pool (ps_refs st) p\<rparr>
      else st\<lparr>ps_heap := mem_free (Some (int p - int (ps_ram st))) (ps_heap st)\<rparr>)"

partial_function (option) free_loop ::
    "custom_free \<Rightarrow> nat \<Rightarrow> nat option \<Rightarrow> pstate \<Rightarrow> (pstate \<times> nat) option" where
  "free_loop cfree count p st =
     (case p of
        None \<Rightarrow> Some (st, count)
      | Some a \<Rightarrow> do {
          b \<leftarrow> deref st a;
          let ref = sub_u16 (pb_ref b) 1;
          let st = upd a (\<lambda>b. b\<lparr>pb_ref := ref\<rparr>) st;
          if ref = 0 then do {
            st \<leftarrow> (if pb_flags b AND PBUF_FLAG_IS_CUSTOM \<noteq> 0 then cfree a st
                   else Some (pbuf_release a (pb_type b) st));
            free_loop cfree (to_u8 (count + 1)) (pb_next b) st
          } else Some (st, count)
        })"

definition pbuf_free :: "custom_free \<Rightarrow> nat option \<Rightarrow> pstate \<Rightarrow> (pstate \<times> nat) option" where
  "pbuf_free cfree p st = (if p = None then Some (st, 0) else free_loop cfree 0 p st)"

section \<open>Allocating\<close>

fun layer_offset :: "pbuf_layer \<Rightarrow> nat" where
  "layer_offset PBUF_TRANSPORT =
     PBUF_LINK_ENCAPSULATION_HLEN + PBUF_LINK_HLEN + PBUF_IP_HLEN + PBUF_TRANSPORT_HLEN"
| "layer_offset PBUF_IP = PBUF_LINK_ENCAPSULATION_HLEN + PBUF_LINK_HLEN + PBUF_IP_HLEN"
| "layer_offset PBUF_LINK = PBUF_LINK_ENCAPSULATION_HLEN + PBUF_LINK_HLEN"
| "layer_offset PBUF_RAW_TX = PBUF_LINK_ENCAPSULATION_HLEN"
| "layer_offset PBUF_RAW = 0"

definition align_size :: "nat \<Rightarrow> nat" where
  "align_size n = nat (LWIP_MEM_ALIGN_SIZE (int n))"

partial_function (option) alloc_tail ::
    "custom_free \<Rightarrow> nat \<Rightarrow> nat \<Rightarrow> nat \<Rightarrow> pstate \<Rightarrow> (pstate \<times> bool) option" where
  "alloc_tail cfree p r rem_len st =
     (if rem_len > 0 then
        case do_memp_malloc_pool (ps_pool st) of
          (pool, None) \<Rightarrow> do {
            let st = pbuf_pool_is_empty (st\<lparr>ps_pool := pool\<rparr>);
            (st, _) \<leftarrow> pbuf_free cfree (Some p) st;
            Some (st, False)
          }
        | (pool, Some q) \<Rightarrow>
            let st = st\<lparr>ps_pool := pool, ps_live := (ps_live st)(q := True)\<rparr>;
                st = upd q (\<lambda>b. b\<lparr>pb_type := PBUF_POOL, pb_flags := 0, pb_next := None\<rparr>) st;
                st = upd r (\<lambda>b. b\<lparr>pb_next := Some q\<rparr>) st;
                len = min (to_u16 rem_len) PBUF_POOL_BUFSIZE_ALIGNED;
                st = upd q (\<lambda>b. b\<lparr>pb_tot_len := to_u16 rem_len, pb_len := len,
                       pb_payload := q + SIZEOF_STRUCT_PBUF, pb_ref := 1\<rparr>) st
            in alloc_tail cfree p q (rem_len - len) st
      else Some (st, True))"

definition alloc_pool :: "custom_free \<Rightarrow> nat \<Rightarrow> nat \<Rightarrow> pstate \<Rightarrow> (pstate \<times> nat option) option" where
  "alloc_pool cfree offset plen st =
     (case do_memp_malloc_pool (ps_pool st) of
        (pool, None) \<Rightarrow> Some (pbuf_pool_is_empty (st\<lparr>ps_pool := pool\<rparr>), None)
      | (pool, Some p) \<Rightarrow> do {
          let st = st\<lparr>ps_pool := pool, ps_live := (ps_live st)(p := True)\<rparr>;
          let len = min plen (PBUF_POOL_BUFSIZE_ALIGNED - align_size offset);
          let st = upd p (\<lambda>b. b\<lparr>pb_type := PBUF_POOL, pb_next := None,
                    pb_payload := LWIP_MEM_ALIGN (p + (SIZEOF_STRUCT_PBUF + offset)),
                    pb_tot_len := plen, pb_len := len, pb_ref := 1\<rparr>) st;
          (st, ok) \<leftarrow> alloc_tail cfree p p (plen - len) st;
          Some (if ok then (upd p (\<lambda>b. b\<lparr>pb_ref := 1, pb_flags := 0\<rparr>) st, Some p) else (st, None))
        })"

definition alloc_ram :: "nat \<Rightarrow> nat \<Rightarrow> pstate \<Rightarrow> (pstate \<times> nat option) option" where
  "alloc_ram offset plen st =
     (let alloc_len = to_u16 (align_size (SIZEOF_STRUCT_PBUF + offset) + align_size plen) in
      if alloc_len < align_size plen then Some (st, None)
      else do {
        (h, r) \<leftarrow> mem_malloc (int alloc_len) (ps_heap st);
        let st = st\<lparr>ps_heap := h\<rparr>;
        case r of
          None \<Rightarrow> Some (st, None)
        | Some x \<Rightarrow>
            let p = nat (int (ps_ram st) + x);
                st = st\<lparr>ps_live := (ps_live st)(p := True)\<rparr>;
                st = upd p (\<lambda>b. b\<lparr>pb_payload := LWIP_MEM_ALIGN (p + SIZEOF_STRUCT_PBUF + offset),
                       pb_len := plen, pb_tot_len := plen, pb_next := None, pb_type := PBUF_RAM\<rparr>) st
            in Some (upd p (\<lambda>b. b\<lparr>pb_ref := 1, pb_flags := 0\<rparr>) st, Some p)
      })"

definition alloc_ref :: "pbuf_type \<Rightarrow> nat \<Rightarrow> pstate \<Rightarrow> (pstate \<times> nat option) option" where
  "alloc_ref type plen st =
     (case do_memp_malloc_pool (ps_refs st) of
        (pool, None) \<Rightarrow> Some (st\<lparr>ps_refs := pool\<rparr>, None)
      | (pool, Some p) \<Rightarrow>
          let st = st\<lparr>ps_refs := pool, ps_live := (ps_live st)(p := True)\<rparr>;
              st = upd p (\<lambda>b. b\<lparr>pb_payload := 0, pb_len := plen, pb_tot_len := plen,
                     pb_next := None, pb_type := type\<rparr>) st
          in Some (upd p (\<lambda>b. b\<lparr>pb_ref := 1, pb_flags := 0\<rparr>) st, Some p))"

definition pbuf_alloc ::
    "custom_free \<Rightarrow> pbuf_layer \<Rightarrow> nat \<Rightarrow> pbuf_type \<Rightarrow> pstate \<Rightarrow> (pstate \<times> nat option) option" where
  "pbuf_alloc cfree layer plen type st =
     (let offset = layer_offset layer in
      case type of
        PBUF_POOL \<Rightarrow> alloc_pool cfree offset plen st
      | PBUF_RAM \<Rightarrow> alloc_ram offset plen st
      | _ \<Rightarrow> alloc_ref type plen st)"

text \<open>The custom header \<open>p\<close> is the caller's; \<open>payload_mem\<close> may be null.\<close>

definition pbuf_alloced_custom ::
    "pbuf_layer \<Rightarrow> nat \<Rightarrow> pbuf_type \<Rightarrow> nat \<Rightarrow> nat option \<Rightarrow> nat \<Rightarrow> pstate \<Rightarrow> pstate \<times> nat option" where
  "pbuf_alloced_custom l plen type p payload_mem payload_mem_len st =
     (let offset = layer_offset l in
      if align_size offset + plen > payload_mem_len then (st, None)
      else
        (upd p (\<lambda>b. b\<lparr>pb_next := None,
           pb_payload := (case payload_mem of Some m \<Rightarrow> m + align_size offset | None \<Rightarrow> 0),
           pb_flags := PBUF_FLAG_IS_CUSTOM, pb_len := plen, pb_tot_len := plen, pb_type := type, pb_ref := 1\<rparr>) st,
         Some p))"

section \<open>Resizing\<close>

partial_function (option) realloc_skip ::
    "nat \<Rightarrow> nat \<Rightarrow> nat option \<Rightarrow> pstate \<Rightarrow> (pstate \<times> nat \<times> nat) option" where
  "realloc_skip rem_len grow q st =
     (case q of
        None \<Rightarrow> None
      | Some a \<Rightarrow> do {
          b \<leftarrow> deref st a;
          if rem_len > pb_len b
          then realloc_skip (sub_u16 rem_len (pb_len b)) grow (pb_next b)
                 (upd a (\<lambda>b. b\<lparr>pb_tot_len := to_u16 (pb_tot_len b + grow)\<rparr>) st)
          else Some (st, a, rem_len)
        })"

definition realloc_trim :: "nat \<Rightarrow> nat \<Rightarrow> pstate \<Rightarrow> (pstate \<times> nat) option" where
  "realloc_trim q rem_len st = do {
     b \<leftarrow> deref st q;
     if pb_type b = PBUF_RAM \<and> rem_len \<noteq> pb_len b \<and> pb_flags b AND PBUF_FLAG_IS_CUSTOM = 0 then
       case mem_trim (int q - int (ps_ram st)) (int (to_u16 (to_u16 (pb_payload b - q) + rem_len))) (ps_heap st) of
         (h, None) \<Rightarrow> None
       | (h, Some x) \<Rightarrow> Some (st\<lparr>ps_heap := h\<rparr>, nat (int (ps_ram st) + x))
     else Some (st, q)
   }"

definition pbuf_realloc :: "custom_free \<Rightarrow> nat \<Rightarrow> nat \<Rightarrow> pstate \<Rightarrow> pstate option" where
  "pbuf_realloc cfree p new_len st = do {
     b \<leftarrow> deref st p;
     if new_len \<ge> pb_tot_len b then Some st
     else do {
       let grow = sub_u16 new_len (pb_tot_len b);
       (st, q, rem_len) \<leftarrow> realloc_skip new_len grow (Some p) st;
       (st, q) \<leftarrow> realloc_trim q rem_len st;
       let st = upd q (\<lambda>b. b\<lparr>pb_len := rem_len, pb_tot_len := rem_len\<rparr>) st;
       b \<leftarrow> deref st q;
       (st, _) \<leftarrow> (if pb_next b \<noteq> None then pbuf_free cfree (pb_next b) st else Some (st, 0));
       Some (upd q (\<lambda>b. b\<lparr>pb_next := None\<rparr>) st)
     }
   }"

text \<open>\<open>header_size_increment\<close> is an \<open>s16_t\<close>; the result is \<open>True\<close> on failure.\<close>

definition pbuf_header_impl :: "nat option \<Rightarrow> int \<Rightarrow> bool \<Rightarrow> pstate \<Rightarrow> (pstate \<times> bool) option" where
  "pbuf_header_impl p header_size_increment force st =
     (case p of
        None \<Rightarrow> Some (st, False)
      | Some a \<Rightarrow>
          if header_size_increment = 0 then Some (st, False)
          else do {
            b \<leftarrow> deref st a;
            let increment_magnitude = nat \<bar>header_size_increment\<bar>;
            if header_size_increment < 0 \<and> increment_magnitude > pb_len b then Some (st, True)
            else
              let payload = int (pb_payload b) - header_size_increment;
                  lens = (\<lambda>b. b\<lparr>pb_payload := nat payload,
                     pb_len := nat ((int (pb_len b) + header_size_increment) mod 2 ^ 16),
                     pb_tot_len := nat ((int (pb_tot_len b) + header_size_increment) mod 2 ^ 16)\<rparr>)
              in
              if pb_type b = PBUF_RAM \<or> pb_type b = PBUF_POOL then
                if payload < int (a + SIZEOF_STRUCT_PBUF) then Some (st, True)
                else Some (upd a lens st, False)
              else if header_size_increment < 0 \<and> increment_magnitude \<le> pb_len b then Some (upd a lens st, False)
              else if header_size_increment > 0 \<and> force then Some (upd a lens st, False)
              else Some (st, True)
          })"

definition pbuf_header :: "nat option \<Rightarrow> int \<Rightarrow> pstate \<Rightarrow> (pstate \<times> bool) option" where
  "pbuf_header p header_size_increment st = pbuf_header_impl p header_size_increment False st"

definition pbuf_header_force :: "nat option \<Rightarrow> int \<Rightarrow> pstate \<Rightarrow> (pstate \<times> bool) option" where
  "pbuf_header_force p header_size_increment st = pbuf_header_impl p header_size_increment True st"

section \<open>Chaining\<close>

partial_function (option) clen_loop :: "pstate \<Rightarrow> nat \<Rightarrow> nat option \<Rightarrow> nat option" where
  "clen_loop st len p =
     (case p of None \<Rightarrow> Some len | Some a \<Rightarrow> do { b \<leftarrow> deref st a; clen_loop st (to_u16 (len + 1)) (pb_next b) })"

definition pbuf_clen :: "nat option \<Rightarrow> pstate \<Rightarrow> nat option" where
  "pbuf_clen p st = clen_loop st 0 p"

definition pbuf_ref :: "nat option \<Rightarrow> pstate \<Rightarrow> pstate option" where
  "pbuf_ref p st =
     (case p of None \<Rightarrow> Some st
      | Some a \<Rightarrow> do { b \<leftarrow> deref st a; Some (upd a (\<lambda>b. b\<lparr>pb_ref := to_u16 (pb_ref b + 1)\<rparr>) st) })"

partial_function (option) cat_loop :: "nat \<Rightarrow> nat \<Rightarrow> pstate \<Rightarrow> (pstate \<times> nat) option" where
  "cat_loop p t st = do {
     b \<leftarrow> deref st p;
     case pb_next b of
       None \<Rightarrow> Some (st, p)
     | Some q \<Rightarrow> do {
         tb \<leftarrow> deref st t;
         cat_loop q t (upd p (\<lambda>b. b\<lparr>pb_tot_len := to_u16 (pb_tot_len b + pb_tot_len tb)\<rparr>) st)
       }
   }"

definition pbuf_cat :: "nat option \<Rightarrow> nat option \<Rightarrow> pstate \<Rightarrow> pstate option" where
  "pbuf_cat h t st =
     (case (h, t) of
        (Some h, Some t) \<Rightarrow> do {
          (st, p) \<leftarrow> cat_loop h t st;
          tb \<leftarrow> deref st t;
          let st = upd p (\<lambda>b. b\<lparr>pb_tot_len := to_u16 (pb_tot_len b + pb_tot_len tb)\<rparr>) st;
          Some (upd p (\<lambda>b. b\<lparr>pb_next := Some t\<rparr>) st)
        }
      | _ \<Rightarrow> Some st)"

definition pbuf_chain :: "nat option \<Rightarrow> nat option \<Rightarrow> pstate \<Rightarrow> pstate option" where
  "pbuf_chain h t st = do { st \<leftarrow> pbuf_cat h t st; pbuf_ref t st }"

definition pbuf_dechain :: "custom_free \<Rightarrow> nat \<Rightarrow> pstate \<Rightarrow> (pstate \<times> nat option) option" where
  "pbuf_dechain cfree p st = do {
     b \<leftarrow> deref st p;
     (case pb_next b of
        None \<Rightarrow> Some (st, None)
      | Some q \<Rightarrow> do {
          _ \<leftarrow> deref st q;
          let st = upd q (\<lambda>qb. qb\<lparr>pb_tot_len := sub_u16 (pb_tot_len b) (pb_len b)\<rparr>) st;
          let st = upd p (\<lambda>b. b\<lparr>pb_next := None\<rparr>) st;
          let st = upd p (\<lambda>b. b\<lparr>pb_tot_len := pb_len b\<rparr>) st;
          (st, tail_gone) \<leftarrow> pbuf_free cfree (Some q) st;
          Some (st, if tail_gone > 0 then None else Some q)
        })
   }"

section \<open>Copying\<close>

definition copy_len :: "pbuf \<Rightarrow> nat \<Rightarrow> pbuf \<Rightarrow> nat \<Rightarrow> nat" where
  "copy_len tb offset_to fb offset_from =
     (if int (pb_len tb) - int offset_to \<ge> int (pb_len fb) - int offset_from
      then sub_u16 (pb_len fb) offset_from else sub_u16 (pb_len tb) offset_to)"

definition on_to_next :: "bool \<Rightarrow> pbuf \<Rightarrow> nat \<Rightarrow> nat \<Rightarrow> nat option \<times> nat" where
  "on_to_next done b p offset = (if done then (pb_next b, 0) else (Some p, offset))"

definition is_queue :: "pstate \<Rightarrow> nat option \<Rightarrow> bool option" where
  "is_queue st p =
     (case p of None \<Rightarrow> Some False
      | Some a \<Rightarrow> do { b \<leftarrow> deref st a; Some (pb_len b = pb_tot_len b \<and> pb_next b \<noteq> None) })"

partial_function (option) copy_loop ::
    "nat \<Rightarrow> nat \<Rightarrow> nat \<Rightarrow> nat \<Rightarrow> pstate \<Rightarrow> (pstate \<times> err_t) option" where
  "copy_loop p_to offset_to p_from offset_from st = do {
     tb \<leftarrow> deref st p_to;
     fb \<leftarrow> deref st p_from;
     let len = copy_len tb offset_to fb offset_from;
     let st = memcpy (pb_payload tb + offset_to) (rd (ps_bytes st) (pb_payload fb + offset_from) len) st;
     let offset_to = to_u16 (offset_to + len);
     let offset_from = to_u16 (offset_from + len);
     let (p_from, offset_from) = on_to_next (offset_from \<ge> pb_len fb) fb p_from offset_from;
     let (p_to, offset_to) = on_to_next (offset_to = pb_len tb) tb p_to offset_to;
     if p_to = None \<and> p_from \<noteq> None then Some (st, ERR_ARG)
     else do {
       from_queue \<leftarrow> is_queue st p_from;
       if from_queue then Some (st, ERR_VAL)
       else do {
         to_queue \<leftarrow> is_queue st p_to;
         if to_queue then Some (st, ERR_VAL)
         else case (p_to, p_from) of
             (Some t, Some f) \<Rightarrow> copy_loop t offset_to f offset_from st
           | _ \<Rightarrow> Some (st, ERR_OK)
       }
     }
   }"

definition pbuf_copy :: "nat option \<Rightarrow> nat option \<Rightarrow> pstate \<Rightarrow> (pstate \<times> err_t) option" where
  "pbuf_copy p_to p_from st =
     (case (p_to, p_from) of
        (Some t, Some f) \<Rightarrow> do {
          tb \<leftarrow> deref st t;
          fb \<leftarrow> deref st f;
          if pb_tot_len tb \<ge> pb_tot_len fb then copy_loop t 0 f 0 st else Some (st, ERR_ARG)
        }
      | _ \<Rightarrow> Some (st, ERR_ARG))"

text \<open>The buffer that \<open>pbuf_copy_partial\<close> fills is the list of the bytes written to it so far.\<close>

partial_function (option) copy_partial_loop ::
    "pstate \<Rightarrow> nat option \<Rightarrow> nat \<Rightarrow> nat \<Rightarrow> u8 list \<Rightarrow> nat \<Rightarrow> (u8 list \<times> nat) option" where
  "copy_partial_loop st p len offset dataptr copied_total =
     (case p of
        None \<Rightarrow> Some (dataptr, copied_total)
      | Some a \<Rightarrow>
          if len = 0 then Some (dataptr, copied_total)
          else do {
            b \<leftarrow> deref st a;
            if offset \<noteq> 0 \<and> offset \<ge> pb_len b
            then copy_partial_loop st (pb_next b) len (sub_u16 offset (pb_len b)) dataptr copied_total
            else
              let buf_copy_len = sub_u16 (pb_len b) offset;
                  buf_copy_len = (if buf_copy_len > len then len else buf_copy_len)
              in copy_partial_loop st (pb_next b) (sub_u16 len buf_copy_len) 0
                   (dataptr @ rd (ps_bytes st) (pb_payload b + offset) buf_copy_len)
                   (to_u16 (copied_total + buf_copy_len))
          })"

definition pbuf_copy_partial :: "nat option \<Rightarrow> nat \<Rightarrow> nat \<Rightarrow> pstate \<Rightarrow> (u8 list \<times> nat) option" where
  "pbuf_copy_partial buf len offset st =
     (if buf = None then Some ([], 0) else copy_partial_loop st buf len offset [] 0)"

partial_function (option) skip_loop :: "pstate \<Rightarrow> nat option \<Rightarrow> nat \<Rightarrow> (nat option \<times> nat) option" where
  "skip_loop st q offset_left =
     (case q of
        None \<Rightarrow> Some (None, offset_left)
      | Some a \<Rightarrow> do {
          b \<leftarrow> deref st a;
          if pb_len b \<le> offset_left then skip_loop st (pb_next b) (sub_u16 offset_left (pb_len b))
          else Some (Some a, offset_left)
        })"

definition pbuf_skip :: "nat option \<Rightarrow> nat \<Rightarrow> pstate \<Rightarrow> (nat option \<times> nat) option" where
  "pbuf_skip inp in_offset st = skip_loop st inp in_offset"

partial_function (option) take_loop ::
    "nat option \<Rightarrow> u8 list \<Rightarrow> nat \<Rightarrow> nat \<Rightarrow> pstate \<Rightarrow> pstate option" where
  "take_loop p dataptr total_copy_len copied_total st =
     (if total_copy_len = 0 then Some st
      else case p of
        None \<Rightarrow> None
      | Some a \<Rightarrow> do {
          b \<leftarrow> deref st a;
          let buf_copy_len = (if total_copy_len > pb_len b then pb_len b else total_copy_len);
          let st = memcpy (pb_payload b) (take buf_copy_len (drop copied_total dataptr)) st;
          take_loop (pb_next b) dataptr (sub_u16 total_copy_len buf_copy_len)
            (to_u16 (copied_total + buf_copy_len)) st
        })"

definition pbuf_take :: "nat option \<Rightarrow> u8 list option \<Rightarrow> nat \<Rightarrow> pstate \<Rightarrow> (pstate \<times> err_t) option" where
  "pbuf_take buf dataptr len st =
     (case (buf, dataptr) of
        (Some a, Some d) \<Rightarrow> do {
          b \<leftarrow> deref st a;
          if pb_tot_len b < len then Some (st, ERR_MEM)
          else do { st \<leftarrow> take_loop buf d len 0 st; Some (st, ERR_OK) }
        }
      | _ \<Rightarrow> Some (st, ERR_ARG))"

definition pbuf_take_at :: "nat option \<Rightarrow> u8 list \<Rightarrow> nat \<Rightarrow> nat \<Rightarrow> pstate \<Rightarrow> (pstate \<times> err_t) option" where
  "pbuf_take_at buf dataptr len offset st = do {
     (q, target_offset) \<leftarrow> pbuf_skip buf offset st;
     case q of
       None \<Rightarrow> Some (st, ERR_MEM)
     | Some a \<Rightarrow> do {
         b \<leftarrow> deref st a;
         if pb_tot_len b \<ge> target_offset + len then
           let first_copy_len = min (pb_len b - target_offset) len;
               st = memcpy (pb_payload b + target_offset) (take first_copy_len dataptr) st;
               remaining_len = sub_u16 len first_copy_len
           in if remaining_len > 0
              then pbuf_take (pb_next b) (Some (drop first_copy_len dataptr)) remaining_len st
              else Some (st, ERR_OK)
         else Some (st, ERR_MEM)
       }
   }"

definition pbuf_coalesce :: "custom_free \<Rightarrow> nat \<Rightarrow> pbuf_layer \<Rightarrow> pstate \<Rightarrow> (pstate \<times> nat) option" where
  "pbuf_coalesce cfree p layer st = do {
     b \<leftarrow> deref st p;
     if pb_next b = None then Some (st, p)
     else do {
       (st, q) \<leftarrow> pbuf_alloc cfree layer (pb_tot_len b) PBUF_RAM st;
       case q of
         None \<Rightarrow> Some (st, p)
       | Some q \<Rightarrow> do {
           (st, err) \<leftarrow> pbuf_copy (Some q) (Some p) st;
           (st, _) \<leftarrow> pbuf_free cfree (Some p) st;
           Some (st, q)
         }
     }
   }"

section \<open>Bytes at an offset\<close>

definition pbuf_try_get_at :: "nat option \<Rightarrow> nat \<Rightarrow> pstate \<Rightarrow> u8 option option" where
  "pbuf_try_get_at p offset st = do {
     (q, q_idx) \<leftarrow> pbuf_skip p offset st;
     case q of
       None \<Rightarrow> Some None
     | Some a \<Rightarrow> do {
         b \<leftarrow> deref st a;
         Some (if pb_len b > q_idx then Some (ps_bytes st (pb_payload b + q_idx)) else None)
       }
   }"

definition pbuf_get_at :: "nat option \<Rightarrow> nat \<Rightarrow> pstate \<Rightarrow> u8 option" where
  "pbuf_get_at p offset st = do {
     ret \<leftarrow> pbuf_try_get_at p offset st;
     Some (case ret of Some v \<Rightarrow> v | None \<Rightarrow> 0)
   }"

definition pbuf_put_at :: "nat option \<Rightarrow> nat \<Rightarrow> u8 \<Rightarrow> pstate \<Rightarrow> pstate option" where
  "pbuf_put_at p offset data st = do {
     (q, q_idx) \<leftarrow> pbuf_skip p offset st;
     case q of
       None \<Rightarrow> Some st
     | Some a \<Rightarrow> do {
         b \<leftarrow> deref st a;
         Some (if pb_len b > q_idx then memcpy (pb_payload b + q_idx) [data] st else st)
       }
   }"

partial_function (option) memcmp_loop ::
    "pstate \<Rightarrow> nat option \<Rightarrow> nat \<Rightarrow> u8 list \<Rightarrow> nat \<Rightarrow> nat \<Rightarrow> nat option" where
  "memcmp_loop st q start s2 n i =
     (if i < n then do {
        a \<leftarrow> pbuf_get_at q (to_u16 (start + i)) st;
        if a \<noteq> s2 ! i then Some (to_u16 (i + 1))
        else memcmp_loop st q start s2 n (to_u16 (i + 1))
      } else Some 0)"

definition pbuf_memcmp :: "nat \<Rightarrow> nat \<Rightarrow> u8 list \<Rightarrow> nat \<Rightarrow> pstate \<Rightarrow> nat option" where
  "pbuf_memcmp p offset s2 n st = do {
     b \<leftarrow> deref st p;
     if pb_tot_len b < offset + n then Some 0xffff
     else do {
       (q, start) \<leftarrow> skip_loop st (Some p) offset;
       memcmp_loop st q start s2 n 0
     }
   }"

partial_function (option) memfind_loop ::
    "pstate \<Rightarrow> nat \<Rightarrow> u8 list \<Rightarrow> nat \<Rightarrow> nat \<Rightarrow> nat \<Rightarrow> nat option" where
  "memfind_loop st p mem mem_len max_i i =
     (if i \<le> max_i then do {
        plus \<leftarrow> pbuf_memcmp p i mem mem_len st;
        if plus = 0 then Some i
        else memfind_loop st p mem mem_len max_i (to_u16 (i + 1))
      } else Some 0xffff)"

definition pbuf_memfind :: "nat \<Rightarrow> u8 list \<Rightarrow> nat \<Rightarrow> nat \<Rightarrow> pstate \<Rightarrow> nat option" where
  "pbuf_memfind p mem mem_len start_offset st = do {
     b \<leftarrow> deref st p;
     let max_i = sub_u16 (pb_tot_len b) mem_len;
     if pb_tot_len b \<ge> mem_len + start_offset then memfind_loop st p mem mem_len max_i start_offset
     else Some 0xffff
   }"

definition pbuf_strstr :: "nat \<Rightarrow> u8 list option \<Rightarrow> pstate \<Rightarrow> nat option" where
  "pbuf_strstr p substr st =
     (case substr of
        None \<Rightarrow> Some 0xffff
      | Some s \<Rightarrow>
          if s = [] then Some 0xffff
          else do {
            b \<leftarrow> deref st p;
            if pb_tot_len b = 0xffff then Some 0xffff
            else if length s \<ge> 0xffff then Some 0xffff
            else pbuf_memfind p s (to_u16 (length s)) 0 st
          })"

section \<open>Chains\<close>

fun chain :: "pstate \<Rightarrow> nat option \<Rightarrow> nat list \<Rightarrow> bool" where
  "chain st p [] = (p = None)"
| "chain st p (a # as) = (p = Some a \<and> ps_live st a \<and> chain st (pb_next (ps_buf st a)) as)"

abbreviation blen :: "pstate \<Rightarrow> nat \<Rightarrow> nat" where
  "blen st a \<equiv> pb_len (ps_buf st a)"

definition total_len :: "pstate \<Rightarrow> nat list \<Rightarrow> nat" where
  "total_len st as = sum_list (map (blen st) as)"

definition addrs :: "pstate \<Rightarrow> nat list \<Rightarrow> nat list" where
  "addrs st as = concat (map (\<lambda>a. [pb_payload (ps_buf st a)..<pb_payload (ps_buf st a) + blen st a]) as)"

definition payload_data :: "pstate \<Rightarrow> nat list \<Rightarrow> u8 list" where
  "payload_data st as = map (ps_bytes st) (addrs st as)"

fun tot_ok :: "pstate \<Rightarrow> nat list \<Rightarrow> bool" where
  "tot_ok st [] = True"
| "tot_ok st (a # as) = (pb_tot_len (ps_buf st a) = total_len st (a # as) \<and> tot_ok st as)"

text \<open>A packet: a chain whose total lengths are right and fit 16 bits.\<close>

definition packet :: "pstate \<Rightarrow> nat option \<Rightarrow> nat list \<Rightarrow> bool" where
  "packet st p as \<longleftrightarrow> chain st p as \<and> tot_ok st as \<and> total_len st as < 65536"

lemma total_len_simps [simp]: "total_len st [] = 0" "total_len st (a # as) = blen st a + total_len st as"
  "total_len st (as @ bs) = total_len st as + total_len st bs"
  by (simp_all add: total_len_def)

lemma addrs_simps [simp]: "addrs st [] = []"
  "addrs st (a # as) = [pb_payload (ps_buf st a)..<pb_payload (ps_buf st a) + blen st a] @ addrs st as"
  "addrs st (as @ bs) = addrs st as @ addrs st bs"
  by (simp_all add: addrs_def)

lemma packet_head: "packet st (Some p) as \<Longrightarrow> ps_live st p \<and> pb_tot_len (ps_buf st p) = total_len st as"
  by (cases as) (auto simp: packet_def)

lemma length_addrs [simp]: "length (addrs st as) = total_len st as"
  by (induction as) simp_all

lemma length_data [simp]: "length (payload_data st as) = total_len st as"
  by (simp add: payload_data_def)

lemma data_simps [simp]: "payload_data st [] = []"
  "payload_data st (a # as) = rd (ps_bytes st) (pb_payload (ps_buf st a)) (blen st a) @ payload_data st as"
  "payload_data st (as @ bs) = payload_data st as @ payload_data st bs"
  by (simp_all add: payload_data_def rd_def)

lemma length_rd [simp]: "length (rd m a n) = n"
  by (simp add: rd_def)

lemma rd_part: "k + n \<le> l \<Longrightarrow> take n (drop k (rd m a l)) = rd m (a + k) n"
  by (simp add: rd_def drop_map take_map)

lemma rd_nth: "i < n \<Longrightarrow> rd m a n ! i = m (a + i)"
  by (simp add: rd_def)

lemma deref_live [simp]: "ps_live st a \<Longrightarrow> deref st a = Some (ps_buf st a)"
  by (simp add: deref_def)

lemma chain_det: "chain st p as \<Longrightarrow> chain st p bs \<Longrightarrow> as = bs"
proof (induction as arbitrary: p bs)
  case Nil
  then show ?case by (cases bs) auto
next
  case (Cons a as)
  then show ?case by (cases bs) auto
qed

lemma chain_suffix: "chain st p (xs @ a # ys) \<Longrightarrow> chain st (Some a) (a # ys)"
  by (induction xs arbitrary: p) auto

lemma chain_distinct: "chain st p as \<Longrightarrow> distinct as"
proof (rule ccontr)
  assume c: "chain st p as" and "\<not> distinct as"
  then obtain xs ys zs a where as: "as = xs @ [a] @ ys @ [a] @ zs" using not_distinct_decomp by blast
  have "chain st (Some a) (a # ys @ [a] @ zs)" using c as chain_suffix [of st p xs a] by simp
  moreover have "chain st (Some a) (a # zs)" using c as chain_suffix [of st p "xs @ a # ys" a zs] by simp
  ultimately have "a # ys @ [a] @ zs = a # zs" by (rule chain_det)
  then show False by simp
qed

lemma chain_live: "chain st p as \<Longrightarrow> a \<in> set as \<Longrightarrow> ps_live st a"
  by (induction as arbitrary: p) auto

text \<open>A chain depends only on the headers in it.\<close>

lemma chain_cong:
  assumes "\<And>a. a \<in> set as \<Longrightarrow> ps_live st' a = ps_live st a \<and> pb_next (ps_buf st' a) = pb_next (ps_buf st a)"
  shows "chain st' p as = chain st p as"
  using assms by (induction as arbitrary: p) auto

lemma total_len_cong: "(\<And>a. a \<in> set as \<Longrightarrow> blen st' a = blen st a) \<Longrightarrow> total_len st' as = total_len st as"
  unfolding total_len_def by (metis map_cong)

lemma addrs_cong:
  assumes "\<And>a. a \<in> set as \<Longrightarrow> blen st' a = blen st a \<and> pb_payload (ps_buf st' a) = pb_payload (ps_buf st a)"
  shows "addrs st' as = addrs st as"
  using assms by (induction as) simp_all

lemma tot_ok_cong:
  assumes "\<And>a. a \<in> set as \<Longrightarrow> blen st' a = blen st a \<and> pb_tot_len (ps_buf st' a) = pb_tot_len (ps_buf st a)"
  shows "tot_ok st' as = tot_ok st as"
  using assms
proof (induction as)
  case (Cons a as)
  then have "total_len st' (a # as) = total_len st (a # as)" by (intro total_len_cong) auto
  with Cons show ?case by simp
qed simp

lemma tot_ok_nth: "tot_ok st (xs @ a # ys) \<Longrightarrow> pb_tot_len (ps_buf st a) = total_len st (a # ys)"
  by (induction xs) auto

section \<open>Reading\<close>

lemma copy_partial_loop_data:
  assumes "chain st p as" and "total_len st as < 65536" and "len < 65536" and "off < 65536" and "c < 65536"
  shows "copy_partial_loop st p len off out c =
    Some (out @ take len (drop off (payload_data st as)), to_u16 (c + length (take len (drop off (payload_data st as)))))"
  using assms
proof (induction as arbitrary: p len off out c)
  case Nil
  then show ?case by (subst copy_partial_loop.simps) (simp add: to_u16_id)
next
  case (Cons a as)
  have p: "p = Some a" "ps_live st a" "chain st (pb_next (ps_buf st a)) as" using Cons.prems by auto
  have small: "blen st a < 65536" "total_len st as < 65536" using Cons.prems by auto
  show ?case
  proof (cases "len = 0")
    case True
    then show ?thesis using p Cons.prems by (subst copy_partial_loop.simps) (simp add: to_u16_id)
  next
    case False
    show ?thesis
    proof (cases "off \<noteq> 0 \<and> off \<ge> blen st a")
      case True
      then have "copy_partial_loop st p len off out c =
          copy_partial_loop st (pb_next (ps_buf st a)) len (off - blen st a) out c"
        using p False Cons.prems by (subst copy_partial_loop.simps) (simp add: sub_u16_le)
      with True Cons.IH [OF p(3) small(2), of len "off - blen st a" c out] Cons.prems show ?thesis
        by simp
    next
      case no_skip: False
      define n where "n = min (blen st a - off) len"
      have off: "off \<le> blen st a" using no_skip by auto
      have "copy_partial_loop st p len off out c =
          copy_partial_loop st (pb_next (ps_buf st a)) (len - n) 0
            (out @ rd (ps_bytes st) (pb_payload (ps_buf st a) + off) n) (to_u16 (c + n))"
        using p False no_skip off small(1) Cons.prems
        by (subst copy_partial_loop.simps) (auto simp: sub_u16_le n_def min_def Let_def)
      also have "\<dots> = Some ((out @ rd (ps_bytes st) (pb_payload (ps_buf st a) + off) n) @
            take (len - n) (payload_data st as), to_u16 (to_u16 (c + n) + length (take (len - n) (payload_data st as))))"
        using Cons.IH [OF p(3) small(2), of "len - n" 0 "to_u16 (c + n)"] Cons.prems by simp
      also have "rd (ps_bytes st) (pb_payload (ps_buf st a) + off) n =
          take n (drop off (rd (ps_bytes st) (pb_payload (ps_buf st a)) (blen st a)))"
        using off by (subst rd_part) (auto simp: n_def)
      finally show ?thesis
        using off by (simp add: n_def to_u16_def mod_add_left_eq min_def add.assoc split: if_splits)
    qed
  qed
qed

lemma skip_loop_pos:
  assumes "chain st p as" and "total_len st as < 65536" and "off < 65536"
  shows "(off < total_len st as \<longrightarrow> (\<exists>xs a ys k. as = xs @ a # ys \<and> skip_loop st p off = Some (Some a, k) \<and>
      off = total_len st xs + k \<and> k < blen st a)) \<and>
    (total_len st as \<le> off \<longrightarrow> skip_loop st p off = Some (None, off - total_len st as))"
  using assms
proof (induction as arbitrary: p off)
  case Nil
  then show ?case by (subst skip_loop.simps) simp
next
  case (Cons a as)
  have p: "p = Some a" "ps_live st a" "chain st (pb_next (ps_buf st a)) as" "total_len st as < 65536"
    using Cons.prems by auto
  show ?case
  proof (cases "blen st a \<le> off")
    case True
    then have step: "skip_loop st p off = skip_loop st (pb_next (ps_buf st a)) (off - blen st a)"
      using p Cons.prems by (subst skip_loop.simps) (simp add: sub_u16_le)
    have "off - blen st a < 65536" using Cons.prems by simp
    note IH = Cons.IH [OF p(3,4) this]
    show ?thesis
    proof (cases "off < total_len st (a # as)")
      case inside: True
      then have "off - blen st a < total_len st as" using True by simp
      with IH obtain xs b ys k where s: "as = xs @ b # ys" "skip_loop st (pb_next (ps_buf st a)) (off - blen st a) = Some (Some b, k)"
        "off - blen st a = total_len st xs + k" "k < blen st b" by blast
      have "a # as = (a # xs) @ b # ys" "off = total_len st (a # xs) + k" using s True by auto
      with s step inside show ?thesis by (metis not_le)
    qed (use IH step True in simp)
  next
    case False
    then have "skip_loop st p off = Some (Some a, off)"
      using p by (subst skip_loop.simps) simp
    moreover have "off = total_len st [] + off" "a # as = [] @ a # as" by simp_all
    moreover have "off < total_len st (a # as)" using False by simp
    ultimately show ?thesis using False by (metis not_le)
  qed
qed

lemma try_get_at_data:
  assumes "chain st p as" and "total_len st as < 65536" and "off < 65536"
  shows "pbuf_try_get_at p off st = Some (if off < total_len st as then Some (payload_data st as ! off) else None)"
proof (cases "off < total_len st as")
  case True
  then obtain xs a ys k where s: "as = xs @ a # ys" "skip_loop st p off = Some (Some a, k)"
      "off = total_len st xs + k" "k < blen st a"
    using skip_loop_pos [OF assms] by blast
  have "ps_live st a" using chain_live [OF assms(1)] s(1) by simp
  moreover have "payload_data st as ! off = ps_bytes st (pb_payload (ps_buf st a) + k)"
    using s by (simp add: nth_append rd_nth)
  ultimately show ?thesis
    using s True by (simp add: pbuf_try_get_at_def pbuf_skip_def)
next
  case False
  then show ?thesis
    using skip_loop_pos [OF assms] by (simp add: pbuf_try_get_at_def pbuf_skip_def)
qed

lemma get_at_data:
  assumes "chain st p as" and "total_len st as < 65536" and "off < total_len st as"
  shows "pbuf_get_at p off st = Some (payload_data st as ! off)"
  using try_get_at_data [OF assms(1,2), of off] assms(2,3) by (simp add: pbuf_get_at_def)

lemma all_from_split:
  "i < n \<Longrightarrow> (\<forall>j. i \<le> j \<and> j < n \<longrightarrow> P j) \<longleftrightarrow> P i \<and> (\<forall>j. Suc i \<le> j \<and> j < n \<longrightarrow> P j)" for i n :: nat
  by (metis Suc_leD Suc_le_eq le_eq_less_or_eq)

lemma memcmp_loop_zero:
  assumes "chain st q as" and "total_len st as < 65536" and "start + n \<le> total_len st as" and "i \<le> n"
  shows "\<exists>r. memcmp_loop st q start s2 n i = Some r \<and>
    (r = 0 \<longleftrightarrow> (\<forall>j. i \<le> j \<and> j < n \<longrightarrow> payload_data st as ! (start + j) = s2 ! j))"
  using assms(4)
proof (induction "n - i" arbitrary: i)
  case 0
  then show ?case by (subst memcmp_loop.simps) auto
next
  case (Suc k)
  then have i: "i < n" by simp
  have g: "pbuf_get_at q (to_u16 (start + i)) st = Some (payload_data st as ! (start + i))"
    using get_at_data [OF assms(1,2), of "start + i"] i assms(2,3) by (simp add: to_u16_id)
  have n: "to_u16 (i + 1) = i + 1" using i assms(2,3) by (simp add: to_u16_id)
  show ?case
  proof (cases "payload_data st as ! (start + i) = s2 ! i")
    case True
    then have "memcmp_loop st q start s2 n i = memcmp_loop st q start s2 n (i + 1)"
      using i g n by (subst memcmp_loop.simps) simp
    moreover obtain r where "memcmp_loop st q start s2 n (i + 1) = Some r"
      "r = 0 \<longleftrightarrow> (\<forall>j. Suc i \<le> j \<and> j < n \<longrightarrow> payload_data st as ! (start + j) = s2 ! j)"
      using Suc.hyps(1) [of "i + 1"] Suc.hyps(2) i by force
    ultimately show ?thesis
      using True by (simp add: all_from_split [OF i])
  next
    case False
    then have "memcmp_loop st q start s2 n i = Some (i + 1)"
      using i g n by (subst memcmp_loop.simps) simp
    with False i show ?thesis by auto
  qed
qed

definition occurs_at :: "u8 list \<Rightarrow> u8 list \<Rightarrow> nat \<Rightarrow> bool" where
  "occurs_at bs xs i \<longleftrightarrow> take (length xs) (drop i bs) = xs"

lemma occurs_at_nth:
  assumes "i + length xs \<le> length bs"
  shows "occurs_at bs xs i \<longleftrightarrow> (\<forall>j < length xs. bs ! (i + j) = xs ! j)"
  using assms by (auto simp: occurs_at_def list_eq_iff_nth_eq)

lemma memcmp_zero:
  assumes "packet st (Some p) as" and "off + length xs \<le> total_len st as"
  shows "\<exists>r. pbuf_memcmp p off xs (length xs) st = Some r \<and> (r = 0 \<longleftrightarrow> occurs_at (payload_data st as) xs off)"
proof -
  note pk = assms(1) [unfolded packet_def]
  have p: "ps_live st p" "pb_tot_len (ps_buf st p) = total_len st as"
    using packet_head [OF assms(1)] by auto
  have off: "off < 65536" using pk assms(2) by linarith
  have len: "off + length xs \<le> length (payload_data st as)" using assms(2) by simp
  note occ = occurs_at_nth [OF len]
  show ?thesis
  proof (cases "off < total_len st as")
    case True
    then obtain us a ys k where s: "as = us @ a # ys" "skip_loop st (Some p) off = Some (Some a, k)"
        "off = total_len st us + k" "k < blen st a"
      using skip_loop_pos [of st "Some p" as off] pk off by blast
    have c: "chain st (Some a) (a # ys)" "total_len st (a # ys) < 65536" "k + length xs \<le> total_len st (a # ys)"
      using pk s chain_suffix [of st "Some p" us a ys] assms(2) by auto
    have "payload_data st as ! (off + j) = payload_data st (a # ys) ! (k + j)" for j
      unfolding s(1,3) data_simps(3) by (simp add: nth_append)
    moreover obtain r where "memcmp_loop st (Some a) k xs (length xs) 0 = Some r"
      "r = 0 \<longleftrightarrow> (\<forall>j < length xs. payload_data st (a # ys) ! (k + j) = xs ! j)"
      using memcmp_loop_zero [OF c, of 0 xs] by auto
    ultimately show ?thesis
      using p s(2) assms(2) occ by (simp add: pbuf_memcmp_def)
  next
    case False
    then have "length xs = 0" using assms(2) by linarith
    moreover have "skip_loop st (Some p) off = Some (None, off - total_len st as)"
      using False skip_loop_pos [of st "Some p" as off] pk off by simp
    ultimately have "xs = []" "skip_loop st (Some p) off = Some (None, off - total_len st as)" by simp_all
    then show ?thesis
      using p assms(2) by (simp add: pbuf_memcmp_def occurs_at_def) (subst memcmp_loop.simps, simp)
  qed
qed

lemma memfind_loop_find:
  assumes "packet st (Some p) as" and "length xs \<le> total_len st as"
    and "i \<le> Suc (total_len st as - length xs)" and "i < 65536"
  shows "memfind_loop st p xs (length xs) (total_len st as - length xs) i =
    Some (case find (occurs_at (payload_data st as) xs) [i..<Suc (total_len st as - length xs)] of
       Some k \<Rightarrow> k | None \<Rightarrow> 0xffff)"
  using assms(3,4)
proof (induction "Suc (total_len st as - length xs) - i" arbitrary: i)
  case 0
  then show ?case by (subst memfind_loop.simps) simp
next
  case (Suc k)
  let ?m = "total_len st as - length xs"
  have i: "i \<le> ?m" "i + length xs \<le> total_len st as" using Suc.hyps(2) assms(2) by linarith+
  obtain r where r: "pbuf_memcmp p i xs (length xs) st = Some r" "r = 0 \<longleftrightarrow> occurs_at (payload_data st as) xs i"
    using memcmp_zero [OF assms(1) i(2)] by blast
  have u: "[i..<Suc ?m] = i # [Suc i..<Suc ?m]" using i by (subst upt_conv_Cons) simp_all
  show ?case
  proof (cases "r = 0")
    case True
    then show ?thesis using r i u by (subst memfind_loop.simps) simp
  next
    case False
    have "xs \<noteq> []" using False r by (auto simp: occurs_at_def)
    then have "0 < length xs" by simp
    then have i2: "i + 1 < 65536" using i(2) assms(1) unfolding packet_def by linarith
    then have "memfind_loop st p xs (length xs) ?m i = memfind_loop st p xs (length xs) ?m (Suc i)"
      using False r i by (subst memfind_loop.simps) (simp add: to_u16_id)
    also have "\<dots> = Some (case find (occurs_at (payload_data st as) xs) [Suc i..<Suc ?m] of Some k \<Rightarrow> k | None \<Rightarrow> 0xffff)"
      using Suc.hyps i i2 by (intro Suc.hyps(1)) auto
    finally show ?thesis using u False r by simp
  qed
qed

section \<open>Writing\<close>

definition write_at :: "nat list \<Rightarrow> u8 list \<Rightarrow> (nat \<Rightarrow> u8) \<Rightarrow> nat \<Rightarrow> u8" where
  "write_at xs bs m = fold (\<lambda>(x, v) m. m(x := v)) (zip xs bs) m"

lemma write_at_simps [simp]: "write_at [] bs m = m" "write_at xs [] m = m"
  "write_at (x # xs) (b # bs) m = write_at xs bs (m(x := b))"
  by (simp_all add: write_at_def)

lemma write_at_append:
  "write_at (xs @ ys) bs m = write_at ys (drop (length xs) bs) (write_at xs bs m)"
  using take_zip [of "length xs" xs bs] by (simp add: write_at_def zip_append1)

lemma write_at_other: "x \<notin> set xs \<Longrightarrow> write_at xs bs m x = m x"
proof (induction xs arbitrary: bs m)
  case (Cons a xs)
  then show ?case by (cases bs) auto
qed simp

lemma write_at_same:
  "distinct xs \<Longrightarrow> length bs \<le> length xs \<Longrightarrow> map (write_at xs bs m) xs = bs @ drop (length bs) (map m xs)"
proof (induction xs arbitrary: bs m)
  case (Cons a xs)
  show ?case
  proof (cases bs)
    case (Cons b bs')
    then have "write_at xs bs' (m(a := b)) a = b" using Cons.prems by (simp add: write_at_other)
    moreover have "map (m(a := b)) xs = map m xs" using Cons.prems by auto
    ultimately show ?thesis using Cons.IH [of bs' "m(a := b)"] Cons Cons.prems by (simp del: fun_upd_apply)
  qed simp
qed simp

lemma wr_write_at: "wr a bs m = write_at [a..<a + length bs] bs m"
proof
  fix x
  show "wr a bs m x = write_at [a..<a + length bs] bs m x"
  proof (cases "a \<le> x \<and> x < a + length bs")
    case True
    have "map (write_at [a..<a + length bs] bs m) [a..<a + length bs] ! (x - a) = bs ! (x - a)"
      using write_at_same [of "[a..<a + length bs]" bs m] True by (simp add: nth_append)
    moreover have "x - a < length bs" using True by linarith
    ultimately show ?thesis using True by (simp add: wr_def)
  next
    case False
    then show ?thesis using write_at_other [of x "[a..<a + length bs]" bs m] by (auto simp: wr_def)
  qed
qed

lemma memcpy_frame [simp]: "ps_buf (memcpy a bs st) = ps_buf st" "ps_live (memcpy a bs st) = ps_live st"
  "total_len (memcpy a bs st) = total_len st" "addrs (memcpy a bs st) = addrs st" "deref (memcpy a bs st) = deref st"
  by (auto simp: memcpy_def total_len_def addrs_def deref_def fun_eq_iff)

lemma memcpy_chain [simp]: "chain (memcpy a bs st) p as = chain st p as"
  by (intro chain_cong) simp

lemma take_loop_writes:
  assumes "chain st p as" and "total_len st as < 65536" and "n \<le> total_len st as" and "c + n \<le> length d" and "length d < 65536"
  shows "take_loop p d n c st = Some (st\<lparr>ps_bytes := write_at (addrs st as) (take n (drop c d)) (ps_bytes st)\<rparr>)"
  using assms(1-4)
proof (induction as arbitrary: p n c st)
  case Nil
  then show ?case by (subst take_loop.simps) simp
next
  case (Cons a as)
  show ?case
  proof (cases "n = 0")
    case True
    then show ?thesis by (subst take_loop.simps) simp
  next
    case False
    have p: "p = Some a" "ps_live st a" "chain st (pb_next (ps_buf st a)) as" using Cons.prems by auto
    define k where "k = min n (blen st a)"
    define st' where "st' = memcpy (pb_payload (ps_buf st a)) (take k (drop c d)) st"
    have "c + k < 65536" "k \<le> n" "n < 65536" using Cons.prems assms(5) by (auto simp: k_def)
    then have "take_loop p d n c st = take_loop (pb_next (ps_buf st a)) d (n - k) (c + k) st'"
      using p False by (subst take_loop.simps) (auto simp: k_def min_def sub_u16_le to_u16_id st'_def Let_def)
    also have "\<dots> = Some (st'\<lparr>ps_bytes := write_at (addrs st' as) (take (n - k) (drop (c + k) d)) (ps_bytes st')\<rparr>)"
      using Cons.prems p by (intro Cons.IH) (auto simp: st'_def k_def)
    also have "\<dots> = Some (st\<lparr>ps_bytes := write_at (addrs st (a # as)) (take n (drop c d)) (ps_bytes st)\<rparr>)"
    proof -
      let ?w = "pb_payload (ps_buf st a)" and ?xs = "take n (drop c d)"
      have len: "length (take k (drop c d)) = k" using Cons.prems \<open>k \<le> n\<close> by simp
      have "take k (drop c d) = take k ?xs" using \<open>k \<le> n\<close> by (simp add: min_absorb1)
      moreover have "[?w..<?w + k] = take k [?w..<?w + blen st a]" by (simp add: k_def)
      ultimately have "ps_bytes st' = write_at (take k [?w..<?w + blen st a]) (take k ?xs) (ps_bytes st)"
        using len by (simp add: st'_def memcpy_def wr_write_at)
      also have "\<dots> = write_at [?w..<?w + blen st a] ?xs (ps_bytes st)"
        unfolding write_at_def take_zip [symmetric]
      proof (rule arg_cong [where f = "\<lambda>z. fold _ z _"])
        show "take k (zip [?w..<?w + blen st a] ?xs) = zip [?w..<?w + blen st a] ?xs"
          using Cons.prems by (intro take_all) (simp add: k_def)
      qed
      finally have "ps_bytes st' = write_at [?w..<?w + blen st a] ?xs (ps_bytes st)" .
      moreover have "write_at (addrs st as) (take (n - k) (drop (c + k) d)) m = write_at (addrs st as) (drop (blen st a) ?xs) m" for m
        by (cases "n \<le> blen st a") (simp_all add: k_def drop_take add.commute)
      moreover have "addrs st' as = addrs st as" by (simp add: st'_def)
      moreover have "st'\<lparr>ps_bytes := m\<rparr> = st\<lparr>ps_bytes := m\<rparr>" for m by (simp add: st'_def memcpy_def)
      ultimately show ?thesis by (simp add: write_at_append)
    qed
    finally show ?thesis .
  qed
qed

lemma chain_next: "chain st p (ls @ a # ys) \<Longrightarrow> chain st (pb_next (ps_buf st a)) ys"
  using chain_suffix [of st p ls a ys] by simp

lemma tot_ok_suffix: "tot_ok st (xs @ ys) \<Longrightarrow> tot_ok st ys"
  by (induction xs) auto

lemma packet_suffix: "packet st p (ls @ ys) \<Longrightarrow> ys \<noteq> [] \<Longrightarrow> packet st (Some (hd ys)) ys"
  using chain_suffix [of st p ls "hd ys" "tl ys"] tot_ok_suffix [of st ls ys] by (auto simp: packet_def neq_Nil_conv)

lemma pbuf_take_writes:
  assumes "packet st (Some a) as" and "length d \<le> total_len st as"
  shows "pbuf_take (Some a) (Some d) (length d) st =
    Some (st\<lparr>ps_bytes := write_at (addrs st as) d (ps_bytes st)\<rparr>, ERR_OK)"
proof -
  note pk = assms(1) [unfolded packet_def]
  have "ps_live st a" "pb_tot_len (ps_buf st a) = total_len st as" using packet_head [OF assms(1)] by auto
  then show ?thesis
    using take_loop_writes [of st "Some a" as "length d" 0 d] pk assms(2) by (simp add: pbuf_take_def)
qed

lemma take_at_writes:
  assumes "packet st (Some p) as" and "off < total_len st as"
  shows "pbuf_take_at (Some p) d (length d) off st =
    (if off + length d \<le> total_len st as
     then Some (st\<lparr>ps_bytes := write_at (drop off (addrs st as)) d (ps_bytes st)\<rparr>, ERR_OK)
     else Some (st, ERR_MEM))"
proof -
  note pk = assms(1) [unfolded packet_def]
  have "off < 65536" using pk assms(2) by linarith
  then obtain ls a ys k where s: "as = ls @ a # ys" "skip_loop st (Some p) off = Some (Some a, k)"
      "off = total_len st ls + k" "k < blen st a"
    using skip_loop_pos [of st "Some p" as off] pk assms(2) by blast
  have a: "ps_live st a" "pb_tot_len (ps_buf st a) = total_len st (a # ys)"
    using pk s(1) chain_live tot_ok_nth by auto
  show ?thesis
  proof (cases "off + length d \<le> total_len st as")
    case False
    then show ?thesis using s a by (simp add: pbuf_take_at_def pbuf_skip_def)
  next
    case True
    define n where "n = min (blen st a - k) (length d)"
    let ?w = "pb_payload (ps_buf st a)"
    define st' where "st' = memcpy (?w + k) (take n d) st"
    have fits: "k + length d \<le> total_len st (a # ys)" "length d < 65536" using True s pk by auto
    have ad: "drop off (addrs st as) = [?w + k..<?w + blen st a] @ addrs st ys"
      using s by (simp add: drop_upt)
    have w: "ps_bytes st' = write_at [?w + k..<?w + blen st a] d (ps_bytes st)"
    proof -
      have "[?w + k..<?w + k + n] = take n [?w + k..<?w + blen st a]"
        using s(4) by (subst take_upt) (auto simp: n_def)
      then have "ps_bytes st' = fold (\<lambda>(x, v) m. m(x := v)) (take n (zip [?w + k..<?w + blen st a] d)) (ps_bytes st)"
        by (simp add: st'_def memcpy_def wr_write_at n_def write_at_def take_zip)
      also have "take n (zip [?w + k..<?w + blen st a] d) = zip [?w + k..<?w + blen st a] d"
        by (intro take_all) (simp add: n_def)
      finally show ?thesis by (simp only: write_at_def)
    qed
    have upd: "st'\<lparr>ps_bytes := m\<rparr> = st\<lparr>ps_bytes := m\<rparr>" for m by (simp add: st'_def memcpy_def)
    show ?thesis
    proof (cases "length d \<le> blen st a - k")
      case True
      then have "pbuf_take_at (Some p) d (length d) off st = Some (st', ERR_OK)"
        using s a fits by (simp add: pbuf_take_at_def pbuf_skip_def st'_def n_def sub_u16_le Let_def)
      moreover have "st' = st\<lparr>ps_bytes := write_at [?w + k..<?w + blen st a] d (ps_bytes st)\<rparr>"
        using w by (simp add: st'_def memcpy_def)
      ultimately show ?thesis
        using True fits \<open>off + length d \<le> total_len st as\<close> by (simp add: ad write_at_append)
    next
      case False
      have "ys \<noteq> []" using False fits(1) by auto
      then have y: "packet st (Some (hd ys)) ys" using packet_suffix [of st "Some p" "ls @ [a]" ys] assms(1) s(1) by simp
      have nxt: "pb_next (ps_buf st a) = Some (hd ys)"
        using chain_next [of st "Some p" ls a ys] pk s(1) \<open>ys \<noteq> []\<close> by (cases ys) auto
      have y': "packet st' (Some (hd ys)) ys"
        using y tot_ok_cong [of ys st' st] unfolding packet_def by (simp add: st'_def)
      have sub: "sub_u16 (length d) (blen st a - k) = length d - (blen st a - k)"
        using False fits(2) by (intro sub_u16_le) auto
      have long: "blen st a < length d + k" using False by linarith
      have "pbuf_take_at (Some p) d (length d) off st =
          pbuf_take (Some (hd ys)) (Some (drop (blen st a - k) d)) (length (drop (blen st a - k) d)) st'"
        using s a fits False nxt sub long
        by (simp add: pbuf_take_at_def pbuf_skip_def st'_def n_def Let_def min_def del: diff_diff_left)
      also have "\<dots> = Some (st'\<lparr>ps_bytes := write_at (addrs st' ys) (drop (blen st a - k) d) (ps_bytes st')\<rparr>, ERR_OK)"
        using y' fits False s(4) by (intro pbuf_take_writes) (auto simp: st'_def)
      finally show ?thesis
        using True by (simp add: ad write_at_append w upd) (simp add: st'_def)
    qed
  qed
qed

section \<open>Copying from chain to chain\<close>

text \<open>A position in a packet without empty pbufs: what is left of it from there.\<close>

definition pos :: "pstate \<Rightarrow> nat option \<Rightarrow> nat \<Rightarrow> nat list \<Rightarrow> nat list \<Rightarrow> bool" where
  "pos st p off as rest \<longleftrightarrow> packet st p as \<and> (\<forall>a\<in>set as. 0 < blen st a) \<and>
     (case as of [] \<Rightarrow> off = 0 | a # _ \<Rightarrow> off < blen st a) \<and> rest = drop off (addrs st as)"

lemma pos_advance:
  assumes "pos st (Some a) off (a # as) rest" and "0 < n" and "n \<le> blen st a - off"
  shows "if off + n = blen st a then pos st (pb_next (ps_buf st a)) 0 as (drop n rest)
    else pos st (Some a) (off + n) (a # as) (drop n rest)"
  using assms by (auto simp: pos_def packet_def add_ac split: list.splits)

lemma pos_no_queue:
  assumes "pos st (Some a) off as rest"
  shows "\<not> (blen st a = pb_tot_len (ps_buf st a) \<and> pb_next (ps_buf st a) \<noteq> None)"
proof (cases as)
  case (Cons b bs)
  then show ?thesis using assms by (cases bs) (auto simp: pos_def packet_def)
qed (use assms in \<open>auto simp: pos_def packet_def\<close>)

lemma pos_live: "pos st (Some a) off as rest \<Longrightarrow> \<exists>as'. as = a # as' \<and> ps_live st a \<and> off < blen st a \<and> blen st a < 65536"
  by (cases as) (auto simp: pos_def packet_def)

lemma pos_not_queue:
  assumes "pos st p off as rest"
  shows "is_queue st p = Some False"
proof (cases p)
  case (Some a)
  then show ?thesis
    using pos_live [of st a off as rest] pos_no_queue [of st a off as rest] assms by (auto simp: is_queue_def)
qed (simp add: is_queue_def)

lemma pos_Some: "pos st (Some a) off as rest \<Longrightarrow> rest \<noteq> []"
  using pos_live [of st a off as rest] by (auto simp: pos_def)

lemma pos_memcpy: "pos (memcpy x bs st) p off as rest = pos st p off as rest"
  using tot_ok_cong [of as "memcpy x bs st" st] by (simp add: pos_def packet_def split: list.splits)

lemma pos_None: "pos st None off as rest \<Longrightarrow> rest = []"
  by (cases as) (auto simp: pos_def packet_def)

lemma pos_rest: "pos st (Some a) off (a # as) rest \<Longrightarrow> n \<le> blen st a - off \<Longrightarrow>
    take n rest = [pb_payload (ps_buf st a) + off..<pb_payload (ps_buf st a) + off + n]"
proof -
  assume p: "pos st (Some a) off (a # as) rest" and n: "n \<le> blen st a - off"
  have "off < blen st a" using p by (simp add: pos_def)
  with n have "pb_payload (ps_buf st a) + off + n \<le> pb_payload (ps_buf st a) + blen st a" by linarith
  then show ?thesis using p by (simp add: pos_def drop_upt take_upt)
qed

lemma copy_loop_writes:
  assumes "pos st (Some t) ot ts rt" and "pos st (Some f) fo fs rf" and "length rf \<le> length rt"
    and "distinct rt" and "set rt \<inter> set rf = {}"
  shows "copy_loop t ot f fo st =
    Some (st\<lparr>ps_bytes := write_at rt (map (ps_bytes st) rf) (ps_bytes st)\<rparr>, ERR_OK)"
  using assms
proof (induction "length rf" arbitrary: st t ot ts rt f fo fs rf rule: less_induct)
  case less
  obtain ts' fs' where c: "ts = t # ts'" "ps_live st t" "ot < blen st t" "blen st t < 65536"
      "fs = f # fs'" "ps_live st f" "fo < blen st f" "blen st f < 65536"
    using pos_live [OF less.prems(1)] pos_live [OF less.prems(2)] by blast
  define n where "n = min (blen st t - ot) (blen st f - fo)"
  have n: "0 < n" "n \<le> blen st t - ot" "n \<le> blen st f - fo" using c by (auto simp: n_def)
  let ?pt = "pb_payload (ps_buf st t)" and ?pf = "pb_payload (ps_buf st f)"
  define st' where "st' = memcpy (?pt + ot) (rd (ps_bytes st) (?pf + fo) n) st"
  define p_from where "p_from = (if fo + n = blen st f then pb_next (ps_buf st f) else Some f)"
  define p_to where "p_to = (if ot + n = blen st t then pb_next (ps_buf st t) else Some t)"
  define fo' where "fo' = (if fo + n = blen st f then 0 else fo + n)"
  define ot' where "ot' = (if ot + n = blen st t then 0 else ot + n)"
  have len: "copy_len (ps_buf st t) ot (ps_buf st f) fo = n"
    using c by (auto simp: copy_len_def n_def min_def sub_u16_le)
  have u: "to_u16 (ot + n) = ot + n" "to_u16 (fo + n) = fo + n" using n c by (simp_all add: to_u16_id)
  have ge: "fo + n \<ge> blen st f \<longleftrightarrow> fo + n = blen st f" using n c by auto
  obtain ts2 where T: "pos st' p_to ot' ts2 (drop n rt)"
    using pos_advance [OF less.prems(1) [unfolded c(1)] n(1,2)] unfolding p_to_def ot'_def st'_def pos_memcpy
    by (cases "ot + n = blen st t") simp_all
  obtain fs2 where F: "pos st' p_from fo' fs2 (drop n rf)"
    using pos_advance [OF less.prems(2) [unfolded c(5)] n(1,3)] unfolding p_from_def fo'_def st'_def pos_memcpy
    by (cases "fo + n = blen st f") simp_all
  have tn: "take n rt = [?pt + ot..<?pt + ot + n]" "take n rf = [?pf + fo..<?pf + fo + n]"
    using pos_rest less.prems(1,2) c n by simp_all
  have "n = length (take n rf)" unfolding tn by simp
  then have nf: "n \<le> length rf" by simp
  have bytes: "ps_bytes st' = write_at (take n rt) (map (ps_bytes st) (take n rf)) (ps_bytes st)"
    unfolding tn st'_def memcpy_def wr_write_at rd_def by simp
  have same: "map (ps_bytes st') (drop n rf) = map (ps_bytes st) (drop n rf)"
    unfolding bytes using less.prems(5)
    by (intro map_cong refl write_at_other) (meson disjoint_iff in_set_dropD in_set_takeD)
  have goal: "st\<lparr>ps_bytes := write_at rt (map (ps_bytes st) rf) (ps_bytes st)\<rparr> =
      st'\<lparr>ps_bytes := write_at (drop n rt) (map (ps_bytes st') (drop n rf)) (ps_bytes st')\<rparr>"
  proof -
    have "length (take n rt) = n" using less.prems(3) nf by simp
    then have "write_at rt (map (ps_bytes st) rf) (ps_bytes st) = write_at (drop n rt) (map (ps_bytes st) (drop n rf))
        (write_at (take n rt) (map (ps_bytes st) rf) (ps_bytes st))"
      using write_at_append [of "take n rt" "drop n rt" "map (ps_bytes st) rf" "ps_bytes st"] by (simp add: drop_map)
    also have "write_at (take n rt) (map (ps_bytes st) rf) (ps_bytes st) = ps_bytes st'"
    proof -
      have "zip (take n rt) (map (ps_bytes st) rf) = zip (take n rt) (map (ps_bytes st) (take n rf))"
        using less.prems(3) nf take_zip [of n "take n rt" "map (ps_bytes st) rf"]
        by (simp add: min_def take_map)
      then show ?thesis by (simp add: write_at_def bytes)
    qed
    finally have "write_at rt (map (ps_bytes st) rf) (ps_bytes st) =
        write_at (drop n rt) (map (ps_bytes st') (drop n rf)) (ps_bytes st')"
      by (simp only: same)
    then show ?thesis by (simp add: st'_def memcpy_def)
  qed
  have step: "copy_loop t ot f fo st = (case (p_to, p_from) of
      (Some t, Some f) \<Rightarrow> copy_loop t ot' f fo' st' | _ \<Rightarrow> Some (st', ERR_OK))"
  proof -
    have "\<not> (p_to = None \<and> p_from \<noteq> None)"
    proof
      assume "p_to = None \<and> p_from \<noteq> None"
      then obtain b where "p_to = None" "p_from = Some b" by auto
      then have "drop n rt = []" "pos st' (Some b) fo' fs2 (drop n rf)"
        using T F pos_None [of st' ot' ts2 "drop n rt"] by simp_all
      moreover from pos_Some [OF this(2)] have "drop n rf \<noteq> []" .
      ultimately show False using less.prems(3) by simp
    qed
    moreover have "on_to_next (fo + n \<ge> blen st f) (ps_buf st f) f (fo + n) = (p_from, fo')"
      "on_to_next (ot + n = blen st t) (ps_buf st t) t (ot + n) = (p_to, ot')"
      by (simp_all add: on_to_next_def ge p_from_def fo'_def p_to_def ot'_def)
    moreover note pos_not_queue [OF F] pos_not_queue [OF T]
    ultimately show ?thesis
      by (subst copy_loop.simps) (simp add: c len u Let_def split: option.split flip: st'_def)
  qed
  show ?case
  proof (cases p_from)
    case None
    then have "drop n rf = []" using F pos_None [of st' fo' fs2] by blast
    with None goal show ?thesis unfolding step by (cases p_to) (simp_all add: st'_def memcpy_def)
  next
    case (Some f')
    then have "drop n rf \<noteq> []" using F pos_Some by blast
    then have "drop n rt \<noteq> []" using less.prems(3) by simp
    then obtain b where b: "p_to = Some b" using T pos_None [of st' ot' ts2] by (cases p_to) blast+
    moreover have "copy_loop b ot' f' fo' st' =
        Some (st'\<lparr>ps_bytes := write_at (drop n rt) (map (ps_bytes st') (drop n rf)) (ps_bytes st')\<rparr>, ERR_OK)"
    proof (rule less.hyps)
      show "length (drop n rf) < length rf" using n nf by simp
      show "pos st' (Some b) ot' ts2 (drop n rt)" using T b by simp
      show "pos st' (Some f') fo' fs2 (drop n rf)" using F Some by simp
      show "length (drop n rf) \<le> length (drop n rt)" using less.prems(3) by simp
      show "distinct (drop n rt)" using less.prems(4) by simp
      show "set (drop n rt) \<inter> set (drop n rf) = {}" using less.prems(5) by (meson disjoint_iff in_set_dropD)
    qed
    ultimately show ?thesis unfolding step goal using Some by simp
  qed
qed

section \<open>Linking\<close>

lemma upd_simps [simp]:
  "ps_buf (upd a f st) x = (if x = a then f (ps_buf st a) else ps_buf st x)"
  "ps_live (upd a f st) = ps_live st" "ps_bytes (upd a f st) = ps_bytes st" "ps_heap (upd a f st) = ps_heap st"
  "ps_ram (upd a f st) = ps_ram st" "ps_pool (upd a f st) = ps_pool st" "ps_refs (upd a f st) = ps_refs st"
  by (simp_all add: upd_def)

lemma chain_hd: "chain st p as \<Longrightarrow> as \<noteq> [] \<Longrightarrow> p = Some (hd as)"
  by (cases as) auto

lemma chain_link:
  assumes "chain st p as" and "as \<noteq> []" and "chain st' (Some t) ts"
    and "\<And>x. x \<in> set as \<Longrightarrow> ps_live st' x = ps_live st x"
    and "\<And>x. x \<in> set as \<Longrightarrow> pb_next (ps_buf st' x) = (if x = last as then Some t else pb_next (ps_buf st x))"
  shows "chain st' p (as @ ts)"
  using assms(1,2,4,5)
proof (induction as arbitrary: p)
  case (Cons a as)
  show ?case
  proof (cases as)
    case Nil
    then show ?thesis using Cons.prems assms(3) by simp
  next
    case (Cons b bs)
    have "a \<noteq> last as" using chain_distinct [OF Cons.prems(1)] Cons by auto
    then show ?thesis using Cons.prems Cons.IH [of "pb_next (ps_buf st a)"] Cons by auto
  qed
qed simp

text \<open>Adding to the total length of all the given headers, and setting the link of one.\<close>

definition bump :: "nat \<Rightarrow> nat list \<Rightarrow> pstate \<Rightarrow> pstate" where
  "bump n as st = st\<lparr>ps_buf := \<lambda>x. if x \<in> set as
     then (ps_buf st x)\<lparr>pb_tot_len := to_u16 (pb_tot_len (ps_buf st x) + n)\<rparr> else ps_buf st x\<rparr>"

lemma bump_simps [simp]:
  "ps_buf (bump n as st) x = (if x \<in> set as
     then (ps_buf st x)\<lparr>pb_tot_len := to_u16 (pb_tot_len (ps_buf st x) + n)\<rparr> else ps_buf st x)"
  "ps_live (bump n as st) = ps_live st" "ps_bytes (bump n as st) = ps_bytes st" "bump n [] st = st"
  by (simp_all add: bump_def)

lemma bump_upd:
  assumes "a \<notin> set as"
  shows "bump n as (upd a (\<lambda>b. b\<lparr>pb_tot_len := to_u16 (pb_tot_len b + n)\<rparr>) st) = bump n (a # as) st"
    and "upd a (\<lambda>b. b\<lparr>pb_tot_len := to_u16 (pb_tot_len b + n)\<rparr>) (bump n as st) = bump n (as @ [a]) st"
  using assms unfolding bump_def upd_def by (auto intro!: arg_cong [where f = "\<lambda>m. st\<lparr>ps_buf := m\<rparr>"])

lemma cat_loop_result:
  assumes "chain st (Some p) as" and "ps_live st t" and "t \<notin> set as" and "as \<noteq> []"
  shows "cat_loop p t st = Some (bump (pb_tot_len (ps_buf st t)) (butlast as) st, last as)"
  using assms
proof (induction as arbitrary: p st)
  case (Cons a as)
  have p: "p = a" "ps_live st a" "chain st (pb_next (ps_buf st a)) as" using Cons.prems by auto
  show ?case
  proof (cases as)
    case Nil
    then show ?thesis using p by (subst cat_loop.simps) simp
  next
    case (Cons b bs)
    define st1 where "st1 = upd a (\<lambda>b. b\<lparr>pb_tot_len := to_u16 (pb_tot_len b + pb_tot_len (ps_buf st t))\<rparr>) st"
    have d: "a \<notin> set as" "t \<noteq> a" using chain_distinct [OF Cons.prems(1)] Cons.prems(3) by auto
    have nxt: "pb_next (ps_buf st a) = Some b" using p(3) Cons by simp
    have "chain st1 (Some b) as"
      using p(3) nxt d(1) by (subst chain_cong [of _ st1 st]) (auto simp: st1_def)
    then have "cat_loop b t st1 = Some (bump (pb_tot_len (ps_buf st1 t)) (butlast as) st1, last as)"
      using Cons.prems Cons by (intro Cons.IH) (auto simp: st1_def)
    moreover have "cat_loop p t st = cat_loop b t st1"
      using p nxt Cons.prems(2) by (subst cat_loop.simps) (simp add: st1_def)
    moreover have "a \<notin> set (butlast as)" using d(1) in_set_butlastD by metis
    then have "bump (pb_tot_len (ps_buf st1 t)) (butlast as) st1 = bump (pb_tot_len (ps_buf st t)) (butlast (a # as)) st"
      using bump_upd(1) [of a "butlast as"] d(2) Cons by (simp add: st1_def)
    ultimately show ?thesis using Cons by simp
  qed
qed simp

lemma pbuf_cat_result:
  assumes "chain st (Some h) hs" and "ps_live st t" and "t \<notin> set hs"
  shows "pbuf_cat (Some h) (Some t) st =
    Some (upd (last hs) (\<lambda>b. b\<lparr>pb_next := Some t\<rparr>) (bump (pb_tot_len (ps_buf st t)) hs st))"
proof -
  have ne: "hs \<noteq> []" using assms(1) by (cases hs) auto
  have hs: "butlast hs @ [last hs] = hs" using ne by simp
  then have "distinct (butlast hs @ [last hs])" using chain_distinct [OF assms(1)] by simp
  then have d: "last hs \<notin> set (butlast hs)" by simp
  have t: "t \<notin> set (butlast hs)" using assms(3) in_set_butlastD by metis
  show ?thesis
    using cat_loop_result [OF assms ne] assms(2) t bump_upd(2) [OF d] hs by (simp add: pbuf_cat_def)
qed

lemma tot_ok_cat:
  assumes "tot_ok st hs" and "\<And>x. blen st' x = blen st x" and "tot_ok st' ts"
    and "\<And>x. x \<in> set hs \<Longrightarrow> pb_tot_len (ps_buf st' x) = pb_tot_len (ps_buf st x) + total_len st ts"
  shows "tot_ok st' (hs @ ts)"
proof -
  have l: "total_len st' xs = total_len st xs" for xs using assms(2) by (intro total_len_cong) simp
  show ?thesis using assms(1,4)
  proof (induction hs)
    case (Cons a hs)
    then show ?case using assms(2) by (simp add: l)
  qed (simp add: assms(3))
qed

lemma tot_le_total: "tot_ok st as \<Longrightarrow> a \<in> set as \<Longrightarrow> pb_tot_len (ps_buf st a) \<le> total_len st as"
  by (induction as) auto

lemma pbuf_cat_packet:
  assumes "packet st (Some h) hs" and "packet st (Some t) ts" and "set hs \<inter> set ts = {}"
    and "total_len st hs + total_len st ts < 65536"
  shows "\<exists>st'. pbuf_cat (Some h) (Some t) st = Some st' \<and> packet st' (Some h) (hs @ ts) \<and>
    payload_data st' (hs @ ts) = payload_data st hs @ payload_data st ts \<and>
    (\<forall>x. pb_ref (ps_buf st' x) = pb_ref (ps_buf st x)) \<and> (\<forall>x. x \<notin> set hs \<longrightarrow> ps_buf st' x = ps_buf st x)"
proof -
  note h = assms(1) [unfolded packet_def] and t = assms(2) [unfolded packet_def]
  have t': "ts \<noteq> []" "t = hd ts" "ps_live st t" "pb_tot_len (ps_buf st t) = total_len st ts" using t by (cases ts; auto)+
  then have "t \<notin> set hs" using assms(3) by (cases ts) auto
  have last: "last hs \<in> set hs" using h by (cases hs) auto
  define st' where "st' = upd (last hs) (\<lambda>b. b\<lparr>pb_next := Some t\<rparr>) (bump (pb_tot_len (ps_buf st t)) hs st)"
  have r: "pbuf_cat (Some h) (Some t) st = Some st'"
    unfolding st'_def using h t' \<open>t \<notin> set hs\<close> by (intro pbuf_cat_result) auto
  have f: "ps_live st' = ps_live st" "ps_bytes st' = ps_bytes st" by (simp_all add: st'_def)
  have len: "blen st' x = blen st x" "pb_payload (ps_buf st' x) = pb_payload (ps_buf st x)"
    "pb_ref (ps_buf st' x) = pb_ref (ps_buf st x)" for x by (simp_all add: st'_def)
  have other: "ps_buf st' x = ps_buf st x" if "x \<notin> set hs" for x using that last by (auto simp: st'_def)
  have ts: "ps_buf st' x = ps_buf st x" if "x \<in> set ts" for x using that other assms(3) by blast
  have nxt: "pb_next (ps_buf st' x) = (if x = last hs then Some t else pb_next (ps_buf st x))" for x
    by (simp add: st'_def)
  have tot: "pb_tot_len (ps_buf st' x) = pb_tot_len (ps_buf st x) + total_len st ts" if "x \<in> set hs" for x
  proof -
    have "pb_tot_len (ps_buf st x) + total_len st ts < 65536" using tot_le_total [of st hs x] that h assms(4) by simp
    then show ?thesis using that t'(4) by (auto simp: st'_def to_u16_id)
  qed
  have "chain st' (Some t) ts" using t ts f(1) chain_cong [of ts st' st "Some t"] by simp
  then have "chain st' (Some h) (hs @ ts)"
    using h f(1) nxt last by (intro chain_link [of st "Some h" hs st' t ts]) auto
  moreover have "tot_ok st' ts" using t ts tot_ok_cong [of ts st' st] by simp
  then have "tot_ok st' (hs @ ts)" using h len(1) tot by (intro tot_ok_cat) auto
  moreover have "total_len st' xs = total_len st xs" "addrs st' xs = addrs st xs" for xs
    using len by (auto intro: total_len_cong addrs_cong)
  ultimately have "packet st' (Some h) (hs @ ts)" "payload_data st' (hs @ ts) = payload_data st hs @ payload_data st ts"
    using assms(4) f(2) by (simp_all add: packet_def payload_data_def)
  with r other len(3) show ?thesis by blast
qed

section \<open>Headers\<close>

lemma nat_sub_mod: "n \<le> x \<Longrightarrow> x < 65536 \<Longrightarrow> nat ((int x - int n) mod 65536) = x - n"
  by (subst mod_pos_pos_trivial) auto

lemma nat_add_mod: "x + n < 65536 \<Longrightarrow> nat ((int x + int n) mod 65536) = x + n"
  by (subst mod_pos_pos_trivial) auto

lemma header_hide:
  assumes "packet st (Some a) (a # as)" and "0 < n" and "n \<le> blen st a" and "n < 32768"
    and "pb_type (ps_buf st a) \<in> {PBUF_RAM, PBUF_POOL} \<Longrightarrow> a + 20 \<le> pb_payload (ps_buf st a)"
  shows "pbuf_header (Some a) (- int n) st = Some (upd a (\<lambda>b. b\<lparr>pb_payload := pb_payload b + n,
    pb_len := pb_len b - n, pb_tot_len := pb_tot_len b - n\<rparr>) st, False)"
proof -
  have l: "ps_live st a" "pb_tot_len (ps_buf st a) = blen st a + total_len st as" "blen st a + total_len st as < 65536"
    using assms(1) by (auto simp: packet_def)
  have e: "nat ((int (blen st a) - int n) mod 65536) = blen st a - n"
    "nat ((int (pb_tot_len (ps_buf st a)) - int n) mod 65536) = pb_tot_len (ps_buf st a) - n"
    using assms(3) l by (auto intro!: nat_sub_mod)
  have "upd a (\<lambda>b. b\<lparr>pb_payload := nat (int (pb_payload (ps_buf st a)) + int n),
      pb_len := nat ((int (pb_len b) - int n) mod 65536), pb_tot_len := nat ((int (pb_tot_len b) - int n) mod 65536)\<rparr>) st
    = upd a (\<lambda>b. b\<lparr>pb_payload := pb_payload b + n, pb_len := pb_len b - n, pb_tot_len := pb_tot_len b - n\<rparr>) st"
    unfolding upd_def e by (simp add: nat_int_add)
  then show ?thesis
    using assms l by (cases "pb_type (ps_buf st a)") (auto simp: pbuf_header_def pbuf_header_impl_def Let_def)
qed

lemma header_reveal:
  assumes "ps_live st a" and "0 < n" and "n < 32768" and "pb_tot_len (ps_buf st a) + n < 65536"
    and "blen st a \<le> pb_tot_len (ps_buf st a)"
    and "pb_type (ps_buf st a) \<in> {PBUF_RAM, PBUF_POOL}" and "a + 20 + n \<le> pb_payload (ps_buf st a)"
  shows "pbuf_header (Some a) (int n) st = Some (upd a (\<lambda>b. b\<lparr>pb_payload := pb_payload b - n,
    pb_len := pb_len b + n, pb_tot_len := pb_tot_len b + n\<rparr>) st, False)"
proof -
  have e: "nat ((int (blen st a) + int n) mod 65536) = blen st a + n"
    "nat ((int (pb_tot_len (ps_buf st a)) + int n) mod 65536) = pb_tot_len (ps_buf st a) + n"
    using assms(4,5) by (auto intro!: nat_add_mod)
  have e': "nat (int (pb_payload (ps_buf st a)) - int n) = pb_payload (ps_buf st a) - n" by linarith
  have "upd a (\<lambda>b. b\<lparr>pb_payload := nat (int (pb_payload (ps_buf st a)) - int n),
      pb_len := nat ((int (pb_len b) + int n) mod 65536), pb_tot_len := nat ((int (pb_tot_len b) + int n) mod 65536)\<rparr>) st
    = upd a (\<lambda>b. b\<lparr>pb_payload := pb_payload b - n, pb_len := pb_len b + n, pb_tot_len := pb_tot_len b + n\<rparr>) st"
    unfolding upd_def e e' ..
  then show ?thesis
    using assms by (cases "pb_type (ps_buf st a)") (auto simp: pbuf_header_def pbuf_header_impl_def Let_def)
qed

section \<open>Ownership\<close>

text \<open>Which allocator a header came from.  The pools and the heap do not overlap, and a header that is
  in use is a used element of its pool, or the start of a used heap block, and conversely.\<close>

definition custom :: "pbuf \<Rightarrow> bool" where
  "custom b \<longleftrightarrow> pb_flags b AND PBUF_FLAG_IS_CUSTOM \<noteq> 0"

definition heap_area :: "pstate \<Rightarrow> nat set" where
  "heap_area st = {ps_ram st..<ps_ram st + 24000}"

definition holders :: "pstate \<Rightarrow> pbuf_type set \<Rightarrow> nat set" where
  "holders st T = {a. ps_live st a \<and> \<not> custom (ps_buf st a) \<and> pb_type (ps_buf st a) \<in> T}"

definition layout :: "pstate \<Rightarrow> bool" where
  "layout st \<longleftrightarrow> elements (ps_pool st) \<inter> elements (ps_refs st) = {} \<and>
     (elements (ps_pool st) \<union> elements (ps_refs st)) \<inter> heap_area st = {} \<and> mp_size (ps_pool st) = 1536 \<and> 4 dvd ps_ram st \<and>
     (\<forall>a. a \<in> elements (ps_pool st) \<longrightarrow> {a..<a + 1536} \<inter> heap_area st = {}) \<and>
     (\<forall>a. a \<in> elements (ps_pool st) \<longrightarrow> \<not> custom (ps_buf st a)) \<and>
     (\<forall>a. ps_live st a \<and> custom (ps_buf st a) \<longrightarrow>
        a \<notin> elements (ps_pool st) \<union> elements (ps_refs st) \<union> heap_area st)"

definition owned :: "pstate \<Rightarrow> bool" where
  "owned st \<longleftrightarrow> pool_wf (ps_pool st) \<and> pool_wf (ps_refs st) \<and> heap_wf (ps_heap st) \<and> layout st \<and>
     in_use (ps_pool st) = holders st {PBUF_POOL} \<and> in_use (ps_refs st) = holders st {PBUF_ROM, PBUF_REF} \<and>
     (\<forall>a. a \<in> holders st {PBUF_RAM} \<longrightarrow>
        ps_ram st \<le> a \<and> (\<exists>m. (int a - int (ps_ram st), m) \<in> live (ps_heap st)))"

lemma elements_free [simp]: "elements (do_memp_free_pool d x) = elements d"
  "mp_size (do_memp_free_pool d x) = mp_size d"
  by (auto simp: do_memp_free_pool_def elements_def element_def Let_def)

lemma elements_malloc:
  assumes "do_memp_malloc_pool d = (d', r)"
  shows "elements d' = elements d" and "mp_size d' = mp_size d" and "mp_num d' = mp_num d"
  using assms by (auto simp: do_memp_malloc_pool_def elements_def element_def Let_def split: option.splits if_splits)

lemma owned_upd:
  assumes "custom (f (ps_buf st a)) = custom (ps_buf st a)" and "pb_type (f (ps_buf st a)) = pb_type (ps_buf st a)"
  shows "owned (upd a f st) = owned st"
proof -
  have c: "custom (ps_buf (upd a f st) x) = custom (ps_buf st x)" for x using assms by simp
  have "holders (upd a f st) T = holders st T" for T
    using assms by (auto simp: holders_def)
  then show ?thesis by (simp add: owned_def layout_def heap_area_def c del: upd_simps(1))
qed

lemma pbuf_release_owned:
  assumes "owned st" and "ps_live st a" and "\<not> custom (ps_buf st a)"
  shows "owned (pbuf_release a (pb_type (ps_buf st a)) st)"
proof -
  define st' where "st' = pbuf_release a (pb_type (ps_buf st a)) st"
  have same: "ps_buf st' = ps_buf st" "ps_ram st' = ps_ram st" "ps_live st' x \<longleftrightarrow> ps_live st x \<and> x \<noteq> a"
    "elements (ps_pool st') = elements (ps_pool st)" "elements (ps_refs st') = elements (ps_refs st)"
    "mp_size (ps_pool st') = mp_size (ps_pool st)" for x
    by (auto simp: st'_def pbuf_release_def Let_def)
  have hold: "holders st' T = holders st T - {a}" for T by (auto simp: holders_def same)
  have lay: "layout st'" using assms(1) by (auto simp: owned_def layout_def heap_area_def same)
  note o = assms(1) [unfolded owned_def]
  have nh: "holders st T - {a} = holders st T" if "pb_type (ps_buf st a) \<notin> T" for T
    using that by (auto simp: holders_def)
  have ram: "a' \<in> holders st' {PBUF_RAM} \<Longrightarrow> ps_ram st' \<le> a' \<and> (\<exists>m. (int a' - int (ps_ram st'), m) \<in> live (ps_heap st))" for a'
    using o by (auto simp: hold same)
  show ?thesis unfolding st'_def [symmetric]
  proof (cases "pb_type (ps_buf st a)")
    case PBUF_RAM
    then obtain m where m: "(int a - int (ps_ram st), m) \<in> live (ps_heap st)" "ps_ram st \<le> a"
      using o assms(2,3) by (auto simp: holders_def)
    have h: "ps_heap st' = mem_free (Some (int a - int (ps_ram st))) (ps_heap st)" "ps_pool st' = ps_pool st" "ps_refs st' = ps_refs st"
      using PBUF_RAM by (simp_all add: st'_def pbuf_release_def Let_def)
    have wf: "heap_wf (ps_heap st')" "live (ps_heap st') = live (ps_heap st) - {(int a - int (ps_ram st), m)}"
      using ram_heap.release_wf [OF _ m(1)] ram_heap.release_owned [OF _ m(1)] o h(1) by simp_all
    have "a' \<in> holders st' {PBUF_RAM} \<Longrightarrow> ps_ram st' \<le> a' \<and> (\<exists>m. (int a' - int (ps_ram st'), m) \<in> live (ps_heap st'))" for a'
      using ram [of a'] wf(2) hold by (auto simp: same)
    with wf(1) lay o show "owned st'" unfolding owned_def h hold using nh PBUF_RAM by auto
  next
    case PBUF_POOL
    then have u: "a \<in> in_use (ps_pool st)" using o assms(2,3) by (simp add: holders_def)
    have h: "ps_heap st' = ps_heap st" "ps_pool st' = do_memp_free_pool (ps_pool st) a" "ps_refs st' = ps_refs st"
      using PBUF_POOL by (simp_all add: st'_def pbuf_release_def Let_def)
    then show "owned st'"
      using free_pool_wf(1,2) [OF _ u] o lay ram nh PBUF_POOL unfolding owned_def hold by auto
  next
    case PBUF_ROM
    then have u: "a \<in> in_use (ps_refs st)" using o assms(2,3) by (simp add: holders_def)
    have h: "ps_heap st' = ps_heap st" "ps_refs st' = do_memp_free_pool (ps_refs st) a" "ps_pool st' = ps_pool st"
      using PBUF_ROM by (simp_all add: st'_def pbuf_release_def Let_def)
    then show "owned st'"
      using free_pool_wf(1,2) [OF _ u] o lay ram nh PBUF_ROM unfolding owned_def hold by auto
  next
    case PBUF_REF
    then have u: "a \<in> in_use (ps_refs st)" using o assms(2,3) by (simp add: holders_def)
    have h: "ps_heap st' = ps_heap st" "ps_refs st' = do_memp_free_pool (ps_refs st) a" "ps_pool st' = ps_pool st"
      using PBUF_REF by (simp_all add: st'_def pbuf_release_def Let_def)
    then show "owned st'"
      using free_pool_wf(1,2) [OF _ u] o lay ram nh PBUF_REF unfolding owned_def hold by auto
  qed
qed

lemma release_frame [simp]:
  "ps_buf (pbuf_release a t st) = ps_buf st" "ps_bytes (pbuf_release a t st) = ps_bytes st"
  "ps_live (pbuf_release a t st) = (ps_live st)(a := False)"
  by (simp_all add: pbuf_release_def Let_def)

text \<open>What an operation keeps: the payload bytes, and the heap blocks of the headers that stay in use.\<close>

definition kept :: "pstate \<Rightarrow> pstate \<Rightarrow> bool" where
  "kept st st' \<longleftrightarrow> ps_bytes st' = ps_bytes st \<and> ps_ram st' = ps_ram st \<and>
     (\<forall>x m. ps_live st x \<longrightarrow> ps_live st' x \<longrightarrow>
        ((int x - int (ps_ram st), m) \<in> live (ps_heap st') \<longleftrightarrow> (int x - int (ps_ram st), m) \<in> live (ps_heap st)))"

lemma kept_refl [simp]: "kept st st"
  by (simp add: kept_def)

lemma kept_trans:
  assumes "kept st st1" and "kept st1 st2" and "\<And>x. ps_live st x \<Longrightarrow> ps_live st2 x \<Longrightarrow> ps_live st1 x"
  shows "kept st st2"
  using assms by (auto simp: kept_def)

lemma kept_same_heap:
  "ps_bytes st' = ps_bytes st \<Longrightarrow> ps_ram st' = ps_ram st \<Longrightarrow> ps_heap st' = ps_heap st \<Longrightarrow> kept st st'"
  by (simp add: kept_def)

lemma kept_upd [simp]: "kept st (upd a f st') = kept st st'"
  by (simp add: kept_def upd_def)

lemma release_kept:
  assumes "owned st" and "ps_live st a" and "\<not> custom (ps_buf st a)"
  shows "kept st (pbuf_release a (pb_type (ps_buf st a)) st)"
proof (cases "pb_type (ps_buf st a) = PBUF_RAM")
  case True
  then obtain m where m: "(int a - int (ps_ram st), m) \<in> live (ps_heap st)"
    using assms by (auto simp: owned_def holders_def)
  have "heap_wf (ps_heap st)" using assms(1) by (simp add: owned_def)
  with True ram_heap.release_owned [OF this m] show ?thesis
    by (auto simp: kept_def pbuf_release_def Let_def)
qed (use assms(2) in \<open>cases "pb_type (ps_buf st a)"; simp add: kept_def pbuf_release_def Let_def\<close>)

lemma release_pool_heap [simp]: "ps_heap (pbuf_release a PBUF_POOL st) = ps_heap st"
  by (simp add: pbuf_release_def Let_def)

section \<open>Freeing a chain\<close>

definition freed :: "pstate \<Rightarrow> nat list \<Rightarrow> nat" where
  "freed st as = length (takeWhile (\<lambda>a. pb_ref (ps_buf st a) = 1) as)"

definition after_free :: "pstate \<Rightarrow> nat list \<Rightarrow> pstate \<Rightarrow> bool" where
  "after_free st as st' \<longleftrightarrow>
     (\<forall>x. ps_live st' x \<longleftrightarrow> ps_live st x \<and> x \<notin> set (take (freed st as) as)) \<and>
     (\<forall>x. x \<notin> set (take (Suc (freed st as)) as) \<longrightarrow> ps_buf st' x = ps_buf st x) \<and>
     (freed st as < length as \<longrightarrow> ps_buf st' (as ! freed st as) =
        (ps_buf st (as ! freed st as))\<lparr>pb_ref := pb_ref (ps_buf st (as ! freed st as)) - 1\<rparr>) \<and>
     kept st st' \<and> ((\<forall>a. a \<in> set as \<longrightarrow> pb_type (ps_buf st a) = PBUF_POOL) \<longrightarrow> ps_heap st' = ps_heap st)"

lemma free_loop_result:
  assumes "chain st p as" and "owned st"
    and "\<And>a. a \<in> set as \<Longrightarrow> \<not> custom (ps_buf st a) \<and> 0 < pb_ref (ps_buf st a) \<and> pb_ref (ps_buf st a) < 65536"
    and "c < 256"
  shows "\<exists>st'. free_loop cfree c p st = Some (st', to_u8 (c + freed st as)) \<and> after_free st as st' \<and> owned st'"
  using assms
proof (induction as arbitrary: p st c)
  case Nil
  then show ?case by (subst free_loop.simps) (simp add: freed_def after_free_def to_u8_id)
next
  case (Cons a as)
  have p: "p = Some a" "ps_live st a" "chain st (pb_next (ps_buf st a)) as" using Cons.prems by auto
  have a: "\<not> custom (ps_buf st a)" "0 < pb_ref (ps_buf st a)" "pb_ref (ps_buf st a) < 65536"
    using Cons.prems(3) by auto
  have d: "a \<notin> set as" using chain_distinct [OF Cons.prems(1)] by simp
  have ref: "sub_u16 (pb_ref (ps_buf st a)) 1 = pb_ref (ps_buf st a) - 1" using a by (simp add: sub_u16_le)
  show ?case
  proof (cases "pb_ref (ps_buf st a) = 1")
    case True
    define st0 where "st0 = upd a (\<lambda>b. b\<lparr>pb_ref := 0\<rparr>) st"
    define st1 where "st1 = pbuf_release a (pb_type (ps_buf st a)) st0"
    have buf: "ps_buf st1 x = ps_buf st x" if "x \<noteq> a" for x using that by (simp add: st1_def st0_def)
    have buf': "ps_buf st1 x = ps_buf st x" "x \<noteq> a" if "x \<in> set as" for x using that buf d by metis+
    have live: "ps_live st1 x \<longleftrightarrow> ps_live st x \<and> x \<noteq> a" for x by (simp add: st1_def st0_def)
    have "owned st0" using Cons.prems(2) owned_upd [of "\<lambda>b. b\<lparr>pb_ref := 0\<rparr>" st a] by (simp add: st0_def custom_def)
    then have "owned st1"
      using pbuf_release_owned [of st0 a] p(2) a(1) unfolding st1_def by (simp add: st0_def custom_def)
    moreover have "chain st1 (pb_next (ps_buf st a)) as"
      using p(3) buf' live by (subst chain_cong [of as st1 st]) simp_all
    ultimately obtain st' where s: "free_loop cfree (to_u8 (c + 1)) (pb_next (ps_buf st a)) st1 =
        Some (st', to_u8 (to_u8 (c + 1) + freed st1 as))" "after_free st1 as st'" "owned st'"
      using Cons.IH [of st1 "pb_next (ps_buf st a)" "to_u8 (c + 1)"] Cons.prems(3) buf'
      by (simp add: to_u8_def) blast
    have fr: "freed st1 as = freed st as" unfolding freed_def
      using buf' by (intro arg_cong [where f = length] takeWhile_cong) auto
    have "free_loop cfree c p st = free_loop cfree (to_u8 (c + 1)) (pb_next (ps_buf st a)) st1"
      using p a ref True by (subst free_loop.simps) (simp add: custom_def st1_def st0_def)
    moreover have "to_u8 (to_u8 (c + 1) + freed st1 as) = to_u8 (c + freed st (a # as))"
      using True fr by (simp add: freed_def to_u8_def mod_add_left_eq)
    moreover have "after_free st (a # as) st'"
    proof -
      have f: "freed st (a # as) = Suc (freed st as)" using True by (simp add: freed_def)
      have "kept st0 st1" unfolding st1_def
        using release_kept [of st0 a] \<open>owned st0\<close> p(2) a(1) by (simp add: st0_def custom_def)
      then have "kept st st1" by (simp add: st0_def kept_def)
      moreover have "kept st1 st'" "ps_live st' x \<Longrightarrow> ps_live st1 x" for x using s(2) by (simp_all add: after_free_def)
      ultimately have k: "kept st st'" by (rule kept_trans)
      have h: "ps_heap st' = ps_heap st" if "\<And>x. x \<in> set (a # as) \<Longrightarrow> pb_type (ps_buf st x) = PBUF_POOL"
      proof -
        have "ps_heap st1 = ps_heap st" using that [of a] by (simp add: st1_def st0_def)
        moreover have "ps_heap st' = ps_heap st1" using s(2) that buf'(1) unfolding after_free_def by simp
        ultimately show ?thesis by simp
      qed
      have "freed st as < length as \<Longrightarrow> as ! freed st as \<noteq> a" using d nth_mem by metis
      then show ?thesis
        using s(2) k h unfolding after_free_def f fr using live buf by (auto simp: st1_def st0_def)
    qed
    ultimately show ?thesis using s by simp
  next
    case False
    then have "free_loop cfree c p st = Some (upd a (\<lambda>b. b\<lparr>pb_ref := pb_ref (ps_buf st a) - 1\<rparr>) st, c)"
      using p a ref by (subst free_loop.simps) simp
    moreover have "owned (upd a (\<lambda>b. b\<lparr>pb_ref := pb_ref (ps_buf st a) - 1\<rparr>) st)"
      using Cons.prems(2) by (simp add: owned_upd custom_def)
    moreover have "freed st (a # as) = 0" using False by (simp add: freed_def)
    ultimately show ?thesis
      using Cons.prems(4) by (simp add: after_free_def to_u8_id)
  qed
qed

section \<open>Allocating from the pool\<close>

lemma malloc_pool_elements: "pool_wf d \<Longrightarrow> do_memp_malloc_pool d = (d', Some q) \<Longrightarrow> q \<in> elements d \<and> q \<notin> in_use d \<and> pool_wf d' \<and> in_use d' = insert q (in_use d)"
  using malloc_pool_wf(1,3) [of d d' "Some q"] by simp

lemma owned_home:
  assumes "owned st" and "ps_live st a" and "a \<in> elements (ps_pool st)"
  shows "a \<in> in_use (ps_pool st)"
proof -
  note o = assms(1) [unfolded owned_def layout_def]
  have c: "\<not> custom (ps_buf st a)" using o assms(3) by blast
  show ?thesis
  proof (cases "pb_type (ps_buf st a)")
    case PBUF_RAM
    then have "a \<in> holders st {PBUF_RAM}" using c assms(2) by (simp add: holders_def)
    then obtain m where m: "(int a - int (ps_ram st), m) \<in> live (ps_heap st)" "ps_ram st \<le> a" using o by blast
    then have "a \<in> heap_area st" using live_bounds [of "ps_heap st" _ m] o by (fastforce simp: heap_area_def)
    then show ?thesis using o assms(3) by blast
  next
    case PBUF_POOL
    then show ?thesis using o c assms(2) by (simp add: holders_def)
  next
    case PBUF_ROM
    then have "a \<in> in_use (ps_refs st)" using o c assms(2) by (simp add: holders_def)
    then show ?thesis using o assms(3) by (auto simp: in_use_def)
  next
    case PBUF_REF
    then have "a \<in> in_use (ps_refs st)" using o c assms(2) by (simp add: holders_def)
    then show ?thesis using o assms(3) by (auto simp: in_use_def)
  qed
qed

lemma owned_take_pool:
  assumes "owned st" and "do_memp_malloc_pool (ps_pool st) = (pool, Some q)"
    and "pb_type (f (ps_buf st q)) = PBUF_POOL" and "\<not> custom (f (ps_buf st q))"
  shows "owned (upd q f (st\<lparr>ps_pool := pool, ps_live := (ps_live st)(q := True)\<rparr>))"
    and "\<not> ps_live st q" and "q \<in> elements (ps_pool st)"
proof -
  note o = assms(1) [unfolded owned_def]
  have q: "q \<in> elements (ps_pool st)" "q \<notin> in_use (ps_pool st)" "pool_wf pool" "in_use pool = insert q (in_use (ps_pool st))"
    using malloc_pool_elements [OF _ assms(2)] o by auto
  note e = elements_malloc [OF assms(2)]
  show nl: "\<not> ps_live st q" using owned_home [OF assms(1)] q by blast
  show "q \<in> elements (ps_pool st)" by (rule q(1))
  define st' where "st' = upd q f (st\<lparr>ps_pool := pool, ps_live := (ps_live st)(q := True)\<rparr>)"
  have buf: "ps_buf st' x = (if x = q then f (ps_buf st q) else ps_buf st x)" "ps_live st' x = (x = q \<or> ps_live st x)"
    "ps_pool st' = pool" "ps_refs st' = ps_refs st" "ps_heap st' = ps_heap st" "ps_ram st' = ps_ram st" for x
    by (auto simp: st'_def)
  have hold: "holders st' T = (if PBUF_POOL \<in> T then insert q (holders st T) else holders st T)" for T
    using nl assms(3,4) by (auto simp: holders_def buf)
  have "layout st'"
    using o assms(4) e nl unfolding layout_def heap_area_def buf by auto
  then show "owned st'"
    using o q unfolding owned_def buf hold by auto
qed

fun tot_plus :: "pstate \<Rightarrow> nat \<Rightarrow> nat list \<Rightarrow> bool" where
  "tot_plus st n [] = True"
| "tot_plus st n (a # as) = (pb_tot_len (ps_buf st a) = total_len st (a # as) + n \<and> tot_plus st n as)"

lemma tot_plus_0: "tot_plus st 0 as = tot_ok st as"
  by (induction as) auto

definition pool_pbuf :: "pstate \<Rightarrow> nat \<Rightarrow> bool" where
  "pool_pbuf st a \<longleftrightarrow> \<not> custom (ps_buf st a) \<and> pb_ref (ps_buf st a) = 1 \<and> pb_type (ps_buf st a) = PBUF_POOL \<and>
     a + 20 \<le> pb_payload (ps_buf st a) \<and> pb_payload (ps_buf st a) + blen st a \<le> a + 1536"

lemma tot_plus_snoc:
  assumes "tot_plus st (n + k) as" and "blen st' q = n" and "pb_tot_len (ps_buf st' q) = n + k" and "q \<notin> set as"
    and "\<And>x. x \<in> set as \<Longrightarrow> blen st' x = blen st x \<and> pb_tot_len (ps_buf st' x) = pb_tot_len (ps_buf st x)"
  shows "tot_plus st' k (as @ [q])"
  using assms(1,4,5)
proof (induction as)
  case (Cons a as)
  have "total_len st' as = total_len st as" using Cons.prems by (intro total_len_cong) auto
  then show ?case using Cons assms(2) by simp
qed (use assms(2,3) in simp)

text \<open>What the loop over the rest of the chain has done: on success the chain \<open>as\<close> is extended by
  fresh pbufs to the requested length, otherwise \<open>as\<close> is freed.\<close>

definition tail_done :: "pstate \<Rightarrow> nat \<Rightarrow> nat list \<Rightarrow> nat \<Rightarrow> pstate \<Rightarrow> bool \<Rightarrow> bool" where
  "tail_done st p as rem st' ok \<longleftrightarrow> owned st' \<and> ps_bytes st' = ps_bytes st \<and> ps_ram st' = ps_ram st \<and> ps_heap st' = ps_heap st \<and>
    (if ok then \<exists>bs. chain st' (Some p) (as @ bs) \<and> tot_ok st' (as @ bs) \<and>
         total_len st' (as @ bs) = total_len st as + rem \<and> (\<forall>a. a \<in> set (as @ bs) \<longrightarrow> pool_pbuf st' a) \<and>
         (\<forall>x. ps_live st' x \<longleftrightarrow> ps_live st x \<or> x \<in> set bs) \<and> (\<forall>x. x \<in> set bs \<longrightarrow> \<not> ps_live st x) \<and>
         (\<forall>x. x \<notin> set (as @ bs) \<longrightarrow> ps_buf st' x = ps_buf st x) \<and>
         (\<forall>x. x \<in> set as \<longrightarrow> blen st' x = blen st x \<and> pb_payload (ps_buf st' x) = pb_payload (ps_buf st x)) \<and>
         (\<forall>x. x \<in> set bs \<longrightarrow> 0 < blen st' x)
     else (\<forall>x. ps_live st' x \<longleftrightarrow> ps_live st x \<and> x \<notin> set as) \<and>
       (\<forall>x. ps_live st x \<and> x \<notin> set as \<longrightarrow> ps_buf st' x = ps_buf st x))"

definition building :: "pstate \<Rightarrow> nat \<Rightarrow> nat list \<Rightarrow> nat \<Rightarrow> bool" where
  "building st p as rem \<longleftrightarrow> owned st \<and> chain st (Some p) as \<and> as \<noteq> [] \<and> tot_plus st rem as \<and> rem < 65536 \<and>
     (\<forall>a. a \<in> set as \<longrightarrow> pool_pbuf st a)"

lemma alloc_tail_empty:
  assumes "building st p as rem" and "0 < rem" and "do_memp_malloc_pool (ps_pool st) = (pool, None)"
  shows "\<exists>st'. alloc_tail cfree p (last as) rem st = Some (st', False) \<and> tail_done st p as rem st' False"
proof -
  note b = assms(1) [unfolded building_def]
  define st1 where "st1 = pbuf_pool_is_empty (st\<lparr>ps_pool := pool\<rparr>)"
  have f: "ps_buf st1 = ps_buf st" "ps_live st1 = ps_live st" "ps_bytes st1 = ps_bytes st" "ps_ram st1 = ps_ram st"
    "ps_heap st1 = ps_heap st" by (simp_all add: st1_def pbuf_pool_is_empty_def)
  have "owned st1"
    using b memp_pool.get_None [OF _ assms(3)] elements_malloc [OF assms(3)]
    unfolding owned_def layout_def holders_def heap_area_def by (simp add: st1_def pbuf_pool_is_empty_def)
  moreover have "chain st1 (Some p) as" using b f by (subst chain_cong [of as st1 st]) auto
  moreover have "\<not> custom (ps_buf st1 a) \<and> 0 < pb_ref (ps_buf st1 a) \<and> pb_ref (ps_buf st1 a) < 65536" if "a \<in> set as" for a
    using b that by (simp add: pool_pbuf_def f)
  ultimately obtain st' where s: "free_loop cfree 0 (Some p) st1 = Some (st', to_u8 (0 + freed st1 as))"
      "after_free st1 as st'" "owned st'"
    using free_loop_result [of st1 "Some p" as 0 cfree] by auto
  have "freed st1 as = length as"
    using b by (simp add: freed_def f pool_pbuf_def takeWhile_eq_all_conv [THEN iffD2])
  then have "tail_done st p as rem st' False"
    using s(2,3) b by (simp add: after_free_def f tail_done_def kept_def pool_pbuf_def)
  moreover have "alloc_tail cfree p (last as) rem st = Some (st', False)"
    using assms(2,3) s(1) by (subst alloc_tail.simps) (simp add: pbuf_free_def st1_def)
  ultimately show ?thesis by blast
qed

lemma alloc_tail_step:
  assumes "building st p as rem" and "0 < rem" and "do_memp_malloc_pool (ps_pool st) = (pool, Some q)"
  shows "\<exists>st'. alloc_tail cfree p (last as) rem st = alloc_tail cfree p q (rem - min rem 1516) st' \<and>
    building st' p (as @ [q]) (rem - min rem 1516) \<and> \<not> ps_live st q \<and> total_len st' as = total_len st as \<and> blen st' q = min rem 1516 \<and>
    (\<forall>x. ps_live st' x = (x = q \<or> ps_live st x)) \<and> (\<forall>x. x \<notin> set (as @ [q]) \<longrightarrow> ps_buf st' x = ps_buf st x) \<and>
    (\<forall>x. x \<in> set as \<longrightarrow> blen st' x = blen st x \<and> pb_payload (ps_buf st' x) = pb_payload (ps_buf st x)) \<and>
    ps_bytes st' = ps_bytes st \<and> ps_ram st' = ps_ram st \<and> ps_heap st' = ps_heap st"
proof -
  note b = assms(1) [unfolded building_def]
  define r where "r = last as"
  define n where "n = min rem 1516"
  let ?f = "\<lambda>b. b\<lparr>pb_type := PBUF_POOL, pb_flags := 0, pb_next := None\<rparr>"
  define st1 where "st1 = upd q ?f (st\<lparr>ps_pool := pool, ps_live := (ps_live st)(q := True)\<rparr>)"
  define st2 where "st2 = upd q (\<lambda>b. b\<lparr>pb_tot_len := rem, pb_len := n, pb_payload := q + 20, pb_ref := 1\<rparr>)
    (upd r (\<lambda>b. b\<lparr>pb_next := Some q\<rparr>) st1)"
  have o: "owned st1" "\<not> ps_live st q" "q \<in> elements (ps_pool st)"
    using owned_take_pool [OF _ assms(3), of ?f] b by (simp_all add: st1_def custom_def)
  then have o2: "owned st2" by (simp add: st2_def owned_upd custom_def)
  have q: "x \<noteq> q" if "x \<in> set as" for x using that o(2) b chain_live by blast
  have r: "r \<in> set as" "r \<noteq> q" using b q by (auto simp: r_def)
  have live: "ps_live st2 x = (x = q \<or> ps_live st x)" for x by (simp add: st2_def st1_def)
  have buf: "ps_buf st2 x = (if x = r then (ps_buf st r)\<lparr>pb_next := Some q\<rparr> else ps_buf st x)" if "x \<noteq> q" for x
    using that r(2) by (simp add: st2_def st1_def)
  have same: "blen st2 x = blen st x" "pb_tot_len (ps_buf st2 x) = pb_tot_len (ps_buf st x)"
    "pb_payload (ps_buf st2 x) = pb_payload (ps_buf st x)" "pool_pbuf st2 x = pool_pbuf st x" if "x \<in> set as" for x
    using buf [OF q [OF that]] by (simp_all add: pool_pbuf_def custom_def)
  have bq: "pb_next (ps_buf st2 q) = None" "pb_tot_len (ps_buf st2 q) = rem" "blen st2 q = n" "pool_pbuf st2 q"
    using r(2) by (auto simp: st2_def st1_def pool_pbuf_def custom_def n_def)
  have "chain st2 (Some q) [q]" using bq(1) live by simp
  then have "chain st2 (Some p) (as @ [q])"
    using b live buf q by (intro chain_link [of st _ as]) (auto simp: r_def)
  moreover have "tot_plus st2 (rem - n) (as @ [q])"
  proof (rule tot_plus_snoc [of st n])
    show "tot_plus st (n + (rem - n)) as" "pb_tot_len (ps_buf st2 q) = n + (rem - n)" using b bq by (simp_all add: n_def)
  qed (use bq q same in auto)
  ultimately have "building st2 p (as @ [q]) (rem - n)"
    using o2 b bq(4) same(4) unfolding building_def by auto
  moreover have "alloc_tail cfree p (last as) rem st = alloc_tail cfree p q (rem - n) st2"
    using assms(2,3) b by (subst alloc_tail.simps) (simp add: to_u16_id n_def st2_def st1_def r_def Let_def)
  moreover have "total_len st2 as = total_len st as" using same(1) by (intro total_len_cong) auto
  moreover have "ps_buf st2 x = ps_buf st x" if "x \<notin> set (as @ [q])" for x using buf [of x] that r(1) by auto
  moreover have "ps_bytes st2 = ps_bytes st" "ps_ram st2 = ps_ram st" "ps_heap st2 = ps_heap st"
    by (simp_all add: st2_def st1_def upd_def)
  ultimately show ?thesis using o(2) live bq(3) same(1,3) unfolding n_def by (intro exI [of _ st2]) auto
qed

lemma alloc_tail_result:
  assumes "building st p as rem"
  shows "\<exists>st' ok. alloc_tail cfree p (last as) rem st = Some (st', ok) \<and> tail_done st p as rem st' ok"
  using assms
proof (induction rem arbitrary: st as rule: less_induct)
  case (less rem)
  note b = less.prems [unfolded building_def]
  show ?case
  proof (cases "rem = 0")
    case True
    then have "alloc_tail cfree p (last as) rem st = Some (st, True)" by (subst alloc_tail.simps) simp
    moreover have "tail_done st p as rem st True"
      using b True unfolding tail_done_def by (auto simp: tot_plus_0 intro!: exI [of _ "[]"])
    ultimately show ?thesis by blast
  next
    case False
    obtain pool r where m: "do_memp_malloc_pool (ps_pool st) = (pool, r)" by fastforce
    show ?thesis
    proof (cases r)
      case None
      then show ?thesis using alloc_tail_empty [OF less.prems _ m [unfolded None]] False by blast
    next
      case (Some q)
      then obtain st1 where s: "alloc_tail cfree p (last as) rem st = alloc_tail cfree p q (rem - min rem 1516) st1"
        "building st1 p (as @ [q]) (rem - min rem 1516)" "\<not> ps_live st q" "total_len st1 as = total_len st as" "blen st1 q = min rem 1516"
        "\<And>x. ps_live st1 x = (x = q \<or> ps_live st x)" "\<And>x. x \<notin> set (as @ [q]) \<Longrightarrow> ps_buf st1 x = ps_buf st x"
        "ps_bytes st1 = ps_bytes st" "ps_ram st1 = ps_ram st" "ps_heap st1 = ps_heap st"
        "\<And>x. x \<in> set as \<Longrightarrow> blen st1 x = blen st x \<and> pb_payload (ps_buf st1 x) = pb_payload (ps_buf st x)"
        using alloc_tail_step [OF less.prems _ m [unfolded Some]] False by blast
      have "rem - min rem 1516 < rem" using False by simp
      from less.IH [OF this s(2)] obtain st' ok where
        t: "alloc_tail cfree p q (rem - min rem 1516) st1 = Some (st', ok)" "tail_done st1 p (as @ [q]) (rem - min rem 1516) st' ok"
        by auto
      have nq: "q \<notin> set as" using s(3) b chain_live by blast
      have "tail_done st p as rem st' ok"
      proof (cases ok)
        case True
        then have ok: "ok = True" by simp
        obtain bs where bs: "chain st' (Some p) (as @ [q] @ bs)" "tot_ok st' (as @ [q] @ bs)"
          "total_len st' (as @ [q] @ bs) = total_len st1 (as @ [q]) + (rem - min rem 1516)"
          "\<And>a. a \<in> set (as @ [q] @ bs) \<Longrightarrow> pool_pbuf st' a" "\<And>x. ps_live st' x \<longleftrightarrow> ps_live st1 x \<or> x \<in> set bs"
          "\<And>x. x \<in> set bs \<Longrightarrow> \<not> ps_live st1 x" "\<And>x. x \<notin> set (as @ [q] @ bs) \<Longrightarrow> ps_buf st' x = ps_buf st1 x" "owned st'"
          "ps_bytes st' = ps_bytes st1" "ps_ram st' = ps_ram st1" "ps_heap st' = ps_heap st1"
          "\<And>x. x \<in> set (as @ [q]) \<Longrightarrow> blen st' x = blen st1 x \<and> pb_payload (ps_buf st' x) = pb_payload (ps_buf st1 x)"
          "\<And>x. x \<in> set bs \<Longrightarrow> 0 < blen st' x"
          using t(2) [unfolded tail_done_def ok if_True append_assoc] by blast
        have "0 < blen st' q" using bs(12) [of q] s(5) False by simp
        show ?thesis
          unfolding tail_done_def using True bs s \<open>0 < blen st' q\<close> by (auto intro!: exI [of _ "q # bs"])
      next
        case False
        then show ?thesis using t(2) s(3,6-10) nq unfolding tail_done_def by auto
      qed
      then show ?thesis using s(1) t(1) by auto
    qed
  qed
qed

lemma layer_offset_bound: "layer_offset layer \<le> 56" "4 dvd layer_offset layer"
  "align_size (layer_offset layer) = layer_offset layer"
  by (cases layer; simp add: align_size_def LWIP_MEM_ALIGN_SIZE_def)+

lemma mem_align_dvd: "4 dvd a \<Longrightarrow> LWIP_MEM_ALIGN a = a"
  by (auto simp: LWIP_MEM_ALIGN_def elim!: dvdE)

lemma element_dvd: "mp_size d = 1536 \<Longrightarrow> a \<in> elements d \<Longrightarrow> 4 dvd a"
  by (auto simp: elements_def element_def LWIP_MEM_ALIGN_def)

text \<open>A successful allocation: a packet of fresh headers, each referenced once; nothing else changes.\<close>

definition allocated :: "pstate \<Rightarrow> nat \<Rightarrow> pstate \<Rightarrow> nat \<Rightarrow> nat list \<Rightarrow> bool" where
  "allocated st plen st' p as \<longleftrightarrow> packet st' (Some p) as \<and> total_len st' as = plen \<and>
     (\<forall>a. a \<in> set as \<longrightarrow> \<not> ps_live st a \<and> pb_ref (ps_buf st' a) = 1 \<and> \<not> custom (ps_buf st' a)) \<and>
     (\<forall>x. ps_live st' x \<longleftrightarrow> ps_live st x \<or> x \<in> set as) \<and> (\<forall>x. ps_live st x \<longrightarrow> ps_buf st' x = ps_buf st x) \<and> kept st st'"

definition unchanged :: "pstate \<Rightarrow> pstate \<Rightarrow> bool" where
  "unchanged st st' \<longleftrightarrow> ps_live st' = ps_live st \<and> (\<forall>x. ps_live st x \<longrightarrow> ps_buf st' x = ps_buf st x) \<and> kept st st'"

lemma alloc_pool_result:
  assumes "owned st" and "plen < 65536"
  shows "\<exists>st' r. alloc_pool cfree (layer_offset layer) plen st = Some (st', r) \<and> owned st' \<and>
    (case r of None \<Rightarrow> unchanged st st'
     | Some p \<Rightarrow> \<exists>as. allocated st plen st' p as \<and> (\<forall>a. a \<in> set as \<longrightarrow> pool_pbuf st' a) \<and>
         pb_payload (ps_buf st' p) = p + 20 + layer_offset layer \<and> blen st' p = min plen (1516 - layer_offset layer) \<and>
         (\<forall>a. a \<in> set (tl as) \<longrightarrow> 0 < blen st' a))"
proof -
  define off where "off = layer_offset layer"
  note off = layer_offset_bound [of layer, folded off_def]
  obtain pool r where m: "do_memp_malloc_pool (ps_pool st) = (pool, r)" by fastforce
  show ?thesis
  proof (cases r)
    case None
    have "owned (pbuf_pool_is_empty (st\<lparr>ps_pool := pool\<rparr>))"
      using assms(1) memp_pool.get_None [OF _ m [unfolded None]] elements_malloc [OF m]
      unfolding owned_def layout_def holders_def heap_area_def by (simp add: pbuf_pool_is_empty_def)
    then show ?thesis
      using m None by (simp add: alloc_pool_def unchanged_def pbuf_pool_is_empty_def kept_def)
  next
    case (Some p)
    define n where "n = min plen (1516 - off)"
    let ?f = "\<lambda>b. b\<lparr>pb_type := PBUF_POOL, pb_next := None, pb_payload := LWIP_MEM_ALIGN (p + (20 + off)),
       pb_tot_len := plen, pb_len := n, pb_ref := 1\<rparr>"
    define st1 where "st1 = upd p ?f (st\<lparr>ps_pool := pool, ps_live := (ps_live st)(p := True)\<rparr>)"
    have "p \<in> elements (ps_pool st)" using malloc_pool_elements [OF _ m [unfolded Some]] assms(1) by (simp add: owned_def)
    then have p: "\<not> custom (ps_buf st p)" "4 dvd p"
      using assms(1) element_dvd [of "ps_pool st" p] by (auto simp: owned_def layout_def)
    have o: "owned st1" "\<not> ps_live st p"
      using owned_take_pool [OF assms(1) m [unfolded Some], of ?f] p(1) by (simp_all add: st1_def custom_def)
    have pay: "LWIP_MEM_ALIGN (p + (20 + off)) = p + (20 + off)" using p(2) off(2) by (intro mem_align_dvd) auto
    have c: "chain st1 (Some p) [p]" by (simp add: st1_def)
    have "building st1 p [p] (plen - n)"
      using o p(1) off c assms(2) pay by (auto simp: building_def pool_pbuf_def st1_def custom_def n_def)
    from alloc_tail_result [OF this, of cfree] obtain st2 ok where
      t: "alloc_tail cfree p p (plen - n) st1 = Some (st2, ok)" "tail_done st1 p [p] (plen - n) st2 ok" by auto
    have eq: "alloc_pool cfree off plen st =
        Some (if ok then (upd p (\<lambda>b. b\<lparr>pb_ref := 1, pb_flags := 0\<rparr>) st2, Some p) else (st2, None))"
      using m Some t(1) off(3) by (simp add: alloc_pool_def st1_def n_def Let_def)
    have live1: "ps_live st1 x = (x = p \<or> ps_live st x)" "x \<noteq> p \<Longrightarrow> ps_buf st1 x = ps_buf st x" for x by (auto simp: st1_def)
    show ?thesis
    proof (cases ok)
      case True
      then have ok: "ok = True" by simp
      obtain bs where bs: "chain st2 (Some p) (p # bs)" "tot_ok st2 (p # bs)" "total_len st2 (p # bs) = total_len st1 [p] + (plen - n)"
        "\<And>a. a \<in> set (p # bs) \<Longrightarrow> pool_pbuf st2 a" "\<And>x. ps_live st2 x \<longleftrightarrow> ps_live st1 x \<or> x \<in> set bs"
        "\<And>x. x \<in> set bs \<Longrightarrow> \<not> ps_live st1 x" "\<And>x. x \<notin> set (p # bs) \<Longrightarrow> ps_buf st2 x = ps_buf st1 x" "owned st2"
        "ps_bytes st2 = ps_bytes st1" "ps_ram st2 = ps_ram st1" "ps_heap st2 = ps_heap st1"
        "\<And>x. x \<in> set [p] \<Longrightarrow> blen st2 x = blen st1 x \<and> pb_payload (ps_buf st2 x) = pb_payload (ps_buf st1 x)"
        "\<And>x. x \<in> set bs \<Longrightarrow> 0 < blen st2 x"
        using t(2) [unfolded tail_done_def ok if_True append_Cons append_Nil] by blast
      define st3 where "st3 = upd p (\<lambda>b. b\<lparr>pb_ref := 1, pb_flags := 0\<rparr>) st2"
      have s3: "blen st3 x = blen st2 x" "pb_tot_len (ps_buf st3 x) = pb_tot_len (ps_buf st2 x)"
        "pb_next (ps_buf st3 x) = pb_next (ps_buf st2 x)" "ps_live st3 x = ps_live st2 x" for x by (simp_all add: st3_def)
      have pp: "pool_pbuf st3 a" if "a \<in> set (p # bs)" for a
        using bs(4) [OF that] by (auto simp: st3_def pool_pbuf_def custom_def)
      have "\<not> custom (ps_buf st2 p)" using bs(4) [of p] by (simp add: pool_pbuf_def)
      then have "owned st3" using bs(8) by (simp add: st3_def owned_upd custom_def)
      moreover have "total_len st3 (p # bs) = plen"
        using bs(3) total_len_cong [of "p # bs" st3 st2] s3(1) by (simp add: n_def st1_def)
      moreover have "chain st3 (Some p) (p # bs)" "tot_ok st3 (p # bs)"
        using bs(1,2) s3 chain_cong [of "p # bs" st3 st2 "Some p"] tot_ok_cong [of "p # bs" st3 st2] by simp_all
      moreover have "kept st st3" using bs(9-11) by (simp add: st3_def) (simp add: kept_def st1_def upd_def)
      ultimately have "allocated st plen st3 p (p # bs)"
        unfolding allocated_def packet_def
        using assms(2) pp bs(5,6,7) live1 o(2) s3(4) by (auto simp: pool_pbuf_def st3_def)
      moreover have "pb_payload (ps_buf st3 p) = p + 20 + off" "blen st3 p = min plen (1516 - off)"
        using bs(12) [of p] pay by (simp_all add: st3_def st1_def n_def)
      moreover have "0 < blen st3 x" if "x \<in> set bs" for x using bs(13) [OF that] s3(1) by simp
      ultimately have "allocated st plen st3 p (p # bs) \<and> (\<forall>a. a \<in> set (p # bs) \<longrightarrow> pool_pbuf st3 a) \<and>
          pb_payload (ps_buf st3 p) = p + 20 + off \<and> blen st3 p = min plen (1516 - off) \<and> (\<forall>a. a \<in> set (tl (p # bs)) \<longrightarrow> 0 < blen st3 a)"
        using pp by simp
      moreover have "alloc_pool cfree off plen st = Some (st3, Some p)" using eq True by (simp add: st3_def)
      ultimately show ?thesis unfolding off_def [symmetric] using \<open>owned st3\<close>
        by (intro exI [of _ st3] exI [of _ "Some p"]) (simp only: option.case simp_thms, blast)
    next
      case False
      then have "unchanged st st2" "owned st2"
        using t(2) live1 o(2) unfolding tail_done_def unchanged_def by (auto simp: fun_eq_iff kept_def st1_def upd_def)
      then show ?thesis unfolding off_def [symmetric] eq using False by simp
    qed
  qed
qed

section \<open>Allocating elsewhere\<close>

lemma owned_regions:
  assumes "owned st" and "ps_live st a"
  shows "custom (ps_buf st a) \<and> a \<notin> elements (ps_pool st) \<union> elements (ps_refs st) \<union> heap_area st \<or>
    \<not> custom (ps_buf st a) \<and> (case pb_type (ps_buf st a) of
       PBUF_RAM \<Rightarrow> a \<in> heap_area st \<and> int a - int (ps_ram st) \<in> fst ` live (ps_heap st)
     | PBUF_POOL \<Rightarrow> a \<in> in_use (ps_pool st) | _ \<Rightarrow> a \<in> in_use (ps_refs st))"
proof (cases "custom (ps_buf st a)")
  case True
  then show ?thesis using assms by (auto simp: owned_def layout_def)
next
  case False
  note o = assms(1) [unfolded owned_def]
  show ?thesis
  proof (cases "pb_type (ps_buf st a)")
    case PBUF_RAM
    then have "a \<in> holders st {PBUF_RAM}" using False assms(2) by (simp add: holders_def)
    then obtain m where m: "(int a - int (ps_ram st), m) \<in> live (ps_heap st)" "ps_ram st \<le> a" using o by blast
    then have "a \<in> heap_area st" using live_bounds [of "ps_heap st" _ m] o by (fastforce simp: heap_area_def)
    with m(1) False PBUF_RAM show ?thesis by force
  qed (use o False assms(2) in \<open>simp_all add: holders_def\<close>)
qed

lemma in_use_elements: "a \<in> in_use d \<Longrightarrow> a \<in> elements d"
  by (auto simp: in_use_def)

lemma owned_take_refs:
  assumes "owned st" and "do_memp_malloc_pool (ps_refs st) = (pool, Some q)"
    and "pb_type (f (ps_buf st q)) \<in> {PBUF_ROM, PBUF_REF}" and "\<not> custom (f (ps_buf st q))"
  shows "owned (upd q f (st\<lparr>ps_refs := pool, ps_live := (ps_live st)(q := True)\<rparr>))" and "\<not> ps_live st q"
proof -
  note o = assms(1) [unfolded owned_def]
  have q: "q \<in> elements (ps_refs st)" "q \<notin> in_use (ps_refs st)" "pool_wf pool" "in_use pool = insert q (in_use (ps_refs st))"
    using malloc_pool_elements [OF _ assms(2)] o by auto
  note e = elements_malloc [OF assms(2)]
  have dis: "q \<notin> elements (ps_pool st)" "q \<notin> heap_area st" using o q(1) by (auto simp: layout_def)
  show nl: "\<not> ps_live st q"
    using owned_regions [OF assms(1), of q] q(1,2) dis by (auto dest: in_use_elements split: pbuf_type.splits)
  define st' where "st' = upd q f (st\<lparr>ps_refs := pool, ps_live := (ps_live st)(q := True)\<rparr>)"
  have buf: "ps_buf st' x = (if x = q then f (ps_buf st q) else ps_buf st x)" "ps_live st' x = (x = q \<or> ps_live st x)"
    "ps_pool st' = ps_pool st" "ps_refs st' = pool" "ps_heap st' = ps_heap st" "ps_ram st' = ps_ram st" for x
    by (auto simp: st'_def)
  have hold: "holders st' {PBUF_POOL} = holders st {PBUF_POOL}" "holders st' {PBUF_RAM} = holders st {PBUF_RAM}"
    "holders st' {PBUF_ROM, PBUF_REF} = insert q (holders st {PBUF_ROM, PBUF_REF})"
    using nl assms(3,4) by (auto simp: holders_def buf)
  have "layout st'"
    using o assms(4) e nl dis unfolding layout_def heap_area_def buf by auto
  then show "owned st'"
    using o q unfolding owned_def buf hold by auto
qed

lemma owned_take_ram:
  assumes "owned st" and "0 < n" and "n \<le> 65532" and "mem_malloc n (ps_heap st) = Some (h, Some x)" and "p = nat (int (ps_ram st) + x)"
    and "pb_type (f (ps_buf st p)) = PBUF_RAM" and "\<not> custom (f (ps_buf st p))"
  shows "owned (upd p f (st\<lparr>ps_heap := h, ps_live := (ps_live st)(p := True)\<rparr>))" and "\<not> ps_live st p"
    and "\<exists>m\<ge>n. (int p - int (ps_ram st), m) \<in> live h" and "4 dvd p"
proof -
  note o = assms(1) [unfolded owned_def]
  obtain m where m: "heap_wf h" "m \<ge> n" "live h = insert (x, m) (live (ps_heap st))" "x \<notin> fst ` live (ps_heap st)"
    using ram_heap.alloc_spec [OF _ assms(2,3)] assms(4) o by fastforce
  have b: "8 \<le> x" "x + m \<le> 24000" "12 \<le> m" "4 dvd x" using live_bounds [of h x m] m by auto
  have x: "int p - int (ps_ram st) = x" "ps_ram st \<le> p" using assms(5) b(1) by auto
  have area: "p \<in> heap_area st" using x b by (auto simp: heap_area_def)
  show "\<exists>m\<ge>n. (int p - int (ps_ram st), m) \<in> live h" using m x by auto
  have "int 4 dvd int p"
  proof -
    have "int p = int (ps_ram st) + x" using x by simp
    moreover have "4 dvd ps_ram st" using o unfolding layout_def by blast
    then have "int 4 dvd int (ps_ram st)" by (simp only: of_nat_dvd_iff)
    ultimately show ?thesis using b(4) by simp
  qed
  then show "4 dvd p" by (simp only: of_nat_dvd_iff)
  have dis: "p \<notin> elements (ps_pool st)" "p \<notin> elements (ps_refs st)" using o area by (auto simp: layout_def)
  show nl: "\<not> ps_live st p"
    using owned_regions [OF assms(1), of p] dis area m(4) x(1) by (auto dest: in_use_elements split: pbuf_type.splits)
  define st' where "st' = upd p f (st\<lparr>ps_heap := h, ps_live := (ps_live st)(p := True)\<rparr>)"
  have buf: "ps_buf st' y = (if y = p then f (ps_buf st p) else ps_buf st y)" "ps_live st' y = (y = p \<or> ps_live st y)"
    "ps_pool st' = ps_pool st" "ps_refs st' = ps_refs st" "ps_heap st' = h" "ps_ram st' = ps_ram st" for y
    by (auto simp: st'_def)
  have hold: "holders st' {PBUF_POOL} = holders st {PBUF_POOL}" "holders st' {PBUF_RAM} = insert p (holders st {PBUF_RAM})"
    "holders st' {PBUF_ROM, PBUF_REF} = holders st {PBUF_ROM, PBUF_REF}"
    using nl assms(6,7) by (auto simp: holders_def buf)
  have "layout st'"
    using o assms(7) nl dis unfolding layout_def heap_area_def buf by auto
  then show "owned st'"
    using o m x unfolding owned_def buf hold by auto
qed

lemma single_allocated:
  assumes "\<not> ps_live st p" and "plen < 65536" and "ps_live st' = (ps_live st)(p := True)"
    and "\<And>x. x \<noteq> p \<Longrightarrow> ps_buf st' x = ps_buf st x" and "pb_next (ps_buf st' p) = None" and "blen st' p = plen"
    and "pb_tot_len (ps_buf st' p) = plen" and "pb_ref (ps_buf st' p) = 1" and "\<not> custom (ps_buf st' p)"
    and "kept st st'"
  shows "allocated st plen st' p [p]"
proof -
  have "ps_live st x \<Longrightarrow> ps_buf st' x = ps_buf st x" for x using assms(1,4) by metis
  with assms show ?thesis by (auto simp: allocated_def packet_def)
qed

lemma alloc_ref_result:
  assumes "owned st" and "plen < 65536" and "type \<in> {PBUF_ROM, PBUF_REF}"
  shows "\<exists>st' r. alloc_ref type plen st = Some (st', r) \<and> owned st' \<and>
    (case r of None \<Rightarrow> unchanged st st' | Some p \<Rightarrow> allocated st plen st' p [p])"
proof -
  obtain pool r where m: "do_memp_malloc_pool (ps_refs st) = (pool, r)" by fastforce
  show ?thesis
  proof (cases r)
    case None
    have "owned (st\<lparr>ps_refs := pool\<rparr>)"
      using assms(1) memp_pool.get_None [OF _ m [unfolded None]] elements_malloc [OF m]
      unfolding owned_def layout_def holders_def heap_area_def by simp
    then show ?thesis using m None by (simp add: alloc_ref_def unchanged_def kept_def)
  next
    case (Some p)
    let ?f = "\<lambda>b. b\<lparr>pb_payload := 0, pb_len := plen, pb_tot_len := plen, pb_next := None, pb_type := type, pb_ref := 1, pb_flags := 0\<rparr>"
    define st' where "st' = upd p ?f (st\<lparr>ps_refs := pool, ps_live := (ps_live st)(p := True)\<rparr>)"
    have o: "owned st'" "\<not> ps_live st p"
      using owned_take_refs [OF assms(1) m [unfolded Some], of ?f] assms(3) by (simp_all add: st'_def custom_def)
    have "alloc_ref type plen st = Some (st', Some p)"
      using m Some by (simp add: alloc_ref_def st'_def upd_def Let_def)
    moreover have "allocated st plen st' p [p]"
      using o(2) assms(2) by (intro single_allocated) (auto simp: st'_def custom_def kept_def)
    ultimately show ?thesis using o(1) by simp
  qed
qed

lemma align_size_eq: "n < 65536 \<Longrightarrow> align_size n = (n + 3) div 4 * 4"
proof -
  assume "n < 65536"
  then have "(int n + 3) mod 2 ^ 32 = int (n + 3)" by (subst mod_pos_pos_trivial) auto
  then have "LWIP_MEM_ALIGN_SIZE (int n) = int ((n + 3) div 4 * 4)"
    unfolding LWIP_MEM_ALIGN_SIZE_def by (simp only: zdiv_int of_nat_mult of_nat_numeral)
  then show "align_size n = (n + 3) div 4 * 4" by (simp only: align_size_def nat_int)
qed

lemma alloc_ram_result:
  assumes "owned st" and "plen < 65536"
  shows "\<exists>st' r. alloc_ram (layer_offset layer) plen st = Some (st', r) \<and> owned st' \<and>
    (case r of None \<Rightarrow> unchanged st st'
     | Some p \<Rightarrow> allocated st plen st' p [p] \<and> pb_payload (ps_buf st' p) = p + 20 + layer_offset layer \<and>
         (\<exists>m. (int p - int (ps_ram st'), m) \<in> live (ps_heap st') \<and> int (pb_payload (ps_buf st' p)) + int plen \<le> int p + m))"
proof -
  define off where "off = layer_offset layer"
  note off = layer_offset_bound [of layer, folded off_def]
  define A where "A = align_size plen"
  have A: "plen \<le> A" "4 dvd A" "A \<le> 65536"
    using align_size_eq [OF assms(2)] assms(2) by (auto simp: A_def)
  define N where "N = to_u16 (20 + off + A)"
  have al: "align_size (20 + off) = 20 + off"
    using off(1,2) align_size_eq [of "20 + off"] by (auto elim!: dvdE)
  show ?thesis
  proof (cases "N < A")
    case True
    then show ?thesis
      using assms(1) al by (simp add: alloc_ram_def unchanged_def N_def A_def off_def)
  next
    case False
    have small: "20 + off + A < 65536"
    proof (rule ccontr)
      assume "\<not> 20 + off + A < 65536"
      moreover from this have "N = 20 + off + A - 65536" using off(1) A(3) by (simp add: N_def to_u16_def mod_if)
      ultimately show False using False off(1) by linarith
    qed
    then have N: "N = 20 + off + A" by (simp add: N_def to_u16_id)
    then have "4 dvd N" using off(2) A(2) by simp
    then obtain k where "N = 4 * k" by (elim dvdE)
    then have "k < 16384" using small N by linarith
    then have N2: "int N \<le> 65532" "0 < int N" using \<open>N = 4 * k\<close> N by simp_all
    obtain h r where m: "mem_malloc (int N) (ps_heap st) = Some (h, r)" "heap_wf h" "r = None \<Longrightarrow> live h = live (ps_heap st)"
      using ram_heap.alloc_spec [OF _ N2(2,1), of "ps_heap st"] assms(1) by (auto simp: owned_def split: option.splits)
    have eq: "alloc_ram off plen st = (case r of None \<Rightarrow> Some (st\<lparr>ps_heap := h\<rparr>, None)
        | Some x \<Rightarrow> let p = nat (int (ps_ram st) + x) in Some (upd p (\<lambda>b. b\<lparr>pb_payload := LWIP_MEM_ALIGN (p + 20 + off),
            pb_len := plen, pb_tot_len := plen, pb_next := None, pb_type := PBUF_RAM, pb_ref := 1, pb_flags := 0\<rparr>)
            (st\<lparr>ps_heap := h, ps_live := (ps_live st)(p := True)\<rparr>), Some p))"
      using m(1) False al by (simp add: alloc_ram_def N_def A_def upd_def Let_def split: option.split)
    show ?thesis
    proof (cases r)
      case None
      then have "owned (st\<lparr>ps_heap := h\<rparr>)"
        using assms(1) m(2,3) unfolding owned_def layout_def holders_def heap_area_def by simp
      then show ?thesis using None eq m(3) by (simp add: unchanged_def off_def kept_def)
    next
      case (Some x)
      define p where "p = nat (int (ps_ram st) + x)"
      let ?f = "\<lambda>b. b\<lparr>pb_payload := LWIP_MEM_ALIGN (p + 20 + off),
            pb_len := plen, pb_tot_len := plen, pb_next := None, pb_type := PBUF_RAM, pb_ref := 1, pb_flags := 0\<rparr>"
      define st' where "st' = upd p ?f (st\<lparr>ps_heap := h, ps_live := (ps_live st)(p := True)\<rparr>)"
      note t = owned_take_ram [OF assms(1) N2(2,1) m(1) [unfolded Some] p_def, of ?f]
      have o: "owned st'" "\<not> ps_live st p" "4 dvd p" using t by (simp_all add: st'_def custom_def)
      obtain k where k: "k \<ge> int N" "(int p - int (ps_ram st), k) \<in> live h" using t(3) by (auto simp: custom_def)
      have "LWIP_MEM_ALIGN (p + 20 + off) = p + 20 + off" using o(3) off(2) by (intro mem_align_dvd) auto
      then have pay: "pb_payload (ps_buf st' p) = p + 20 + off" by (simp add: st'_def)
      have le: "int (p + 20 + off) + int plen \<le> int p + k" using k(1) A(1) N by simp
      obtain m0 where l: "live h = insert (x, m0) (live (ps_heap st))"
        using ram_heap.alloc_spec [OF _ N2(2,1), of "ps_heap st"] m(1) Some assms(1) by (auto simp: owned_def)
      then have "8 \<le> x" using live_bounds(1) [OF m(2)] by blast
      then have "int y - int (ps_ram st) \<noteq> x" if "ps_live st y" for y using that o(2) by (auto simp: p_def)
      then have "kept st st'" using o(2) unfolding kept_def by (simp add: st'_def l)
      then have "allocated st plen st' p [p]"
        using o(2) assms(2) by (intro single_allocated) (auto simp: st'_def custom_def)
      moreover have "alloc_ram off plen st = Some (st', Some p)"
        using eq Some by (simp add: st'_def p_def Let_def)
      ultimately show ?thesis
        unfolding off_def [symmetric] using o(1) k(2) pay le by (auto simp: st'_def)
    qed
  qed
qed

section \<open>Shrinking a packet\<close>

lemma realloc_skip_result:
  assumes "chain st (Some p) as" and "rem < total_len st as" and "total_len st as < 65536"
  shows "\<exists>bs q cs. as = bs @ q # cs \<and> total_len st bs \<le> rem \<and> rem - total_len st bs \<le> blen st q \<and>
    (bs \<noteq> [] \<longrightarrow> total_len st bs < rem) \<and>
    realloc_skip rem grow (Some p) st = Some (bump grow bs st, q, rem - total_len st bs)"
  using assms
proof (induction as arbitrary: p rem st)
  case (Cons a as)
  have p: "p = a" "ps_live st a" "chain st (pb_next (ps_buf st a)) as" using Cons.prems by auto
  show ?case
  proof (cases "rem > blen st a")
    case False
    then have "realloc_skip rem grow (Some p) st = Some (bump grow [] st, a, rem - total_len st [])"
      using p by (subst realloc_skip.simps) simp
    then show ?thesis using False by (intro exI [of _ "[]"] exI [of _ a] exI [of _ as]) simp
  next
    case True
    define st1 where "st1 = upd a (\<lambda>b. b\<lparr>pb_tot_len := to_u16 (pb_tot_len b + grow)\<rparr>) st"
    have len: "total_len st1 xs = total_len st xs" "blen st1 x = blen st x" for xs x
      by (auto simp: st1_def intro: total_len_cong)
    have d: "a \<notin> set as" using chain_distinct [OF Cons.prems(1)] by simp
    have "as \<noteq> []" using True Cons.prems(2) by auto
    then obtain b where b: "pb_next (ps_buf st a) = Some b" using p(3) chain_hd by blast
    have "chain st1 (Some b) as" using p(3) b d by (subst chain_cong [of as st1 st]) (auto simp: st1_def)
    moreover have "rem - blen st a < total_len st1 as" "total_len st1 as < 65536" using Cons.prems True by (auto simp: len)
    ultimately obtain bs q cs where s: "as = bs @ q # cs" "total_len st1 bs \<le> rem - blen st a"
      "rem - blen st a - total_len st1 bs \<le> blen st1 q"
      "realloc_skip (rem - blen st a) grow (Some b) st1 = Some (bump grow bs st1, q, rem - blen st a - total_len st1 bs)"
      "bs \<noteq> [] \<longrightarrow> total_len st1 bs < rem - blen st a"
      using Cons.IH [of st1 b "rem - blen st a"] by blast
    have "realloc_skip rem grow (Some p) st = realloc_skip (rem - blen st a) grow (Some b) st1"
      using p True b Cons.prems by (subst realloc_skip.simps) (simp add: st1_def sub_u16_le)
    moreover have "bump grow bs st1 = bump grow (a # bs) st" using bump_upd(1) [of a bs] d s(1) by (simp add: st1_def)
    ultimately have "realloc_skip rem grow (Some p) st = Some (bump grow (a # bs) st, q, rem - total_len st (a # bs))"
      using s(4) by (simp add: len)
    moreover have "a # as = (a # bs) @ q # cs" "total_len st (a # bs) \<le> rem" "rem - total_len st (a # bs) \<le> blen st q"
      using s(1-3) True by (auto simp: len)
    moreover have "total_len st (a # bs) < rem" using s(5) True by (cases "bs = []") (auto simp: len)
    ultimately show ?thesis by blast
  qed
qed simp

lemma aligned_size_mono:
  assumes "0 \<le> a" and "a \<le> b" and "b \<le> 65532"
  shows "aligned_size a \<le> aligned_size b"
proof -
  have e: "u16i (LWIP_MEM_ALIGN_SIZE n) = (n + 3) div 4 * 4" if "0 \<le> n" "n \<le> 65532" for n
  proof -
    have "(n + 3) mod 2 ^ 32 = n + 3" using that by (intro mod_pos_pos_trivial) auto
    moreover have "(n + 3) div 4 * 4 mod 65536 = (n + 3) div 4 * 4" using that by (intro mod_pos_pos_trivial) auto
    ultimately show ?thesis by (simp add: u16i_def LWIP_MEM_ALIGN_SIZE_def)
  qed
  have "(a + 3) div 4 * 4 \<le> (b + 3) div 4 * 4" using assms by (intro mult_right_mono zdiv_mono1) auto
  then show ?thesis using e [of a] e [of b] assms by (auto simp: aligned_size_def)
qed

definition trimmable :: "pstate \<Rightarrow> nat \<Rightarrow> bool" where
  "trimmable st q \<longleftrightarrow> q \<le> pb_payload (ps_buf st q) \<and> pb_payload (ps_buf st q) - q + blen st q \<le> 65532 \<and>
     (pb_type (ps_buf st q) = PBUF_RAM \<and> \<not> custom (ps_buf st q) \<longrightarrow>
        (\<exists>m. (int q - int (ps_ram st), m) \<in> live (ps_heap st) \<and>
           aligned_size (int (pb_payload (ps_buf st q) - q + blen st q)) \<le> m))"

lemma realloc_trim_result:
  assumes "owned st" and "ps_live st q" and "trimmable st q" and "k \<le> blen st q"
  shows "\<exists>h. realloc_trim q k st = Some (st\<lparr>ps_heap := h\<rparr>, q) \<and> owned (st\<lparr>ps_heap := h\<rparr>)"
proof (cases "pb_type (ps_buf st q) = PBUF_RAM \<and> k \<noteq> blen st q \<and> \<not> custom (ps_buf st q)")
  case False
  then have "realloc_trim q k st = Some (st, q)" using assms(2) by (auto simp: realloc_trim_def custom_def)
  then show ?thesis using assms(1) by (intro exI [of _ "ps_heap st"]) simp
next
  case True
  define n where "n = pb_payload (ps_buf st q) - q + k"
  define N where "N = pb_payload (ps_buf st q) - q + blen st q"
  define r where "r = int q - int (ps_ram st)"
  obtain m where m: "(r, m) \<in> live (ps_heap st)" "aligned_size (int N) \<le> m" and N: "N \<le> 65532"
    using assms(3) [unfolded trimmable_def, folded N_def r_def] True by blast
  have n: "n \<le> 65532" "n \<le> N" using N assms(4) by (auto simp: n_def N_def)
  have wf: "heap_wf (ps_heap st)" using assms(1) by (simp add: owned_def)
  have "aligned_size (int n) \<le> m"
    using aligned_size_mono [of "int n" "int N"] n N m(2) by simp
  then have t: "heap_wf (fst (mem_trim r (int n) (ps_heap st)))" "snd (mem_trim r (int n) (ps_heap st)) = Some r"
    "\<exists>j. live (fst (mem_trim r (int n) (ps_heap st))) = insert (r, j) (live (ps_heap st) - {(r, m)})"
    using mem_trim_spec [OF wf m(1), of "int n"] n by auto
  define h where "h = fst (mem_trim r (int n) (ps_heap st))"
  have "to_u16 (to_u16 (pb_payload (ps_buf st q) - q) + k) = n"
    using n(1) by (simp add: n_def to_u16_id)
  moreover have "mem_trim r (int n) (ps_heap st) = (h, Some r)" using t(2) by (simp add: h_def prod_eq_iff)
  ultimately have "realloc_trim q k st = Some (st\<lparr>ps_heap := h\<rparr>, q)"
    using True assms(2) by (simp add: realloc_trim_def custom_def r_def)
  moreover have "owned (st\<lparr>ps_heap := h\<rparr>)"
  proof -
    obtain j where j: "live h = insert (r, j) (live (ps_heap st) - {(r, m)})" using t(3) by (auto simp: h_def)
    have "\<exists>m. (int a - int (ps_ram st), m) \<in> live h" if a: "a \<in> holders st {PBUF_RAM}" for a
    proof (cases "a = q")
      case False
      obtain m' where "(int a - int (ps_ram st), m') \<in> live (ps_heap st)" using assms(1) a unfolding owned_def by blast
      then show ?thesis using False j by (auto simp: r_def)
    qed (use j in \<open>auto simp: r_def\<close>)
    moreover have "holders (st\<lparr>ps_heap := h\<rparr>) T = holders st T" for T by (simp add: holders_def)
    ultimately show ?thesis
      using assms(1) t(1) unfolding owned_def layout_def heap_area_def by (simp add: h_def)
  qed
  ultimately show ?thesis by blast
qed

lemma wrap_shrink:
  assumes "n \<le> T" and "T < 65536" and "T - n \<le> t" and "t < 65536"
  shows "to_u16 (t + sub_u16 n T) = t - (T - n)"
proof (cases "n = T")
  case True
  then show ?thesis using assms by (simp add: sub_u16_le to_u16_id)
next
  case False
  then have "sub_u16 n T = n + (65536 - T)" using assms by (simp add: sub_u16_def)
  moreover define x where "x = t - (T - n)"
  ultimately have "t + sub_u16 n T = x + 65536" using assms by linarith
  moreover have "x < 65536" using assms by (simp add: x_def)
  ultimately show ?thesis by (simp add: to_u16_def x_def [symmetric])
qed

lemma owned_cong:
  assumes "ps_live st' = ps_live st" and "ps_pool st' = ps_pool st" and "ps_refs st' = ps_refs st" and "ps_heap st' = ps_heap st"
    and "ps_ram st' = ps_ram st" and "\<And>x. custom (ps_buf st' x) = custom (ps_buf st x)"
    and "\<And>x. pb_type (ps_buf st' x) = pb_type (ps_buf st x)"
  shows "owned st' = owned st"
  using assms by (simp add: owned_def layout_def heap_area_def holders_def)

lemma chain_cut:
  assumes "chain st p (bs @ q # cs)" and "pb_next (ps_buf st' q) = None"
    and "\<And>x. x \<in> set bs \<Longrightarrow> pb_next (ps_buf st' x) = pb_next (ps_buf st x)"
    and "\<And>x. x \<in> set (bs @ [q]) \<Longrightarrow> ps_live st' x"
  shows "chain st' p (bs @ [q])"
  using assms by (induction bs arbitrary: p) auto

lemma tot_ok_cut:
  assumes "tot_ok st (bs @ q # cs)" and "k \<le> blen st q" and "blen st' q = k" and "pb_tot_len (ps_buf st' q) = k"
    and "\<And>x. x \<in> set bs \<Longrightarrow> blen st' x = blen st x \<and>
      pb_tot_len (ps_buf st' x) = pb_tot_len (ps_buf st x) - (blen st q - k + total_len st cs)"
  shows "tot_ok st' (bs @ [q])"
  using assms(1,5)
proof (induction bs)
  case (Cons a bs)
  have "total_len st' bs = total_len st bs" using Cons.prems(2) by (intro total_len_cong) auto
  with Cons show ?case using assms(2,3) by simp
qed (use assms in simp)

lemma tot_ok_bounds: "tot_ok st (bs @ cs) \<Longrightarrow> x \<in> set bs \<Longrightarrow> total_len st cs \<le> pb_tot_len (ps_buf st x)"
  by (induction bs) auto

text \<open>The state after \<open>pbuf_realloc\<close> has cut the packet after \<open>k\<close> bytes of \<open>q\<close>.\<close>

lemma realloc_packet:
  assumes "packet st (Some p) (bs @ q # cs)" and "k \<le> blen st q" and "q \<notin> set bs"
    and "n = total_len st bs + k" and "T = total_len st (bs @ q # cs)"
    and "\<And>x. x \<in> set bs \<Longrightarrow> ps_buf st' x = ps_buf (bump (sub_u16 n T) bs st) x"
    and "pb_next (ps_buf st' q) = None" and "blen st' q = k" and "pb_tot_len (ps_buf st' q) = k"
    and "pb_payload (ps_buf st' q) = pb_payload (ps_buf st q)"
    and "\<And>x. x \<in> set (bs @ [q]) \<Longrightarrow> ps_live st' x" and "ps_bytes st' = ps_bytes st"
  shows "packet st' (Some p) (bs @ [q])" and "payload_data st' (bs @ [q]) = take n (payload_data st (bs @ q # cs))"
proof -
  note pk = assms(1) [unfolded packet_def]
  have same: "pb_next (ps_buf st' x) = pb_next (ps_buf st x)" "blen st' x = blen st x"
    "pb_payload (ps_buf st' x) = pb_payload (ps_buf st x)" if "x \<in> set bs" for x
    using assms(6) [OF that] that by simp_all
  have "pb_tot_len (ps_buf st' x) = pb_tot_len (ps_buf st x) - (blen st q - k + total_len st cs)" if "x \<in> set bs" for x
  proof -
    have D: "T - n = blen st q - k + total_len st cs" using assms(2,4,5) by simp
    have "pb_tot_len (ps_buf st x) \<le> T" "blen st q + total_len st cs \<le> pb_tot_len (ps_buf st x)"
      using tot_le_total [of st "bs @ q # cs" x] tot_ok_bounds [of st bs "q # cs" x] pk that assms(5) by auto
    then have "to_u16 (pb_tot_len (ps_buf st x) + sub_u16 n T) = pb_tot_len (ps_buf st x) - (T - n)"
      using assms(2,4,5) pk D by (intro wrap_shrink) auto
    then show ?thesis using assms(6) [OF that] that D by simp
  qed
  then have "tot_ok st' (bs @ [q])"
    using pk same(2) assms(2,8,9) by (intro tot_ok_cut [of st bs q cs k]) auto
  moreover have "chain st' (Some p) (bs @ [q])"
    using pk assms(7,11) same(1) by (intro chain_cut [of st _ bs q cs]) auto
  moreover have l: "total_len st' bs = total_len st bs" "addrs st' bs = addrs st bs"
    using same by (auto intro: total_len_cong addrs_cong)
  ultimately show "packet st' (Some p) (bs @ [q])" using pk assms(2,8) by (simp add: packet_def)
  have "pb_payload (ps_buf st q) + k \<le> pb_payload (ps_buf st q) + blen st q" using assms(2) by simp
  then show "payload_data st' (bs @ [q]) = take n (payload_data st (bs @ q # cs))"
    unfolding payload_data_def using l assms(2,4,8,10,12) by (simp add: take_map take_upt)
qed

lemma realloc_free_tail:
  assumes "chain st q cs" and "owned st"
    and "\<And>a. a \<in> set cs \<Longrightarrow> \<not> custom (ps_buf st a) \<and> 0 < pb_ref (ps_buf st a) \<and> pb_ref (ps_buf st a) < 65536"
  shows "\<exists>st' c. (if q \<noteq> None then pbuf_free cfree q st else Some (st, 0)) = Some (st', c) \<and> after_free st cs st' \<and> owned st'"
proof (cases q)
  case None
  then have "cs = []" using assms(1) by (cases cs) auto
  then show ?thesis using None assms(2) by (simp add: after_free_def freed_def)
next
  case (Some a)
  then show ?thesis using free_loop_result [OF assms, of 0 cfree] by (auto simp: pbuf_free_def)
qed

lemma realloc_result:
  assumes "packet st (Some p) as" and "owned st" and "new_len < total_len st as"
    and "\<And>a. a \<in> set as \<Longrightarrow> \<not> custom (ps_buf st a) \<and> 0 < pb_ref (ps_buf st a) \<and> pb_ref (ps_buf st a) < 65536 \<and> trimmable st a"
  shows "\<exists>st' bs cs. pbuf_realloc cfree p new_len st = Some st' \<and> as = bs @ cs \<and> packet st' (Some p) bs \<and>
    payload_data st' bs = take new_len (payload_data st as) \<and> owned st' \<and>
    (\<forall>x. ps_live st' x \<longleftrightarrow> ps_live st x \<and> x \<notin> set (take (freed st cs) cs)) \<and>
    (\<forall>x. x \<notin> set as \<longrightarrow> ps_buf st' x = ps_buf st x) \<and> ps_bytes st' = ps_bytes st \<and> ps_ram st' = ps_ram st \<and>
    (\<forall>x. x \<in> set bs \<longrightarrow> blen st' x \<le> blen st x \<and> ps_buf st' x = (ps_buf st x)\<lparr>pb_next := pb_next (ps_buf st' x), pb_len := blen st' x,
       pb_tot_len := pb_tot_len (ps_buf st' x)\<rparr>) \<and> (\<forall>x. x \<in> set (butlast bs) \<longrightarrow> blen st' x = blen st x) \<and>
    (tl bs \<noteq> [] \<longrightarrow> 0 < blen st' (last bs)) \<and>
    ((\<forall>x. x \<in> set as \<longrightarrow> pb_type (ps_buf st x) = PBUF_POOL) \<longrightarrow> ps_heap st' = ps_heap st)"
proof -
  note pk = assms(1) [unfolded packet_def]
  define T where "T = total_len st as"
  have p: "ps_live st p" "pb_tot_len (ps_buf st p) = T" using packet_head [OF assms(1)] by (auto simp: T_def)
  obtain bs q cs where s: "as = bs @ q # cs" "total_len st bs \<le> new_len" "new_len - total_len st bs \<le> blen st q"
    "realloc_skip new_len (sub_u16 new_len T) (Some p) st = Some (bump (sub_u16 new_len T) bs st, q, new_len - total_len st bs)"
    "bs \<noteq> [] \<longrightarrow> total_len st bs < new_len"
    using realloc_skip_result [of st p as new_len "sub_u16 new_len T"] pk assms(3) by blast
  define k where "k = new_len - total_len st bs"
  define st1 where "st1 = bump (sub_u16 new_len T) bs st"
  have q: "ps_live st q" "q \<notin> set bs" "q \<notin> set cs" "set bs \<inter> set cs = {}"
    using pk s(1) chain_live chain_distinct [of st "Some p" as] by auto
  have b1: "ps_buf st1 x = ps_buf st x" if "x \<notin> set bs" for x using that by (simp add: st1_def)
  have c1: "custom (ps_buf st1 x) = custom (ps_buf st x)" for x by (simp add: st1_def custom_def)
  have o1: "owned st1" using assms(2) c1 owned_cong [of st1 st] by (simp add: st1_def bump_def)
  have hr: "ps_heap st1 = ps_heap st" "ps_ram st1 = ps_ram st" by (simp_all add: st1_def bump_def)
  have "trimmable st1 q = trimmable st q" by (simp only: trimmable_def b1 [OF q(2)] hr)
  then have "trimmable st1 q" using assms(4) [of q] s(1) by simp
  then obtain h where h: "realloc_trim q k st1 = Some (st1\<lparr>ps_heap := h\<rparr>, q)" "owned (st1\<lparr>ps_heap := h\<rparr>)"
    using realloc_trim_result [OF o1, of q k] q(1,2) s(3) by (auto simp: st1_def k_def)
  define st3 where "st3 = upd q (\<lambda>b. b\<lparr>pb_len := k, pb_tot_len := k\<rparr>) (st1\<lparr>ps_heap := h\<rparr>)"
  have b3: "ps_buf st3 x = ps_buf st1 x" if "x \<noteq> q" for x using that by (simp add: st3_def)
  have l3: "ps_live st3 = ps_live st" "ps_bytes st3 = ps_bytes st" by (simp_all add: st3_def st1_def)
  have o3: "owned st3" using h(2) by (simp add: st3_def owned_upd custom_def)
  have cs3: "ps_buf st3 x = ps_buf st x" if "x \<in> set cs" for x
  proof -
    have "x \<noteq> q" "x \<notin> set bs" using that q(3,4) by auto
    then show ?thesis using b3 b1 by simp
  qed
  have nq: "pb_next (ps_buf st3 q) = pb_next (ps_buf st q)" using q(2) by (simp add: st3_def st1_def)
  have "chain st3 (pb_next (ps_buf st q)) cs"
    using chain_next [of st "Some p" bs q cs] pk s(1) cs3 l3 chain_cong [of cs st3 st "pb_next (ps_buf st q)"] by simp
  then obtain st4 c where f: "(if pb_next (ps_buf st q) \<noteq> None then pbuf_free cfree (pb_next (ps_buf st q)) st3 else Some (st3, 0)) =
      Some (st4, c)" "after_free st3 cs st4" "owned st4"
    using realloc_free_tail [of st3 "pb_next (ps_buf st q)" cs cfree] o3 cs3 assms(4) s(1) by auto
  define st5 where "st5 = upd q (\<lambda>b. b\<lparr>pb_next := None\<rparr>) st4"
  have fr: "freed st3 cs = freed st cs" unfolding freed_def
    using cs3 by (intro arg_cong [where f = length] takeWhile_cong) auto
  have b4: "ps_buf st4 x = ps_buf st3 x" if "x \<notin> set cs" for x
    using f(2) that in_set_takeD unfolding after_free_def by metis
  have live: "ps_live st5 x \<longleftrightarrow> ps_live st x \<and> x \<notin> set (take (freed st cs) cs)" for x
    using f(2) l3(1) fr unfolding after_free_def by (simp add: st5_def)
  have eq: "pbuf_realloc cfree p new_len st = Some st5"
    using p assms(3) s(4) h(1) f(1) nq q(1) l3(1)
    by (cases "pb_next (ps_buf st q)") (simp_all add: pbuf_realloc_def T_def [symmetric] k_def [symmetric] st1_def [symmetric] st3_def [symmetric] st5_def)
  have bs5: "ps_buf st5 x = ps_buf st1 x" if "x \<in> set bs" for x
  proof -
    have "x \<noteq> q" "x \<notin> set cs" using that q by auto
    then show ?thesis using b4 b3 by (simp add: st5_def)
  qed
  have q5: "ps_buf st5 q = (ps_buf st q)\<lparr>pb_len := k, pb_tot_len := k, pb_next := None\<rparr>"
    using b4 [OF q(3)] q(2) by (simp add: st5_def st3_def st1_def)
  have bt: "ps_bytes st5 = ps_bytes st" "ps_ram st5 = ps_ram st"
    using f(2) l3 hr(2) by (simp_all add: after_free_def st5_def kept_def st3_def)
  moreover have "packet st5 (Some p) (bs @ [q])" "payload_data st5 (bs @ [q]) = take new_len (payload_data st as)"
  proof -
    have lv: "ps_live st5 x" if "x \<in> set (bs @ [q])" for x
      using that live q chain_live [of st "Some p" as x] pk s(1) by (auto dest: in_set_takeD)
    have n: "new_len = total_len st bs + k" using s(2) by (simp add: k_def)
    note r = realloc_packet [of st p bs q cs k new_len T st5]
    show "packet st5 (Some p) (bs @ [q])" "payload_data st5 (bs @ [q]) = take new_len (payload_data st as)"
      using r assms(1) s(1,3) q(2) n T_def bs5 q5 lv bt(1) unfolding st1_def k_def [symmetric] by simp_all
  qed
  moreover have "owned st5" using f(3) by (simp add: st5_def owned_upd custom_def)
  moreover have "as = (bs @ [q]) @ cs" using s(1) by simp
  moreover have "ps_buf st5 x = ps_buf st x" if "x \<notin> set as" for x
    using that s(1) b4 [of x] b3 [of x] b1 [of x] by (simp add: st5_def)
  moreover have "blen st5 x \<le> blen st x \<and> ps_buf st5 x = (ps_buf st x)\<lparr>pb_next := pb_next (ps_buf st5 x), pb_len := blen st5 x,
      pb_tot_len := pb_tot_len (ps_buf st5 x)\<rparr>" if "x \<in> set (bs @ [q])" for x
    using that bs5 [of x] q5 s(3) by (cases "x = q") (auto simp: st1_def bump_def k_def [symmetric])
  moreover have "blen st5 x = blen st x" if "x \<in> set (butlast (bs @ [q]))" for x
    using that bs5 [of x] by (simp add: st1_def)
  moreover have "0 < blen st5 (last (bs @ [q]))" if "tl (bs @ [q]) \<noteq> []"
    using that s(5) q5 by (cases bs) (simp_all add: k_def)
  moreover have "ps_heap st5 = ps_heap st" if "\<forall>x. x \<in> set as \<longrightarrow> pb_type (ps_buf st x) = PBUF_POOL"
  proof -
    have "realloc_trim q k st1 = Some (st1, q)"
      using that s(1) q(1) b1 [OF q(2)] by (simp add: realloc_trim_def deref_def st1_def)
    then have "h = ps_heap st1" using h(1) by (metis option.inject prod.inject pstate.select_convs(4) pstate.surjective pstate.update_convs(4))
    moreover have "pb_type (ps_buf st3 x) = PBUF_POOL" if "x \<in> set cs" for x
      using cs3 [OF that] \<open>\<forall>x. x \<in> set as \<longrightarrow> pb_type (ps_buf st x) = PBUF_POOL\<close> that s(1) by simp
    ultimately show ?thesis using f(2) hr(1) by (simp add: after_free_def st5_def st3_def)
  qed
  ultimately show ?thesis using live eq bt
    by (intro exI [of _ st5] exI [of _ "bs @ [q]"] exI [of _ cs] conjI allI impI) (blast, assumption+, simp_all)
qed

section \<open>Properties\<close>

text \<open>A state with everything free, one with a two-part packet, and one with a single referring pbuf.\<close>

definition no_pbuf :: pbuf where
  "no_pbuf = \<lparr>pb_next = None, pb_payload = 0, pb_tot_len = 0, pb_len = 0, pb_type = PBUF_RAM, pb_flags = 0,
     pb_ref = 0, pb_timestamp = 0\<rparr>"

definition demo_desc :: "nat \<Rightarrow> nat \<Rightarrow> memp_desc" where
  "demo_desc sz base = \<lparr>mp_size = sz, mp_num = 2, mp_base = base, mp_tab = None, mp_next = (\<lambda>_. None),
     mp_avail = 0, mp_used = 0, mp_max = 0, mp_err = 0\<rparr>"

definition demo_free :: pstate where
  "demo_free = \<lparr>ps_buf = (\<lambda>_. no_pbuf), ps_live = (\<lambda>_. False), ps_bytes = (\<lambda>_. 0), ps_heap = mem_init zero_heap,
     ps_ram = 100000, ps_pool = memp_init_pool (demo_desc 1536 1000), ps_refs = memp_init_pool (demo_desc 20 40),
     pbuf_free_ooseq_pending = False\<rparr>"

definition demo_packet :: pstate where
  "demo_packet = demo_free\<lparr>
     ps_buf := (\<lambda>a. if a = 1 then no_pbuf\<lparr>pb_next := Some 2, pb_payload := 500, pb_tot_len := 5, pb_len := 3, pb_ref := 1\<rparr>
        else no_pbuf\<lparr>pb_payload := 100 * a, pb_tot_len := 2, pb_len := 2, pb_ref := 1\<rparr>),
     ps_live := (\<lambda>a. a \<in> {1, 2, 3, 4}), ps_bytes := (\<lambda>a. if a = 201 then 7 else 1)\<rparr>"

definition demo_ref :: pstate where
  "demo_ref = fst (the (alloc_ref PBUF_REF 5 demo_free))"

lemma demo_owned: "owned demo_free"
proof -
  have d: "pool_wf (memp_init_pool (demo_desc s b)) \<and> in_use (memp_init_pool (demo_desc s b)) = {} \<and>
      elements (memp_init_pool (demo_desc s b)) = elements (demo_desc s b) \<and> mp_size (memp_init_pool (demo_desc s b)) = s"
    if "0 < s" for s b
    using that memp_init_pool_free [of "demo_desc s b"] memp_init_pool_ok(2) [of "demo_desc s b"]
    by (simp add: demo_desc_def memp_init_pool_def memp_link_fields Let_def)
  have e: "elements (demo_desc 1536 1000) = {1000, 2536}" "elements (demo_desc 20 40) = {40, 60}"
    by (auto simp: elements_def element_def demo_desc_def LWIP_MEM_ALIGN_def numeral_2_eq_2 lessThan_Suc)
  show ?thesis
    using zero_heap_init(2) d [of 1536 1000] d [of 20 40]
    unfolding owned_def layout_def holders_def heap_area_def demo_free_def
    by (auto simp: e custom_def no_pbuf_def)
qed

lemma demo_packet_ok: "packet demo_packet (Some 1) [1, 2]" "packet demo_packet (Some 3) [3]" "packet demo_packet (Some 4) [4]"
  "addrs demo_packet [1, 2] = [500, 501, 502, 200, 201]" "addrs demo_packet [3] = [300, 301]"
  by (simp_all add: packet_def demo_packet_def no_pbuf_def)

lemma demo_ref_ok: "owned demo_ref" "packet demo_ref (Some 60) [60]" "\<not> custom (ps_buf demo_ref 60)"
  "pb_ref (ps_buf demo_ref 60) = 1" "total_len demo_ref [60] = 5" "pb_type (ps_buf demo_ref 60) = PBUF_REF"
  "ps_bytes demo_ref = ps_bytes demo_free"
proof -
  have t: "mp_tab (memp_init_pool (demo_desc 20 40)) = Some 60" by code_simp
  obtain d where m: "do_memp_malloc_pool (ps_refs demo_free) = (d, Some 60)"
    using t by (auto simp: do_memp_malloc_pool_def demo_free_def Let_def)
  then have r: "alloc_ref PBUF_REF 5 demo_free = Some (demo_ref, Some 60)"
    by (simp add: demo_ref_def alloc_ref_def Let_def)
  then have a: "allocated demo_free 5 demo_ref 60 [60]" and o: "owned demo_ref"
    using alloc_ref_result [OF demo_owned, of 5 PBUF_REF] by auto
  show "owned demo_ref" by (rule o)
  show "packet demo_ref (Some 60) [60]" "\<not> custom (ps_buf demo_ref 60)" "pb_ref (ps_buf demo_ref 60) = 1"
    "total_len demo_ref [60] = 5"
    using a by (auto simp: allocated_def)
  show "pb_type (ps_buf demo_ref 60) = PBUF_REF" "ps_bytes demo_ref = ps_bytes demo_free"
    using m by (simp_all add: demo_ref_def alloc_ref_def Let_def)
qed

text \<open>
  C28. \<open>pbuf_alloc\<close> returns for every type and layer.  Either nothing is allocated and no header in use has
  changed, also when the pool ran empty half way, or the result is a packet of the requested length made
  of headers that were not in use, each referenced once.  The accounting of the allocators stays exact.  The payload of a
  pool pbuf lies inside its pool element and that of a RAM pbuf inside its heap block.
\<close>
theorem pbuf_alloc_fresh_packet:
  assumes "owned st" and "plen < 65536"
  shows "\<exists>st' r. pbuf_alloc cfree layer plen type st = Some (st', r) \<and> owned st' \<and>
    (case r of None \<Rightarrow> unchanged st st'
     | Some p \<Rightarrow> \<exists>as. allocated st plen st' p as \<and>
         (type = PBUF_POOL \<longrightarrow> (\<forall>a. a \<in> set as \<longrightarrow> a + 20 \<le> pb_payload (ps_buf st' a) \<and>
            pb_payload (ps_buf st' a) + blen st' a \<le> a + 1536)) \<and>
         (type = PBUF_RAM \<longrightarrow> (\<exists>m. (int p - int (ps_ram st'), m) \<in> live (ps_heap st') \<and>
            p + 20 \<le> pb_payload (ps_buf st' p) \<and> int (pb_payload (ps_buf st' p)) + int plen \<le> int p + m)))"
proof (cases type)
  case PBUF_POOL
  then show ?thesis
    using alloc_pool_result [OF assms, of cfree layer] by (fastforce simp: pbuf_alloc_def pool_pbuf_def split: option.splits)
next
  case PBUF_RAM
  then show ?thesis
    using alloc_ram_result [OF assms, of layer] by (fastforce simp: pbuf_alloc_def split: option.splits)
next
  case PBUF_ROM
  then show ?thesis
    using alloc_ref_result [OF assms, of type] by (fastforce simp: pbuf_alloc_def split: option.splits)
next
  case PBUF_REF
  then show ?thesis
    using alloc_ref_result [OF assms, of type] by (fastforce simp: pbuf_alloc_def split: option.splits)
qed

theorem pbuf_alloc_fresh_packet_witness:
  "\<exists>st' r. pbuf_alloc (\<lambda>a st. None) PBUF_TRANSPORT 2000 PBUF_POOL demo_free = Some (st', r) \<and> owned st'"
  using pbuf_alloc_fresh_packet [OF demo_owned, of 2000 "\<lambda>a st. None" PBUF_TRANSPORT PBUF_POOL] by auto



lemma bytes_frame [simp]: "chain (st\<lparr>ps_bytes := m\<rparr>) p as = chain st p as" "addrs (st\<lparr>ps_bytes := m\<rparr>) as = addrs st as"
  "total_len (st\<lparr>ps_bytes := m\<rparr>) as = total_len st as" "tot_ok (st\<lparr>ps_bytes := m\<rparr>) as = tot_ok st as"
  by (auto intro!: chain_cong addrs_cong total_len_cong tot_ok_cong)

text \<open>
  C31. \<open>pbuf_cat\<close> joins two packets whose lengths fit 16 bits together into one packet with the bytes of the first
  followed by those of the second, with all total lengths right and no reference count changed.
\<close>
theorem pbuf_cat_concatenates:
  assumes "packet st (Some h) hs" and "packet st (Some t) ts" and "set hs \<inter> set ts = {}"
    and "total_len st hs + total_len st ts < 65536"
  shows "\<exists>st'. pbuf_cat (Some h) (Some t) st = Some st' \<and> packet st' (Some h) (hs @ ts) \<and>
    payload_data st' (hs @ ts) = payload_data st hs @ payload_data st ts \<and>
    (\<forall>x. pb_ref (ps_buf st' x) = pb_ref (ps_buf st x)) \<and> (\<forall>x. x \<notin> set hs \<longrightarrow> ps_buf st' x = ps_buf st x)"
  using assms by (rule pbuf_cat_packet)

theorem pbuf_cat_concatenates_witness:
  "\<exists>st'. pbuf_cat (Some 1) (Some 3) demo_packet = Some st' \<and> packet st' (Some 1) [1, 2, 3]"
proof -
  have "total_len demo_packet [1, 2] + total_len demo_packet [3] < 65536" by (simp add: demo_packet_def no_pbuf_def)
  then show ?thesis using pbuf_cat_concatenates [OF demo_packet_ok(1,2)] by auto
qed



text \<open>
  C35. \<open>pbuf_memfind\<close> returns the first position from \<open>start\<close> on at which the bytes occur in the packet, however they
  are spread over its pbufs, and 0xffff when there is none.
\<close>
theorem pbuf_memfind_first:
  assumes "packet st (Some p) as" and "start < 65536" and "length xs < 65536"
  shows "pbuf_memfind p xs (length xs) start st =
    Some (case find (occurs_at (payload_data st as) xs) [start..<Suc (total_len st as) - length xs] of
       Some k \<Rightarrow> k | None \<Rightarrow> 0xffff)"
proof -
  note pk = assms(1) [unfolded packet_def]
  have p: "ps_live st p" "pb_tot_len (ps_buf st p) = total_len st as" using packet_head [OF assms(1)] by auto
  show ?thesis
  proof (cases "length xs + start \<le> total_len st as")
    case True
    then have "sub_u16 (total_len st as) (length xs) = total_len st as - length xs" using pk by (simp add: sub_u16_le)
    moreover have "Suc (total_len st as) - length xs = Suc (total_len st as - length xs)" using True by simp
    ultimately show ?thesis
      using True p memfind_loop_find [OF assms(1), of xs start] assms(2) by (simp add: pbuf_memfind_def)
  next
    case False
    then have "[start..<Suc (total_len st as) - length xs] = []" by simp
    then show ?thesis using False p by (simp add: pbuf_memfind_def)
  qed
qed

theorem pbuf_memfind_first_witness: "pbuf_memfind 1 [1, 7] 2 0 demo_packet = Some 3"
proof -
  have "payload_data demo_packet [1, 2] = [1, 1, 1, 1, 7]" "total_len demo_packet [1, 2] = 5"
    unfolding payload_data_def demo_packet_ok(4) by (simp_all add: demo_packet_def no_pbuf_def)
  moreover have "find (occurs_at [1, 1, 1, 1, 7] [1, 7]) [0..<Suc 5 - length [1 :: u8, 7]] = Some 3" by code_simp
  ultimately show ?thesis
    using pbuf_memfind_first [OF demo_packet_ok(1), of 0 "[1, 7]"] by (simp add: numeral_2_eq_2)
qed

text \<open>
  C33. Hiding \<open>n\<close> bytes of a RAM or pool pbuf removes them from the front of the packet, and revealing them again restores
  the state; hiding more than the pbuf holds, or moving the payload into the header, is refused without effect.
\<close>
theorem pbuf_header_round_trip:
  assumes "packet st (Some a) (a # as)" and "0 < n" and "n < 32768"
    and "pb_type (ps_buf st a) \<in> {PBUF_RAM, PBUF_POOL}" and "a + 20 \<le> pb_payload (ps_buf st a)"
  shows "(if n \<le> blen st a
    then \<exists>st'. pbuf_header (Some a) (- int n) st = Some (st', False) \<and> packet st' (Some a) (a # as) \<and>
      payload_data st' (a # as) = drop n (payload_data st (a # as)) \<and> pbuf_header (Some a) (int n) st' = Some (st, False)
    else pbuf_header (Some a) (- int n) st = Some (st, True)) \<and>
    (pb_payload (ps_buf st a) < a + 20 + n \<longrightarrow> pbuf_header (Some a) (int n) st = Some (st, True))"
proof -
  note pk = assms(1) [unfolded packet_def]
  have live: "ps_live st a" "pb_tot_len (ps_buf st a) = blen st a + total_len st as" using pk by auto
  have up: "pb_payload (ps_buf st a) < a + 20 + n \<Longrightarrow> pbuf_header (Some a) (int n) st = Some (st, True)"
    using live(1) assms(2,4) by (auto simp: pbuf_header_def pbuf_header_impl_def Let_def)
  show ?thesis
  proof (cases "n \<le> blen st a")
    case False
    then have "pbuf_header (Some a) (- int n) st = Some (st, True)"
      using live(1) assms(2) by (simp add: pbuf_header_def pbuf_header_impl_def)
    with False up show ?thesis by simp
  next
    case True
    define st' where "st' = upd a (\<lambda>b. b\<lparr>pb_payload := pb_payload b + n, pb_len := pb_len b - n, pb_tot_len := pb_tot_len b - n\<rparr>) st"
    have h: "pbuf_header (Some a) (- int n) st = Some (st', False)"
      unfolding st'_def using assms True by (intro header_hide) auto
    have na: "a \<notin> set as" using chain_distinct [of st "Some a" "a # as"] pk by simp
    then have same: "ps_buf st' x = ps_buf st x" if "x \<in> set as" for x using that by (auto simp: st'_def)
    have f: "blen st' a = blen st a - n" "pb_payload (ps_buf st' a) = pb_payload (ps_buf st a) + n" "ps_live st' a"
      "pb_tot_len (ps_buf st' a) = pb_tot_len (ps_buf st a) - n" "pb_next (ps_buf st' a) = pb_next (ps_buf st a)"
      "ps_bytes st' = ps_bytes st" "ps_live st' = ps_live st" "pb_type (ps_buf st' a) = pb_type (ps_buf st a)"
      using live(1) by (simp_all add: st'_def)
    have l: "total_len st' as = total_len st as" "addrs st' as = addrs st as" "tot_ok st' as = tot_ok st as"
      "chain st' (pb_next (ps_buf st a)) as = chain st (pb_next (ps_buf st a)) as"
      using same f(7) by (auto intro!: total_len_cong addrs_cong tot_ok_cong chain_cong)
    have "packet st' (Some a) (a # as)"
      using pk l f True by (simp add: packet_def less_imp_diff_less)
    moreover have "addrs st' (a # as) = drop n (addrs st (a # as))"
      using l(2) True by (simp add: f)
    then have "payload_data st' (a # as) = drop n (payload_data st (a # as))"
      by (simp only: payload_data_def f(6) drop_map)
    moreover have "pbuf_header (Some a) (int n) st' = Some (upd a (\<lambda>b. b\<lparr>pb_payload := pb_payload b - n,
        pb_len := pb_len b + n, pb_tot_len := pb_tot_len b + n\<rparr>) st', False)"
      using assms(2-5) live pk True by (intro header_reveal) (auto simp: f)
    moreover have "upd a (\<lambda>b. b\<lparr>pb_payload := pb_payload b - n, pb_len := pb_len b + n, pb_tot_len := pb_tot_len b + n\<rparr>) st' = st"
    proof -
      have "(\<lambda>b. b\<lparr>pb_payload := pb_payload b - n, pb_len := pb_len b + n, pb_tot_len := pb_tot_len b + n\<rparr>)
          (ps_buf st' a) = ps_buf st a"
        using True live(2) by (simp add: st'_def)
      then show ?thesis by (simp add: upd_def) (simp add: st'_def upd_def)
    qed
    ultimately show ?thesis using h True up by auto
  qed
qed

theorem pbuf_header_round_trip_witness:
  "\<exists>st'. pbuf_header (Some 1) (-2) demo_packet = Some (st', False) \<and> pbuf_header (Some 1) 2 st' = Some (demo_packet, False)"
proof -
  have "pb_type (ps_buf demo_packet 1) \<in> {PBUF_RAM, PBUF_POOL}" "1 + 20 \<le> pb_payload (ps_buf demo_packet 1)"
    "2 \<le> blen demo_packet 1"
    by (simp_all add: demo_packet_def no_pbuf_def)
  then show ?thesis using pbuf_header_round_trip [OF demo_packet_ok(1), of 2] by auto
qed



text \<open>
  C34. \<open>pbuf_realloc\<close> leaves a packet that starts with the same pbufs and holds exactly the first \<open>new_len\<close> bytes; the
  pbufs behind the cut are given up as by \<open>pbuf_free\<close> and the accounting of the allocators stays exact.
\<close>
theorem pbuf_realloc_truncates:
  assumes "packet st (Some p) as" and "owned st" and "new_len < total_len st as"
    and "\<forall>a\<in>set as. \<not> custom (ps_buf st a) \<and> 0 < pb_ref (ps_buf st a) \<and> pb_ref (ps_buf st a) < 65536 \<and> trimmable st a"
  shows "\<exists>st' bs cs. pbuf_realloc cfree p new_len st = Some st' \<and> as = bs @ cs \<and> packet st' (Some p) bs \<and>
    payload_data st' bs = take new_len (payload_data st as) \<and> owned st' \<and>
    (\<forall>x. ps_live st' x \<longleftrightarrow> ps_live st x \<and> x \<notin> set (take (freed st cs) cs))"
  using realloc_result [OF assms(1-3)] assms(4) by blast

theorem pbuf_realloc_truncates_witness:
  "\<exists>st' bs. pbuf_realloc (\<lambda>a st. None) 60 3 (demo_ref\<lparr>ps_buf := (ps_buf demo_ref)(60 := (ps_buf demo_ref 60)\<lparr>pb_payload := 500\<rparr>)\<rparr>) =
     Some st' \<and> packet st' (Some 60) bs \<and> payload_data st' bs = [0, 0, 0]"
proof -
  define st where "st = upd 60 (\<lambda>b. b\<lparr>pb_payload := 500\<rparr>) demo_ref"
  have c: "\<not> custom (ps_buf st 60)" using demo_ref_ok(3) by (simp add: st_def custom_def)
  have o: "owned st" using demo_ref_ok(1) by (simp add: st_def owned_upd custom_def)
  have b: "blen st 60 = 5" "pb_ref (ps_buf st 60) = 1" "trimmable st 60"
    using demo_ref_ok(4-6) by (simp_all add: st_def trimmable_def)
  have p: "packet st (Some 60) [60]" using demo_ref_ok(2) by (simp add: packet_def st_def)
  have "payload_data st [60] = [0, 0, 0, 0, 0]"
    using b(1) demo_ref_ok(7) by (simp add: rd_def st_def demo_free_def)
  then show ?thesis
    using pbuf_realloc_truncates [OF p o, of 3 "\<lambda>a st. None"] c b by (auto simp: st_def upd_def)
qed

end
