(* ===== verification/Packets.thy ===== *)
theory Packets
  imports Pbuf
begin

text \<open>
  Packets as the components above see them: a map from the first header of a packet to its bytes.  The
  interface is the locale \<open>packet_map\<close>; \<open>pbuf.c\<close> provides it for packets whose bytes lie in their own
  pool elements or heap blocks.
\<close>

section \<open>Payload areas\<close>

definition span :: "pstate \<Rightarrow> nat \<Rightarrow> nat set" where
  "span st a = {pb_payload (ps_buf st a)..<pb_payload (ps_buf st a) + blen st a}"

definition confined :: "pstate \<Rightarrow> nat \<Rightarrow> bool" where
  "confined st a \<longleftrightarrow> ps_live st a \<and> \<not> custom (ps_buf st a) \<and> a + 20 \<le> pb_payload (ps_buf st a) \<and>
     (case pb_type (ps_buf st a) of
        PBUF_POOL \<Rightarrow> pb_payload (ps_buf st a) + blen st a \<le> a + 1536
      | PBUF_RAM \<Rightarrow> \<exists>m. (int a - int (ps_ram st), m) \<in> live (ps_heap st) \<and>
          int (pb_payload (ps_buf st a)) + int (blen st a) \<le> int a + m
      | _ \<Rightarrow> False)"

lemma set_addrs: "set (addrs st as) = (\<Union>a\<in>set as. span st a)"
  by (induction as) (auto simp: span_def)

lemma elements_apart:
  assumes "a \<in> elements d" and "b \<in> elements d" and "a \<noteq> b"
  shows "{a..<a + mp_size d} \<inter> {b..<b + mp_size d} = {}"
proof -
  obtain i j where ij: "a = element d i" "b = element d j" using assms by (auto simp: elements_def)
  then have "i \<noteq> j" using assms(3) by auto
  then have "Suc i \<le> j \<or> Suc j \<le> i" by auto
  then have "Suc i * mp_size d \<le> j * mp_size d \<or> Suc j * mp_size d \<le> i * mp_size d" using mult_le_mono1 by blast
  then show ?thesis by (auto simp: ij element_def)
qed

lemma confined_pool:
  assumes "owned st" and "confined st a" and "pb_type (ps_buf st a) = PBUF_POOL"
  shows "a \<in> elements (ps_pool st)" and "span st a \<subseteq> {a..<a + 1536}"
  using assms owned_regions [of st a] by (auto simp: confined_def span_def dest: in_use_elements)

lemma confined_ram:
  assumes "owned st" and "confined st a" and "pb_type (ps_buf st a) = PBUF_RAM"
  obtains m where "(int a - int (ps_ram st), m) \<in> live (ps_heap st)" and "span st a \<subseteq> {x. int x - int (ps_ram st) \<in> region (int a - int (ps_ram st), m)}"
    and "span st a \<subseteq> heap_area st"
proof -
  obtain m where m: "(int a - int (ps_ram st), m) \<in> live (ps_heap st)" "a + 20 \<le> pb_payload (ps_buf st a)"
      "int (pb_payload (ps_buf st a)) + int (blen st a) \<le> int a + m"
    using assms by (auto simp: confined_def)
  have "heap_wf (ps_heap st)" using assms(1) by (simp add: owned_def)
  note b = live_bounds [OF this m(1)]
  show thesis
  proof
    show "(int a - int (ps_ram st), m) \<in> live (ps_heap st)" by (rule m(1))
    show "span st a \<subseteq> {x. int x - int (ps_ram st) \<in> region (int a - int (ps_ram st), m)}"
      using m(2,3) by (auto simp: span_def region_def)
    show "span st a \<subseteq> heap_area st" using m(2,3) b by (auto simp: span_def heap_area_def)
  qed
qed

lemma confined_disjoint:
  assumes "owned st" and "confined st a" and "confined st b" and "a \<noteq> b"
  shows "span st a \<inter> span st b = {}"
proof -
  have pool_heap: "span st x \<inter> span st y = {}"
    if "confined st x" "confined st y" "pb_type (ps_buf st x) = PBUF_POOL" "pb_type (ps_buf st y) = PBUF_RAM" for x y
  proof -
    have "span st x \<subseteq> {x..<x + 1536}" "x \<in> elements (ps_pool st)" using confined_pool assms(1) that by blast+
    moreover have "span st y \<subseteq> heap_area st" using confined_ram assms(1) that by metis
    moreover have "layout st" using assms(1) by (simp add: owned_def)
    then have "{x..<x + 1536} \<inter> heap_area st = {}" using calculation(2) by (simp add: layout_def)
    ultimately show ?thesis by blast
  qed
  consider "pb_type (ps_buf st a) = PBUF_POOL" "pb_type (ps_buf st b) = PBUF_POOL"
    | "pb_type (ps_buf st a) = PBUF_POOL" "pb_type (ps_buf st b) = PBUF_RAM"
    | "pb_type (ps_buf st a) = PBUF_RAM" "pb_type (ps_buf st b) = PBUF_POOL"
    | "pb_type (ps_buf st a) = PBUF_RAM" "pb_type (ps_buf st b) = PBUF_RAM"
    using assms(2,3) by (auto simp: confined_def split: pbuf_type.splits)
  then show ?thesis
  proof cases
    case 1
    have "mp_size (ps_pool st) = 1536" using assms(1) by (simp add: owned_def layout_def)
    then have "{a..<a + 1536} \<inter> {b..<b + 1536} = {}"
      using elements_apart [of a "ps_pool st" b] confined_pool(1) [OF assms(1,2) 1(1)] confined_pool(1) [OF assms(1,3) 1(2)] assms(4)
      by simp
    then show ?thesis using confined_pool(2) [OF assms(1,2) 1(1)] confined_pool(2) [OF assms(1,3) 1(2)] by blast
  next
    case 2
    then show ?thesis using pool_heap assms by blast
  next
    case 3
    then show ?thesis using pool_heap assms by blast
  next
    case 4
    obtain m where m: "(int a - int (ps_ram st), m) \<in> live (ps_heap st)"
      "span st a \<subseteq> {x. int x - int (ps_ram st) \<in> region (int a - int (ps_ram st), m)}"
      using confined_ram [OF assms(1,2) 4(1)] by blast
    obtain n where n: "(int b - int (ps_ram st), n) \<in> live (ps_heap st)"
      "span st b \<subseteq> {x. int x - int (ps_ram st) \<in> region (int b - int (ps_ram st), n)}"
      using confined_ram [OF assms(1,3) 4(2)] by blast
    have "region (int a - int (ps_ram st), m) \<inter> region (int b - int (ps_ram st), n) = {}"
      using live_disjoint [OF _ m(1) n(1)] assms(1,4) by (auto simp: owned_def)
    then show ?thesis using m(2) n(2) by blast
  qed
qed

lemma confined_distinct:
  assumes "owned st" and "distinct as" and "\<And>a. a \<in> set as \<Longrightarrow> confined st a"
  shows "distinct (addrs st as)"
  using assms(2,3)
proof (induction as)
  case (Cons a as)
  have "span st a \<inter> set (addrs st as) = {}"
    using confined_disjoint [OF assms(1)] Cons.prems by (auto simp: set_addrs)
  then show ?case using Cons by (auto simp: span_def)
qed simp

text \<open>A header that an operation leaves alone stays confined.\<close>

lemma confined_kept:
  assumes "kept st st'" and "ps_live st' a" and "ps_buf st' a = ps_buf st a" and "confined st a"
  shows "confined st' a"
  using assms unfolding confined_def kept_def by (cases "pb_type (ps_buf st a)") auto

section \<open>The interface\<close>

locale packet_map =
  fixes rep :: "'s \<Rightarrow> (nat \<Rightarrow> u8 list option) \<Rightarrow> bool"
    and store :: "u8 list \<Rightarrow> 's \<Rightarrow> ('s \<times> nat option) option"
    and load :: "nat \<Rightarrow> 's \<Rightarrow> u8 list option"
    and discard :: "nat \<Rightarrow> 's \<Rightarrow> 's option"
  assumes store_rep: "rep s Q \<Longrightarrow> length d < 65536 \<Longrightarrow>
      \<exists>s' r. store d s = Some (s', r) \<and> (case r of None \<Rightarrow> rep s' Q | Some p \<Rightarrow> Q p = None \<and> rep s' (Q(p \<mapsto> d)))"
    and load_rep: "rep s Q \<Longrightarrow> Q p = Some d \<Longrightarrow> load p s = Some d"
    and discard_rep: "rep s Q \<Longrightarrow> Q p = Some d \<Longrightarrow> \<exists>s'. discard p s = Some s' \<and> rep s' (Q(p := None))"
begin

lemma load_store:
  assumes "rep s Q" and "length d < 65536" and "store d s = Some (s', Some p)"
  shows "load p s' = Some d" and "Q q = Some e \<Longrightarrow> load q s' = Some e"
proof -
  from store_rep [OF assms(1,2)] assms(3) have s': "Q p = None" "rep s' (Q(p \<mapsto> d))" by auto
  show "load p s' = Some d" by (rule load_rep [OF s'(2)]) simp
  show "load q s' = Some e" if "Q q = Some e" by (rule load_rep [OF s'(2)]) (use that s'(1) in auto)
qed

lemma load_discard:
  assumes "rep s Q" and "Q p = Some d" and "Q q = Some e" and "q \<noteq> p"
  shows "\<exists>s'. discard p s = Some s' \<and> load q s' = Some e"
proof -
  obtain s' where s': "discard p s = Some s'" "rep s' (Q(p := None))" using discard_rep [OF assms(1,2)] by blast
  moreover have "load q s' = Some e" by (rule load_rep [OF s'(2)]) (use assms in simp)
  ultimately show ?thesis by blast
qed

lemma store_discard:
  assumes "rep s Q" and "length d < 65536" and "store d s = Some (s', Some p)"
  shows "\<exists>s''. discard p s' = Some s'' \<and> rep s'' Q"
proof -
  from store_rep [OF assms(1,2)] assms(3) have s': "Q p = None" "rep s' (Q(p \<mapsto> d))" by auto
  obtain s'' where "discard p s' = Some s''" "rep s'' ((Q(p \<mapsto> d))(p := None))" using discard_rep [OF s'(2), of p d] by auto
  moreover have "(Q(p \<mapsto> d))(p := None) = Q" using s'(1) by auto
  ultimately show ?thesis by simp
qed

end

section \<open>Packets in pbufs\<close>

definition solid :: "pstate \<Rightarrow> nat \<Rightarrow> bool" where
  "solid st a \<longleftrightarrow> confined st a \<and> pb_ref (ps_buf st a) = 1"

definition chains_ok :: "pstate \<Rightarrow> (nat \<Rightarrow> u8 list option) \<Rightarrow> (nat \<Rightarrow> nat list) \<Rightarrow> bool" where
  "chains_ok st Q ch \<longleftrightarrow>
     (\<forall>p d. Q p = Some d \<longrightarrow> packet st (Some p) (ch p) \<and> payload_data st (ch p) = d \<and> (\<forall>a. a \<in> set (ch p) \<longrightarrow> solid st a)) \<and>
     (\<forall>p q. p \<in> dom Q \<longrightarrow> q \<in> dom Q \<longrightarrow> p \<noteq> q \<longrightarrow> set (ch p) \<inter> set (ch q) = {})"

definition packets :: "pstate \<Rightarrow> (nat \<Rightarrow> u8 list option) \<Rightarrow> bool" where
  "packets st Q \<longleftrightarrow> owned st \<and> (\<exists>ch. chains_ok st Q ch)"

definition store_packet :: "custom_free \<Rightarrow> pbuf_layer \<Rightarrow> pbuf_type \<Rightarrow> u8 list \<Rightarrow> pstate \<Rightarrow> (pstate \<times> nat option) option" where
  "store_packet cfree layer type d st = do {
     (st, p) \<leftarrow> pbuf_alloc cfree layer (length d) type st;
     case p of
       None \<Rightarrow> Some (st, None)
     | Some a \<Rightarrow> do { (st, _) \<leftarrow> pbuf_take (Some a) (Some d) (length d) st; Some (st, Some a) }
   }"

definition load_packet :: "nat \<Rightarrow> pstate \<Rightarrow> u8 list option" where
  "load_packet p st = do {
     b \<leftarrow> deref st p;
     (d, _) \<leftarrow> pbuf_copy_partial (Some p) (pb_tot_len b) 0 st;
     Some d
   }"

definition discard_packet :: "custom_free \<Rightarrow> nat \<Rightarrow> pstate \<Rightarrow> pstate option" where
  "discard_packet cfree p st = do { (st, _) \<leftarrow> pbuf_free cfree (Some p) st; Some st }"

lemma packet_load:
  assumes "packet st (Some p) as"
  shows "load_packet p st = Some (payload_data st as)"
proof -
  have h: "ps_live st p" "pb_tot_len (ps_buf st p) = total_len st as" using packet_head [OF assms] by auto
  have l: "total_len st as < 65536" "chain st (Some p) as" using assms by (auto simp: packet_def)
  show ?thesis
    using copy_partial_loop_data [OF l(2,1), of "total_len st as" 0 0 "[]"] l(1) h
    by (simp add: load_packet_def pbuf_copy_partial_def)
qed

lemma alloc_ram_type:
  assumes "alloc_ram off plen st = Some (st', Some p)"
  shows "pb_type (ps_buf st' p) = PBUF_RAM"
proof -
  let ?n = "to_u16 (align_size (SIZEOF_STRUCT_PBUF + off) + align_size plen)"
  have n: "\<not> ?n < align_size plen" using assms by (auto simp: alloc_ram_def Let_def)
  show ?thesis
  proof (cases "mem_malloc (int ?n) (ps_heap st)")
    case (Some z)
    obtain h r where z: "z = (h, r)" by fastforce
    show ?thesis using assms n Some z by (cases r) (auto simp: alloc_ram_def Let_def)
  qed (use assms n in \<open>simp add: alloc_ram_def Let_def\<close>)
qed

text \<open>The headroom of a new packet is what its layer asks for, and only the first pbuf can be empty.\<close>

definition fresh_head :: "pbuf_layer \<Rightarrow> nat \<Rightarrow> pbuf_type \<Rightarrow> pstate \<Rightarrow> nat \<Rightarrow> nat list \<Rightarrow> bool" where
  "fresh_head layer plen type st p as \<longleftrightarrow> pb_payload (ps_buf st p) = p + 20 + layer_offset layer \<and>
     blen st p = (if type = PBUF_POOL then min plen (1516 - layer_offset layer) else plen) \<and>
     (\<forall>a. a \<in> set (tl as) \<longrightarrow> 0 < blen st a) \<and> (\<forall>a. a \<in> set as \<longrightarrow> pb_type (ps_buf st a) = type)"

lemma alloc_confined:
  assumes "owned st" and "plen < 65536" and "type \<in> {PBUF_POOL, PBUF_RAM}"
  shows "\<exists>st' r. pbuf_alloc cfree layer plen type st = Some (st', r) \<and> owned st' \<and>
    (case r of None \<Rightarrow> unchanged st st' | Some p \<Rightarrow> \<exists>as. allocated st plen st' p as \<and> (\<forall>a. a \<in> set as \<longrightarrow> solid st' a) \<and>
       fresh_head layer plen type st' p as)"
proof (cases "type = PBUF_POOL")
  case True
  obtain st' r where r: "alloc_pool cfree (layer_offset layer) plen st = Some (st', r)" "owned st'"
      "case r of None \<Rightarrow> unchanged st st' | Some p \<Rightarrow> \<exists>as. allocated st plen st' p as \<and> (\<forall>a. a \<in> set as \<longrightarrow> pool_pbuf st' a) \<and>
         pb_payload (ps_buf st' p) = p + 20 + layer_offset layer \<and> blen st' p = min plen (1516 - layer_offset layer) \<and>
         (\<forall>a. a \<in> set (tl as) \<longrightarrow> 0 < blen st' a)"
    using alloc_pool_result [OF assms(1,2)] by blast
  show ?thesis
  proof (cases r)
    case (Some p)
    then obtain as where as: "allocated st plen st' p as" "\<And>a. a \<in> set as \<Longrightarrow> pool_pbuf st' a"
        "pb_payload (ps_buf st' p) = p + 20 + layer_offset layer" "blen st' p = min plen (1516 - layer_offset layer)"
        "\<And>a. a \<in> set (tl as) \<Longrightarrow> 0 < blen st' a"
      using r(3) by auto
    have "solid st' a" "pb_type (ps_buf st' a) = PBUF_POOL" if "a \<in> set as" for a
      using as(1) as(2) [OF that] that by (simp_all add: pool_pbuf_def solid_def confined_def allocated_def)
    then have "fresh_head layer plen type st' p as" using as(3-5) True by (simp add: fresh_head_def)
    then show ?thesis using r Some True as(1) \<open>\<And>a. a \<in> set as \<Longrightarrow> solid st' a\<close> by (auto simp: pbuf_alloc_def)
  qed (use r True in \<open>simp add: pbuf_alloc_def\<close>)
next
  case False
  then have t: "type = PBUF_RAM" using assms(3) by simp
  obtain st' r where r: "alloc_ram (layer_offset layer) plen st = Some (st', r)" "owned st'"
      "case r of None \<Rightarrow> unchanged st st' | Some p \<Rightarrow> allocated st plen st' p [p] \<and>
         pb_payload (ps_buf st' p) = p + 20 + layer_offset layer \<and>
         (\<exists>m. (int p - int (ps_ram st'), m) \<in> live (ps_heap st') \<and> int (pb_payload (ps_buf st' p)) + int plen \<le> int p + m)"
    using alloc_ram_result [OF assms(1,2)] by blast
  have "pb_type (ps_buf st' p) = PBUF_RAM" if "r = Some p" for p
    using r(1) that by (auto intro: alloc_ram_type)
  then have "solid st' p" "fresh_head layer plen type st' p [p]" if "r = Some p" for p
    using r(3) that t by (auto simp: solid_def confined_def allocated_def fresh_head_def)
  then show ?thesis using r t by (cases r) (auto simp: pbuf_alloc_def)
qed

text \<open>Packets that an operation leaves alone stay what they are.\<close>

lemma chains_kept:
  assumes "chains_ok st Q ch" and "kept st st'"
    and "\<And>p a. p \<in> dom Q \<Longrightarrow> a \<in> set (ch p) \<Longrightarrow> ps_live st' a \<and> ps_buf st' a = ps_buf st a"
  shows "chains_ok st' Q ch"
proof -
  have "packet st' (Some p) (ch p) \<and> payload_data st' (ch p) = d \<and> (\<forall>a. a \<in> set (ch p) \<longrightarrow> solid st' a)" if "Q p = Some d" for p d
  proof -
    have q: "packet st (Some p) (ch p)" "payload_data st (ch p) = d" "\<And>a. a \<in> set (ch p) \<Longrightarrow> solid st a"
      using assms(1) that by (auto simp: chains_ok_def)
    have same: "ps_live st' a" "ps_buf st' a = ps_buf st a" if "a \<in> set (ch p)" for a
      using assms(3) \<open>Q p = Some d\<close> that by blast+
    have live: "ps_live st a" if "a \<in> set (ch p)" for a using q(3) [OF that] by (simp add: solid_def confined_def)
    have "chain st' (Some p) (ch p) = chain st (Some p) (ch p)" "tot_ok st' (ch p) = tot_ok st (ch p)"
      "total_len st' (ch p) = total_len st (ch p)" "addrs st' (ch p) = addrs st (ch p)"
      using same live by (auto intro!: chain_cong tot_ok_cong total_len_cong addrs_cong)
    moreover have "ps_bytes st' = ps_bytes st" using assms(2) by (simp add: kept_def)
    moreover have "solid st' a" if "a \<in> set (ch p)" for a
      using q(3) [OF that] same [OF that] confined_kept [OF assms(2)] by (simp add: solid_def)
    ultimately show ?thesis using q by (simp add: packet_def payload_data_def)
  qed
  then show ?thesis using assms(1) by (simp add: chains_ok_def)
qed

lemma chains_live: "chains_ok st Q ch \<Longrightarrow> p \<in> dom Q \<Longrightarrow> a \<in> set (ch p) \<Longrightarrow> ps_live st a"
  by (auto simp: chains_ok_def solid_def confined_def)

lemma solid_bytes [simp]: "solid (st\<lparr>ps_bytes := m\<rparr>) a = solid st a"
  by (cases "pb_type (ps_buf st a)") (simp_all add: solid_def confined_def)

lemma owned_bytes [simp]: "owned (st\<lparr>ps_bytes := m\<rparr>) = owned st"
  by (rule owned_cong) simp_all

text \<open>Writing the bytes of one chain leaves the packets made of other headers alone.\<close>

lemma chains_write:
  assumes "owned st" and "chains_ok st Q ch" and "\<And>a. a \<in> set as \<Longrightarrow> solid st a"
    and "\<And>p. p \<in> dom Q \<Longrightarrow> set (ch p) \<inter> set as = {}"
  shows "chains_ok (st\<lparr>ps_bytes := write_at (addrs st as) d (ps_bytes st)\<rparr>) Q ch"
proof -
  let ?st = "st\<lparr>ps_bytes := write_at (addrs st as) d (ps_bytes st)\<rparr>"
  have "payload_data ?st (ch p) = payload_data st (ch p)" if "p \<in> dom Q" for p
  proof -
    have "set (addrs st (ch p)) \<inter> set (addrs st as) = {}"
    proof -
      have "span st a \<inter> span st b = {}" if "a \<in> set (ch p)" "b \<in> set as" for a b
        using confined_disjoint [OF assms(1), of a b] assms(2-4) \<open>p \<in> dom Q\<close> that
        by (fastforce simp: solid_def chains_ok_def)
      then show ?thesis by (auto simp: set_addrs)
    qed
    then show ?thesis by (auto simp: payload_data_def intro!: write_at_other)
  qed
  then show ?thesis using assms(2) by (auto simp: chains_ok_def packet_def)
qed

lemma store_packets:
  assumes "packets st Q" and "length d < 65536" and "type \<in> {PBUF_POOL, PBUF_RAM}"
  shows "\<exists>st' r. store_packet cfree layer type d st = Some (st', r) \<and>
    (case r of None \<Rightarrow> packets st' Q | Some p \<Rightarrow> Q p = None \<and> packets st' (Q(p \<mapsto> d)))"
proof -
  obtain ch where o: "owned st" and ch: "chains_ok st Q ch" using assms(1) by (auto simp: packets_def)
  obtain st1 r where r: "pbuf_alloc cfree layer (length d) type st = Some (st1, r)" "owned st1"
      "case r of None \<Rightarrow> unchanged st st1 | Some p \<Rightarrow> \<exists>as. allocated st (length d) st1 p as \<and> (\<forall>a. a \<in> set as \<longrightarrow> solid st1 a) \<and>
         fresh_head layer (length d) type st1 p as"
    using alloc_confined [OF o assms(2,3)] by blast
  show ?thesis
  proof (cases r)
    case None
    then have "chains_ok st1 Q ch"
      using r(3) chains_live [OF ch] by (intro chains_kept [OF ch]) (auto simp: unchanged_def)
    then show ?thesis using r None by (auto simp: store_packet_def packets_def)
  next
    case (Some p)
    then obtain as where a: "allocated st (length d) st1 p as" "\<And>a. a \<in> set as \<Longrightarrow> solid st1 a" using r(3) by auto
    then have pk: "packet st1 (Some p) as" "total_len st1 as = length d" by (simp_all add: allocated_def)
    have new: "\<not> ps_live st x" if "x \<in> set as" for x using a(1) that by (simp add: allocated_def)
    have c1: "chains_ok st1 Q ch"
      using a(1) chains_live [OF ch] by (intro chains_kept [OF ch]) (auto simp: allocated_def)
    have dj: "set (ch q) \<inter> set as = {}" if "q \<in> dom Q" for q using chains_live [OF ch that] new by blast
    have ps: "p \<in> set as" using pk(1) by (cases as) (auto simp: packet_def)
    have "Q p = None"
    proof (rule ccontr)
      assume "Q p \<noteq> None"
      then have p: "p \<in> dom Q" by auto
      then have "packet st (Some p) (ch p)" using ch by (auto simp: chains_ok_def)
      then have "p \<in> set (ch p)" by (cases "ch p") (auto simp: packet_def)
      then show False using dj [OF p] ps by blast
    qed
    define st2 where "st2 = st1\<lparr>ps_bytes := write_at (addrs st1 as) d (ps_bytes st1)\<rparr>"
    have "pbuf_take (Some p) (Some d) (length d) st1 = Some (st2, ERR_OK)"
      unfolding st2_def using pk by (intro pbuf_take_writes) simp_all
    then have s: "store_packet cfree layer type d st = Some (st2, Some p)"
      using r(1) Some by (simp add: store_packet_def)
    have c2: "chains_ok st2 Q ch" unfolding st2_def by (rule chains_write [OF r(2) c1 a(2) dj])
    have "distinct (addrs st1 as)"
      using pk(1) a(2) by (intro confined_distinct [OF r(2)]) (auto simp: packet_def solid_def dest: chain_distinct)
    then have "payload_data st2 as = d"
      using write_at_same [of "addrs st1 as" d "ps_bytes st1"] pk(2) by (simp add: payload_data_def st2_def)
    moreover have "packet st2 (Some p) as" using pk(1) by (simp add: packet_def st2_def)
    moreover have "solid st2 x" if "x \<in> set as" for x using a(2) that by (simp add: st2_def)
    ultimately have "chains_ok st2 (Q(p \<mapsto> d)) (ch(p := as))"
      using c2 dj unfolding chains_ok_def by auto
    moreover have "owned st2" using r(2) by (simp add: st2_def)
    ultimately show ?thesis using s \<open>Q p = None\<close> by (auto simp: packets_def)
  qed
qed

lemma load_packets:
  assumes "packets st Q" and "Q p = Some d"
  shows "load_packet p st = Some d"
  using assms packet_load [of st p] by (auto simp: packets_def chains_ok_def)

lemma discard_packets:
  assumes "packets st Q" and "Q p = Some d"
  shows "\<exists>st'. discard_packet cfree p st = Some st' \<and> packets st' (Q(p := None))"
proof -
  obtain ch where o: "owned st" and ch: "chains_ok st Q ch" using assms(1) by (auto simp: packets_def)
  define as where "as = ch p"
  have p: "packet st (Some p) as" "\<And>a. a \<in> set as \<Longrightarrow> solid st a" using ch assms(2) by (auto simp: chains_ok_def as_def)
  have "\<not> custom (ps_buf st a) \<and> 0 < pb_ref (ps_buf st a) \<and> pb_ref (ps_buf st a) < 65536" if "a \<in> set as" for a
    using p(2) [OF that] by (simp add: solid_def confined_def)
  then obtain st' c where f: "free_loop cfree 0 (Some p) st = Some (st', c)" "after_free st as st'" "owned st'"
    using free_loop_result [of st "Some p" as 0 cfree] p(1) o by (auto simp: packet_def)
  have "freed st as = length as"
    using p(2) by (simp add: freed_def solid_def takeWhile_eq_all_conv [THEN iffD2])
  then have live: "ps_live st' x \<longleftrightarrow> ps_live st x \<and> x \<notin> set as" "x \<notin> set as \<Longrightarrow> ps_buf st' x = ps_buf st x" "kept st st'" for x
    using f(2) by (simp_all add: after_free_def)
  have c1: "chains_ok st (Q(p := None)) ch" using ch by (auto simp: chains_ok_def)
  have "p \<in> dom Q" using assms(2) by auto
  then have "set (ch q) \<inter> set as = {}" if "q \<in> dom (Q(p := None))" for q
    using ch that unfolding chains_ok_def as_def by (metis domIff fun_upd_apply)
  then have "chains_ok st' (Q(p := None)) ch"
    using live chains_live [OF c1] by (intro chains_kept [OF c1]) blast+
  then show ?thesis using f(1,3) by (auto simp: discard_packet_def pbuf_free_def packets_def)
qed

interpretation pool_packets: packet_map packets "store_packet cfree layer PBUF_POOL" load_packet "discard_packet cfree"
  for cfree layer
  by unfold_locales (use store_packets load_packets discard_packets in auto)

interpretation ram_packets: packet_map packets "store_packet cfree layer PBUF_RAM" load_packet "discard_packet cfree"
  for cfree layer
  by unfold_locales (use store_packets load_packets discard_packets in auto)

section \<open>Properties\<close>

lemma demo_packets: "packets demo_free Map.empty"
  using demo_owned by (simp add: packets_def chains_ok_def)



text \<open>Fields that say nothing about the bytes may change.\<close>

lemma packets_upd:
  assumes "\<And>b. pb_next (f b) = pb_next b \<and> pb_payload (f b) = pb_payload b \<and> pb_tot_len (f b) = pb_tot_len b \<and>
      pb_len (f b) = pb_len b \<and> pb_type (f b) = pb_type b \<and> custom (f b) = custom b \<and> pb_ref (f b) = pb_ref b"
  shows "packets (upd a f st) Q = packets st Q"
proof -
  let ?st = "upd a f st"
  have same: "pb_next (ps_buf ?st x) = pb_next (ps_buf st x)" "pb_payload (ps_buf ?st x) = pb_payload (ps_buf st x)"
    "pb_tot_len (ps_buf ?st x) = pb_tot_len (ps_buf st x)" "blen ?st x = blen st x" "pb_type (ps_buf ?st x) = pb_type (ps_buf st x)"
    "custom (ps_buf ?st x) = custom (ps_buf st x)" "pb_ref (ps_buf ?st x) = pb_ref (ps_buf st x)" "ps_live ?st = ps_live st"
    "ps_bytes ?st = ps_bytes st" "ps_heap ?st = ps_heap st" "ps_ram ?st = ps_ram st" for x
    using assms by (simp_all add: upd_def)
  have "chain ?st p as = chain st p as" "tot_ok ?st as = tot_ok st as" "total_len ?st as = total_len st as" "addrs ?st as = addrs st as" for p as
    by (auto intro!: chain_cong tot_ok_cong total_len_cong addrs_cong simp: same simp del: upd_simps)
  moreover have "solid ?st x = solid st x" for x by (simp only: solid_def confined_def same)
  moreover have "owned ?st = owned st" using assms by (intro owned_upd) auto
  ultimately show ?thesis by (simp only: packets_def chains_ok_def packet_def payload_data_def same)
qed

text \<open>A state that holds one packet of three bytes.\<close>

definition demo_stored :: pstate where
  "demo_stored = fst (the (store_packet (\<lambda>a st. None) PBUF_RAW PBUF_POOL [1, 2, 3] demo_free))"

lemma demo_stored_ok: "packets demo_stored [2536 \<mapsto> [1, 2, 3]]"
proof -
  have t: "mp_tab (memp_init_pool (demo_desc 1536 1000)) = Some 2536" by code_simp
  obtain d where m: "do_memp_malloc_pool (ps_pool demo_free) = (d, Some 2536)"
    using t by (auto simp: do_memp_malloc_pool_def demo_free_def Let_def)
  have a: "align_size 0 = 0" by (simp add: align_size_def LWIP_MEM_ALIGN_SIZE_def)
  have "\<exists>st. alloc_pool (\<lambda>a st. None) 0 3 demo_free = Some (st, Some 2536)"
    using m by (simp add: alloc_pool_def a Let_def) (subst alloc_tail.simps, simp)
  then obtain st where al: "pbuf_alloc (\<lambda>a st. None) PBUF_RAW 3 PBUF_POOL demo_free = Some (st, Some 2536)"
    by (auto simp: pbuf_alloc_def)
  have l: "length [1, 2, 3 :: u8] < 65536" "length [1, 2, 3 :: u8] = 3" by simp_all
  obtain st' r where r: "store_packet (\<lambda>a st. None) PBUF_RAW PBUF_POOL [1, 2, 3] demo_free = Some (st', r)"
      "case r of None \<Rightarrow> packets st' Map.empty | Some p \<Rightarrow> Map.empty p = (None :: u8 list option) \<and> packets st' [p \<mapsto> [1, 2, 3]]"
    using pool_packets.store_rep [OF demo_packets l(1), of "\<lambda>a st. None" PBUF_RAW] by blast
  have "store_packet (\<lambda>a st. None) PBUF_RAW PBUF_POOL [1, 2, 3] demo_free =
      do { (st, _) \<leftarrow> pbuf_take (Some 2536) (Some [1, 2, 3]) 3 st; Some (st, Some 2536) }"
    unfolding store_packet_def l(2) al by simp
  then have "r = Some 2536" using r(1) by (cases "pbuf_take (Some 2536) (Some [1, 2, 3]) 3 st") auto
  then show ?thesis using r by (simp add: demo_stored_def)
qed

end
