(* ===== verification/Headers.thy ===== *)
theory Headers
  imports Packets
begin

text \<open>
  Packets with protocol headers.  A packet is seen as its bytes together with the free room in front of them and the length of
  its first pbuf, which is where the code expects headers.  The lemmas say what allocating, freeing, moving the
  payload pointer, writing header fields and copying do on this level; the protocol theories use nothing else of pbufs.
\<close>

section \<open>Header fields\<close>

text \<open>The processor is little-endian: a \<open>u16_t\<close> in memory is its low byte, then its high byte.\<close>

definition le16 :: "u8 list \<Rightarrow> u16" where
  "le16 bs = ucast (bs ! 0) OR push_bit 8 (ucast (bs ! 1))"

definition le32 :: "u8 list \<Rightarrow> u32" where
  "le32 bs = ucast (bs ! 0) OR push_bit 8 (ucast (bs ! 1)) OR push_bit 16 (ucast (bs ! 2)) OR push_bit 24 (ucast (bs ! 3))"

definition bytes16 :: "u16 \<Rightarrow> u8 list" where
  "bytes16 w = [ucast w, ucast (drop_bit 8 w)]"

definition bytes32 :: "u32 \<Rightarrow> u8 list" where
  "bytes32 w = [ucast w, ucast (drop_bit 8 w), ucast (drop_bit 16 w), ucast (drop_bit 24 w)]"

lemma length_bytes [simp]: "length (bytes16 v) = 2" "length (bytes32 w) = 4"
  by (simp_all add: bytes16_def bytes32_def)

lemma le16_bytes [simp]: "le16 (bytes16 w) = w"
proof (rule bit_word_eqI)
  fix n assume "n < LENGTH(16)"
  then show "bit (le16 (bytes16 w)) n = bit w n" by (auto simp: le16_def bytes16_def bit_simps)
qed

lemma le32_bytes [simp]: "le32 (bytes32 w) = w"
proof (rule bit_word_eqI)
  fix n assume n: "n < LENGTH(32)"
  then consider "n < 8" | "8 \<le> n" "n < 16" | "16 \<le> n" "n < 24" | "24 \<le> n" "n < 32" by fastforce
  then show "bit (le32 (bytes32 w)) n = bit w n" by cases (auto simp: le32_def bytes32_def bit_simps)
qed

lemma two_bytes: "length bs = 2 \<Longrightarrow> bs = [bs ! 0, bs ! 1]" and four_bytes: "length cs = 4 \<Longrightarrow> cs = [cs ! 0, cs ! 1, cs ! 2, cs ! 3]"
  by (auto simp: list_eq_iff_nth_eq less_Suc_eq numeral_eq_Suc)

lemma bytes16_le [simp]: "length bs = 2 \<Longrightarrow> bytes16 (le16 bs) = bs"
proof -
  assume "length bs = 2"
  then have bs: "bs = [bs ! 0, bs ! 1]" by (rule two_bytes)
  have "ucast (le16 bs) = bs ! 0" "ucast (drop_bit 8 (le16 bs)) = bs ! 1"
    by (rule bit_word_eqI, auto simp: le16_def bit_simps dest: bit_imp_le_length)+
  then show ?thesis using bs by (simp add: bytes16_def)
qed

lemma bytes32_le [simp]: "length bs = 4 \<Longrightarrow> bytes32 (le32 bs) = bs"
proof -
  assume "length bs = 4"
  then have bs: "bs = [bs ! 0, bs ! 1, bs ! 2, bs ! 3]" by (rule four_bytes)
  have "ucast (le32 bs) = bs ! 0" "ucast (drop_bit 8 (le32 bs)) = bs ! 1" "ucast (drop_bit 16 (le32 bs)) = bs ! 2"
    "ucast (drop_bit 24 (le32 bs)) = bs ! 3"
    by (rule bit_word_eqI, auto simp: le32_def bit_simps dest: bit_imp_le_length)+
  then show ?thesis using bs by (simp add: bytes32_def)
qed

text \<open>Fields at an offset of a list of bytes, and bytes put over others.\<close>

definition sub :: "u8 list \<Rightarrow> nat \<Rightarrow> nat \<Rightarrow> u8 list" where
  "sub d i n = take n (drop i d)"

definition patch :: "nat \<Rightarrow> u8 list \<Rightarrow> u8 list \<Rightarrow> u8 list" where
  "patch i bs d = take i d @ bs @ drop (i + length bs) d"

lemma length_sub: "length (sub d i n) = min n (length d - i)"
  by (simp add: sub_def)

lemma length_patch [simp]: "i + length bs \<le> length d \<Longrightarrow> length (patch i bs d) = length d"
  by (simp add: patch_def)

lemma sub_patch_same [simp]: "i + length bs \<le> length d \<Longrightarrow> sub (patch i bs d) i (length bs) = bs"
  by (simp add: sub_def patch_def)

lemma sub_patch_other: "i + length bs \<le> length d \<Longrightarrow> j + n \<le> i \<or> i + length bs \<le> j \<Longrightarrow> sub (patch i bs d) j n = sub d j n"
  by (auto simp: sub_def patch_def take_drop min_def drop_drop add.commute)

lemma sub_append: "i + n \<le> length xs \<Longrightarrow> sub (xs @ ys) i n = sub xs i n" "length xs \<le> i \<Longrightarrow> sub (xs @ ys) i n = sub ys (i - length xs) n"
  by (simp_all add: sub_def)

lemma patch_append: "i + length bs \<le> length xs \<Longrightarrow> patch i bs (xs @ ys) = patch i bs xs @ ys"
  by (simp add: patch_def)

lemma patch_all: "length bs = length d \<Longrightarrow> patch 0 bs d = bs"
  by (simp add: patch_def)

lemma patch_0: "length bs \<le> length d \<Longrightarrow> patch 0 bs d = bs @ drop (length bs) d"
  by (simp add: patch_def)

lemma patch_over_hd: "patch (length xs) bs (xs @ ys) = xs @ patch 0 bs ys"
  by (simp add: patch_def)

section \<open>Packets with room and first length\<close>

record pkt =
  pk_data :: "u8 list"
  pk_room :: nat
  pk_head :: nat
  pk_pool :: bool

abbreviation data_of :: "(nat \<Rightarrow> pkt option) \<Rightarrow> nat \<Rightarrow> u8 list option" where
  "data_of M \<equiv> \<lambda>p. map_option pk_data (M p)"

definition head_ok :: "pstate \<Rightarrow> nat \<Rightarrow> nat list \<Rightarrow> pkt \<Rightarrow> bool" where
  "head_ok st p as k \<longleftrightarrow> pb_payload (ps_buf st p) = p + 20 + pk_room k \<and> blen st p = pk_head k \<and>
     (\<forall>a. a \<in> set (tl as) \<longrightarrow> 0 < blen st a) \<and> (pk_pool k \<longrightarrow> (\<forall>a. a \<in> set as \<longrightarrow> pb_type (ps_buf st a) = PBUF_POOL))"

definition pkts_in :: "pstate \<Rightarrow> (nat \<Rightarrow> pkt option) \<Rightarrow> (nat \<Rightarrow> nat list) \<Rightarrow> bool" where
  "pkts_in st M ch \<longleftrightarrow> owned st \<and> chains_ok st (data_of M) ch \<and> (\<forall>p k. M p = Some k \<longrightarrow> head_ok st p (ch p) k)"

definition pkts :: "pstate \<Rightarrow> (nat \<Rightarrow> pkt option) \<Rightarrow> bool" where
  "pkts st M \<longleftrightarrow> (\<exists>ch. pkts_in st M ch)"

lemma dom_data [simp]: "dom (data_of M) = dom M"
  by auto

lemma pkts_packets: "pkts st M \<Longrightarrow> packets st (data_of M)"
  by (auto simp: pkts_def pkts_in_def packets_def)

text \<open>One packet in full.\<close>

lemma pkts_inD:
  assumes "pkts_in st M ch" and "M p = Some k"
  shows "packet st (Some p) (ch p)" "payload_data st (ch p) = pk_data k" "\<And>a. a \<in> set (ch p) \<Longrightarrow> solid st a"
    "head_ok st p (ch p) k" "ch p = p # tl (ch p)" "owned st"
proof -
  have d: "data_of M p = Some (pk_data k)" using assms(2) by simp
  show pk: "packet st (Some p) (ch p)" "payload_data st (ch p) = pk_data k" "\<And>a. a \<in> set (ch p) \<Longrightarrow> solid st a"
    using assms(1) d unfolding pkts_in_def chains_ok_def by blast+
  show "head_ok st p (ch p) k" "owned st" using assms by (simp_all add: pkts_in_def)
  show "ch p = p # tl (ch p)" using pk(1) by (cases "ch p") (auto simp: packet_def)
qed

lemma pkts_disjoint: "pkts_in st M ch \<Longrightarrow> x \<in> dom M \<Longrightarrow> y \<in> dom M \<Longrightarrow> x \<noteq> y \<Longrightarrow> a \<in> set (ch x) \<Longrightarrow> a \<notin> set (ch y)"
  unfolding pkts_in_def chains_ok_def dom_data by blast

lemma pkts_inI:
  assumes "owned st" and "\<And>p k. M p = Some k \<Longrightarrow> packet st (Some p) (ch p) \<and> payload_data st (ch p) = pk_data k \<and>
      (\<forall>a. a \<in> set (ch p) \<longrightarrow> solid st a) \<and> head_ok st p (ch p) k"
    and "\<And>p q a. p \<in> dom M \<Longrightarrow> q \<in> dom M \<Longrightarrow> p \<noteq> q \<Longrightarrow> a \<in> set (ch p) \<Longrightarrow> a \<notin> set (ch q)"
  shows "pkts_in st M ch"
  unfolding pkts_in_def chains_ok_def dom_data
proof (intro conjI allI impI)
  fix p d assume "data_of M p = Some d"
  then obtain k where k: "M p = Some k" "d = pk_data k" by auto
  show "packet st (Some p) (ch p)" "payload_data st (ch p) = d" using assms(2) [OF k(1)] k(2) by simp_all
  show "solid st a" if "a \<in> set (ch p)" for a using assms(2) [OF k(1)] that by blast
next
  fix p q assume "p \<in> dom M" "q \<in> dom M" "p \<noteq> q"
  then show "set (ch p) \<inter> set (ch q) = {}" using assms(3) by blast
qed (use assms in blast)+

lemma pkts_facts:
  assumes "pkts st M" and "M p = Some k"
  shows "deref st p = Some (ps_buf st p)" "ps_live st p" "pb_tot_len (ps_buf st p) = length (pk_data k)"
    "pb_len (ps_buf st p) = pk_head k" "pb_payload (ps_buf st p) = p + 20 + pk_room k" "pk_head k \<le> length (pk_data k)"
    "length (pk_data k) < 65536" "pb_type (ps_buf st p) \<in> {PBUF_RAM, PBUF_POOL}" "\<not> custom (ps_buf st p)" "pb_ref (ps_buf st p) = 1"
proof -
  obtain ch where c: "pkts_in st M ch" using assms(1) by (auto simp: pkts_def)
  note q = pkts_inD [OF c assms(2)]
  have h: "ps_live st p" "pb_tot_len (ps_buf st p) = total_len st (ch p)" using packet_head [OF q(1)] by auto
  have l: "total_len st (ch p) = length (pk_data k)" using q(2) by (metis length_data)
  have "total_len st (ch p) = blen st p + total_len st (tl (ch p))" by (subst q(5)) simp
  then show "pk_head k \<le> length (pk_data k)" using l q(4) by (simp add: head_ok_def)
  show "deref st p = Some (ps_buf st p)" "ps_live st p" using h by simp_all
  show "pb_tot_len (ps_buf st p) = length (pk_data k)" using h l by simp
  show "pb_len (ps_buf st p) = pk_head k" "pb_payload (ps_buf st p) = p + 20 + pk_room k" using q(4) by (simp_all add: head_ok_def)
  show "length (pk_data k) < 65536" using q(1) l by (simp add: packet_def)
  have "p \<in> set (ch p)" using q(5) by (metis list.set_intros(1))
  then have "solid st p" by (rule q(3))
  then show "pb_type (ps_buf st p) \<in> {PBUF_RAM, PBUF_POOL}" "\<not> custom (ps_buf st p)" "pb_ref (ps_buf st p) = 1"
    by (cases "pb_type (ps_buf st p)"; simp add: solid_def confined_def)+
qed

text \<open>Reading a header.\<close>

lemma pkts_read:
  assumes "pkts st M" and "M p = Some k" and "i + n \<le> pk_head k"
  shows "rd (ps_bytes st) (p + 20 + pk_room k + i) n = sub (pk_data k) i n"
proof -
  obtain ch where c: "pkts_in st M ch" using assms(1) by (auto simp: pkts_def)
  note q = pkts_inD [OF c assms(2)]
  have h: "pb_payload (ps_buf st p) = p + 20 + pk_room k" "blen st p = pk_head k" using q(4) by (simp_all add: head_ok_def)
  have "pk_data k = rd (ps_bytes st) (p + 20 + pk_room k) (pk_head k) @ payload_data st (tl (ch p))"
    using q(2) q(5) h by (metis data_simps(2))
  then have "sub (pk_data k) i n = take n (drop i (rd (ps_bytes st) (p + 20 + pk_room k) (pk_head k)))"
    using assms(3) by (simp add: sub_def)
  then show ?thesis using rd_part [OF assms(3), of "ps_bytes st" "p + 20 + pk_room k"] by (simp add: add.assoc)
qed

text \<open>Changing one packet: the headers of all others are untouched.\<close>

lemma pkts_change:
  assumes "pkts_in st M ch" and "M p = Some k" and "owned st'" and "packet st' (Some p) as" and "payload_data st' as = pk_data k'"
    and "\<And>a. a \<in> set as \<Longrightarrow> solid st' a" and "head_ok st' p as k'" and "set as \<subseteq> set (ch p)"
    and "\<And>q. q \<in> dom M \<Longrightarrow> q \<noteq> p \<Longrightarrow> payload_data st' (ch q) = payload_data st (ch q)"
    and "\<And>a. ps_live st a \<Longrightarrow> a \<notin> set (ch p) \<Longrightarrow> ps_live st' a \<and> ps_buf st' a = ps_buf st a \<and> solid st' a = solid st a"
  shows "pkts_in st' (M(p \<mapsto> k')) (ch(p := as))"
proof -
  have c: "chains_ok st (data_of M) ch" using assms(1) by (simp add: pkts_in_def)
  have dj: "set (ch q) \<inter> set (ch r) = {}" if "q \<in> dom M" "r \<in> dom M" "q \<noteq> r" for q r
    using c that unfolding chains_ok_def dom_data by blast
  have other: "packet st' (Some q) (ch q) \<and> payload_data st' (ch q) = pk_data j \<and> (\<forall>a. a \<in> set (ch q) \<longrightarrow> solid st' a) \<and> head_ok st' q (ch q) j"
    if q: "M q = Some j" "q \<noteq> p" for q j
  proof -
    note o = pkts_inD [OF assms(1) q(1)]
    have out: "ps_live st' a \<and> ps_buf st' a = ps_buf st a \<and> solid st' a = solid st a" if "a \<in> set (ch q)" for a
    proof (rule assms(10))
      show "ps_live st a" using o(3) [OF that] by (simp add: solid_def confined_def)
      show "a \<notin> set (ch p)" using dj [of q p] q assms(2) that by auto
    qed
    have "chain st' (Some q) (ch q) = chain st (Some q) (ch q)" "tot_ok st' (ch q) = tot_ok st (ch q)" "total_len st' (ch q) = total_len st (ch q)"
      using out o(3) by (auto intro!: chain_cong tot_ok_cong total_len_cong simp: solid_def confined_def)
    moreover have "q \<in> set (ch q)" "set (tl (ch q)) \<subseteq> set (ch q)" using o(5) by (metis list.set_intros(1)) (metis list.set_sel(2) list.sel(2) subsetI)
    then have "head_ok st' q (ch q) j" using o(4) out by (auto simp: head_ok_def)
    ultimately show ?thesis using o out assms(9) [of q] q by (auto simp: packet_def)
  qed
  have "chains_ok st' (data_of (M(p \<mapsto> k'))) (ch(p := as))"
    unfolding chains_ok_def
  proof (intro conjI allI impI)
    fix q d assume "data_of (M(p \<mapsto> k')) q = Some d"
    then show "packet st' (Some q) ((ch(p := as)) q)" "payload_data st' ((ch(p := as)) q) = d"
      using other assms(4,5) by (auto split: if_splits)
    fix a assume "a \<in> set ((ch(p := as)) q)"
    then show "solid st' a" using other assms(6) \<open>data_of (M(p \<mapsto> k')) q = Some d\<close> by (auto split: if_splits)
  next
    fix q r assume "q \<in> dom (data_of (M(p \<mapsto> k')))" "r \<in> dom (data_of (M(p \<mapsto> k')))" "q \<noteq> r"
    then have "q \<in> dom M" "r \<in> dom M" "q \<noteq> r" using assms(2) by (auto split: if_splits)
    then have "set (ch q) \<inter> set (ch r) = {}" by (rule dj)
    moreover have "set ((ch(p := as)) x) \<subseteq> set (ch x)" for x using assms(8) by simp
    ultimately show "set ((ch(p := as)) q) \<inter> set ((ch(p := as)) r) = {}" by blast
  qed
  then show ?thesis using other assms(3,7) by (auto simp: pkts_in_def)
qed

section \<open>Moving the payload pointer\<close>

lemma solid_same:
  "ps_buf st' x = ps_buf st x \<Longrightarrow> ps_live st' x = ps_live st x \<Longrightarrow> ps_heap st' = ps_heap st \<Longrightarrow> ps_ram st' = ps_ram st \<Longrightarrow>
   solid st' x = solid st x"
  by (simp only: solid_def confined_def)

lemma head_move:
  assumes c: "pkts_in st M ch" and m: "M p = Some k"
    and pay: "p + 20 \<le> pay" "pay + l = p + 20 + pk_room k + pk_head k" and t: "t = l + total_len st (tl (ch p))" "t < 65536"
  shows "pkts_in (upd p (\<lambda>b. b\<lparr>pb_payload := pay, pb_len := l, pb_tot_len := t\<rparr>) st)
    (M(p \<mapsto> k\<lparr>pk_data := rd (ps_bytes st) pay l @ payload_data st (tl (ch p)), pk_room := pay - p - 20, pk_head := l\<rparr>)) ch"
proof -
  let ?f = "\<lambda>b. b\<lparr>pb_payload := pay, pb_len := l, pb_tot_len := t\<rparr>"
  define st' where "st' = upd p ?f st"
  let ?k = "k\<lparr>pk_data := rd (ps_bytes st) pay l @ payload_data st (tl (ch p)), pk_room := pay - p - 20, pk_head := l\<rparr>"
  note q = pkts_inD [OF c m]
  define as where "as = tl (ch p)"
  have ch: "ch p = p # as" using q(5) by (simp add: as_def)
  have chn: "chain st (Some p) (p # as)" "tot_ok st (p # as)" using q(1) by (simp_all add: packet_def ch)
  have np: "p \<notin> set as" using chain_distinct [OF chn(1)] by simp
  have h: "pb_payload (ps_buf st p) = p + 20 + pk_room k" "blen st p = pk_head k" "\<And>a. a \<in> set as \<Longrightarrow> 0 < blen st a"
    "\<And>a. pk_pool k \<Longrightarrow> a \<in> set (p # as) \<Longrightarrow> pb_type (ps_buf st a) = PBUF_POOL"
    using q(4) [unfolded head_ok_def ch list.sel] by blast+
  have live: "ps_live st' = ps_live st" and byt: "ps_bytes st' = ps_bytes st" by (simp_all add: st'_def)
  have buf: "ps_buf st' x = ps_buf st x" if "x \<noteq> p" for x using that by (simp add: st'_def)
  have bp: "ps_buf st' p = (ps_buf st p)\<lparr>pb_payload := pay, pb_len := l, pb_tot_len := t\<rparr>" by (simp add: st'_def)
  have heap: "ps_heap st' = ps_heap st" "ps_ram st' = ps_ram st" by (simp_all add: st'_def upd_def)
  have e: "pay + l = pb_payload (ps_buf st p) + blen st p" using pay(2) h(1,2) by simp
  have i: "int pay + int l = int (pb_payload (ps_buf st p)) + int (blen st p)" using e by linarith
  have conf: "confined st' p = confined st p"
  proof -
    have "p + 20 \<le> pb_payload (ps_buf st p)" using h(1) by simp
    moreover have "pay + l \<le> p + 1536 \<longleftrightarrow> pb_payload (ps_buf st p) + blen st p \<le> p + 1536" using e by simp
    ultimately show ?thesis using pay(1) i unfolding confined_def bp heap live
      by (cases "pb_type (ps_buf st p)") (simp_all add: custom_def)
  qed
  have sol: "solid st' x = solid st x" for x
  proof (cases "x = p")
    case True
    then show ?thesis using conf bp by (simp add: solid_def)
  next
    case False
    show ?thesis using buf [OF False] live heap by (intro solid_same) simp_all
  qed
  have "chain st' (Some p) (p # as)" using chn(1) live buf bp chain_cong [of "p # as" st' st "Some p"] by (auto simp: st'_def)
  moreover have ta: "total_len st' as = total_len st as" using np buf by (intro total_len_cong) metis
  have "tot_ok st' as = tot_ok st as" using np buf by (intro tot_ok_cong) metis
  then have "tot_ok st' (p # as)" using chn(2) ta t(1) bp by (simp add: as_def)
  ultimately have pk: "packet st' (Some p) (p # as)" using ta t bp by (simp add: packet_def as_def)
  have pd: "payload_data st' xs = payload_data st xs" if "p \<notin> set xs" for xs
  proof -
    have "addrs st' xs = addrs st xs" using that buf by (intro addrs_cong) metis
    then show ?thesis by (simp add: payload_data_def byt)
  qed
  have "payload_data st' (p # as) = pk_data ?k" using pd [OF np] bp byt by (simp add: as_def)
  moreover have "head_ok st' p (p # as) ?k"
  proof -
    have "0 < blen st' a" if "a \<in> set as" for a
    proof -
      have "a \<noteq> p" using that np by blast
      then show ?thesis using buf h(3) [OF that] by simp
    qed
    moreover have "pb_type (ps_buf st' a) = pb_type (ps_buf st a)" for a using bp buf [of a] by (cases "a = p") auto
    ultimately show ?thesis using bp h(4) pay(1) by (simp add: head_ok_def)
  qed
  moreover have "payload_data st' (ch x) = payload_data st (ch x)" if "x \<in> dom M" "x \<noteq> p" for x
  proof (rule pd)
    have "set (ch x) \<inter> set (ch p) = {}"
      using c that m unfolding pkts_in_def chains_ok_def dom_data by blast
    then show "p \<notin> set (ch x)" by (auto simp: ch)
  qed
  moreover have "owned st'" using q(6) by (simp add: st'_def owned_upd custom_def)
  ultimately have "pkts_in st' (M(p \<mapsto> ?k)) (ch(p := p # as))"
    using pk q(3) sol buf live by (intro pkts_change [OF c m]) (auto simp: ch)
  then show ?thesis by (simp add: st'_def ch [symmetric])
qed

definition strip :: "nat \<Rightarrow> pkt \<Rightarrow> pkt" where
  "strip n k = k\<lparr>pk_data := drop n (pk_data k), pk_room := pk_room k + n, pk_head := pk_head k - n\<rparr>"

definition push :: "u8 list \<Rightarrow> pkt \<Rightarrow> pkt" where
  "push bs k = k\<lparr>pk_data := bs @ pk_data k, pk_room := pk_room k - length bs, pk_head := pk_head k + length bs\<rparr>"

lemma pkt_ops [simp]:
  "pk_data (strip n k) = drop n (pk_data k)" "pk_room (strip n k) = pk_room k + n" "pk_head (strip n k) = pk_head k - n" "pk_pool (strip n k) = pk_pool k"
  "pk_data (push bs k) = bs @ pk_data k" "pk_room (push bs k) = pk_room k - length bs" "pk_head (push bs k) = pk_head k + length bs"
  "pk_pool (push bs k) = pk_pool k"
  by (simp_all add: strip_def push_def)

lemma strip_0 [simp]: "strip 0 k = k"
  by (simp add: strip_def)

lemma pkts_strip:
  assumes "pkts st M" and "M p = Some k" and "n \<le> pk_head k" and "n < 32768"
  shows "\<exists>st'. pbuf_header (Some p) (- int n) st = Some (st', False) \<and> pkts st' (M(p \<mapsto> strip n k)) \<and> ps_bytes st' = ps_bytes st"
proof (cases "n = 0")
  case True
  have "M(p \<mapsto> strip n k) = M" using True assms(2) by auto
  then show ?thesis using True assms(1) by (simp add: pbuf_header_def pbuf_header_impl_def)
next
  case False
  obtain ch where c: "pkts_in st M ch" using assms(1) by (auto simp: pkts_def)
  note q = pkts_inD [OF c assms(2)] and f = pkts_facts [OF assms(1,2)]
  let ?st = "upd p (\<lambda>b. b\<lparr>pb_payload := p + 20 + pk_room k + n, pb_len := pk_head k - n, pb_tot_len := length (pk_data k) - n\<rparr>) st"
  have "packet st (Some p) (p # tl (ch p))" using q(1,5) by metis
  from header_hide [OF this] have "pbuf_header (Some p) (- int n) st =
      Some (upd p (\<lambda>b. b\<lparr>pb_payload := pb_payload b + n, pb_len := pb_len b - n, pb_tot_len := pb_tot_len b - n\<rparr>) st, False)"
    using False assms(3,4) f by simp
  also have "upd p (\<lambda>b. b\<lparr>pb_payload := pb_payload b + n, pb_len := pb_len b - n, pb_tot_len := pb_tot_len b - n\<rparr>) st = ?st"
    using f by (simp add: upd_def)
  finally have h: "pbuf_header (Some p) (- int n) st = Some (?st, False)" .
  have d: "pk_data k = rd (ps_bytes st) (p + 20 + pk_room k) (pk_head k) @ payload_data st (tl (ch p))"
    using q(2) q(5) f(4,5) by (metis data_simps(2))
  then have l: "length (pk_data k) = pk_head k + total_len st (tl (ch p))" by simp
  have "rd (ps_bytes st) (p + 20 + pk_room k + n) (pk_head k - n) = drop n (rd (ps_bytes st) (p + 20 + pk_room k) (pk_head k))"
    using rd_part [of n "pk_head k - n" "pk_head k" "ps_bytes st" "p + 20 + pk_room k"] assms(3) by simp
  then have "rd (ps_bytes st) (p + 20 + pk_room k + n) (pk_head k - n) @ payload_data st (tl (ch p)) = drop n (pk_data k)"
    using d assms(3) by (metis (no_types, lifting) diff_is_0_eq drop0 drop_append length_rd)
  moreover have "pkts_in ?st (M(p \<mapsto> k\<lparr>pk_data := rd (ps_bytes st) (p + 20 + pk_room k + n) (pk_head k - n) @ payload_data st (tl (ch p)),
      pk_room := p + 20 + pk_room k + n - p - 20, pk_head := pk_head k - n\<rparr>)) ch"
    using l assms(3) f(7) by (intro head_move [OF c assms(2)]) simp_all
  ultimately have "pkts ?st (M(p \<mapsto> strip n k))" by (auto simp: pkts_def strip_def)
  then show ?thesis using h by (intro exI [of _ ?st]) simp
qed

lemma pkts_push:
  assumes "pkts st M" and "M p = Some k" and "n \<le> pk_room k" and "0 < n" and "n < 32768" and "length (pk_data k) + n < 65536"
  shows "\<exists>st' hd. pbuf_header (Some p) (int n) st = Some (st', False) \<and> length hd = n \<and> pkts st' (M(p \<mapsto> push hd k)) \<and>
    hd = rd (ps_bytes st) (p + 20 + pk_room k - n) n \<and> ps_bytes st' = ps_bytes st"
proof -
  obtain ch where c: "pkts_in st M ch" using assms(1) by (auto simp: pkts_def)
  note q = pkts_inD [OF c assms(2)] and f = pkts_facts [OF assms(1,2)]
  let ?pay = "p + 20 + pk_room k - n"
  let ?st = "upd p (\<lambda>b. b\<lparr>pb_payload := ?pay, pb_len := pk_head k + n, pb_tot_len := length (pk_data k) + n\<rparr>) st"
  have "pbuf_header (Some p) (int n) st =
      Some (upd p (\<lambda>b. b\<lparr>pb_payload := pb_payload b - n, pb_len := pb_len b + n, pb_tot_len := pb_tot_len b + n\<rparr>) st, False)"
    using assms(3-6) f by (intro header_reveal) auto
  also have "upd p (\<lambda>b. b\<lparr>pb_payload := pb_payload b - n, pb_len := pb_len b + n, pb_tot_len := pb_tot_len b + n\<rparr>) st = ?st"
    using f by (simp add: upd_def)
  finally have h: "pbuf_header (Some p) (int n) st = Some (?st, False)" .
  have d: "pk_data k = rd (ps_bytes st) (p + 20 + pk_room k) (pk_head k) @ payload_data st (tl (ch p))"
    using q(2) q(5) f(4,5) by (metis data_simps(2))
  then have l: "length (pk_data k) = pk_head k + total_len st (tl (ch p))" by simp
  have s: "rd (ps_bytes st) ?pay (pk_head k + n) = rd (ps_bytes st) ?pay n @ rd (ps_bytes st) (p + 20 + pk_room k) (pk_head k)"
  proof -
    have "[?pay..<?pay + (pk_head k + n)] = [?pay..<?pay + n] @ [?pay + n..<?pay + n + pk_head k]"
      using upt_add_eq_append [of ?pay "?pay + n" "pk_head k"] by (simp add: ac_simps)
    moreover have "?pay + n = p + 20 + pk_room k" using assms(3) by simp
    ultimately show ?thesis by (simp add: rd_def)
  qed
  have "pkts_in ?st (M(p \<mapsto> k\<lparr>pk_data := rd (ps_bytes st) ?pay (pk_head k + n) @ payload_data st (tl (ch p)),
      pk_room := ?pay - p - 20, pk_head := pk_head k + n\<rparr>)) ch"
    using l assms(3,6) by (intro head_move [OF c assms(2)]) simp_all
  moreover have "k\<lparr>pk_data := rd (ps_bytes st) ?pay (pk_head k + n) @ payload_data st (tl (ch p)),
      pk_room := ?pay - p - 20, pk_head := pk_head k + n\<rparr> = push (rd (ps_bytes st) ?pay n) k"
    using s d by (simp add: push_def)
  ultimately have "pkts ?st (M(p \<mapsto> push (rd (ps_bytes st) ?pay n) k))" by (auto simp: pkts_def)
  then show ?thesis using h by (intro exI [of _ ?st] exI [of _ "rd (ps_bytes st) ?pay n"]) simp
qed

lemma pkts_no_room:
  assumes "pkts st M" and "M p = Some k" and "pk_room k < n" and "n < 32768"
  shows "pbuf_header (Some p) (int n) st = Some (st, True)"
  using assms pkts_facts [OF assms(1,2)] by (auto simp: pbuf_header_def pbuf_header_impl_def)

lemma pkts_too_short:
  assumes "pkts st M" and "M p = Some k" and "pk_head k < n" and "n < 32768"
  shows "pbuf_header (Some p) (- int n) st = Some (st, True)"
  using assms pkts_facts [OF assms(1,2)] by (auto simp: pbuf_header_def pbuf_header_impl_def)

section \<open>Writing header fields\<close>

lemma pkts_write:
  assumes "pkts st M" and "M p = Some k" and "i + length bs \<le> pk_head k"
  shows "pkts (memcpy (p + 20 + pk_room k + i) bs st) (M(p \<mapsto> k\<lparr>pk_data := patch i bs (pk_data k)\<rparr>))"
proof -
  obtain ch where c: "pkts_in st M ch" using assms(1) by (auto simp: pkts_def)
  note q = pkts_inD [OF c assms(2)]
  define st' where "st' = memcpy (p + 20 + pk_room k + i) bs st"
  have fr: "ps_buf st' = ps_buf st" "ps_live st' = ps_live st" "ps_heap st' = ps_heap st" "ps_ram st' = ps_ram st"
    by (simp_all add: st'_def memcpy_def)
  have byt: "ps_bytes st' = wr (p + 20 + pk_room k + i) bs (ps_bytes st)" by (simp add: st'_def memcpy_def)
  have sol: "solid st' x = solid st x" for x using fr by (intro solid_same) simp_all
  have h: "pb_payload (ps_buf st p) = p + 20 + pk_room k" "blen st p = pk_head k" using q(4) by (simp_all add: head_ok_def)
  have ad: "addrs st' xs = addrs st xs" for xs by (intro addrs_cong) (simp add: fr)
  have out: "payload_data st' xs = payload_data st xs" if "\<And>a. a \<in> set xs \<Longrightarrow> solid st a" "p \<notin> set xs" for xs
  proof -
    have "span st a \<inter> span st p = {}" if "a \<in> set xs" for a
      using confined_disjoint [OF q(6), of a p] \<open>\<And>a. a \<in> set xs \<Longrightarrow> solid st a\<close> [OF that] q(3) [of p] q(5) that \<open>p \<notin> set xs\<close>
      by (metis list.set_intros(1) solid_def)
    moreover have "{p + 20 + pk_room k + i..<p + 20 + pk_room k + i + length bs} \<subseteq> span st p"
      using assms(3) h by (auto simp: span_def)
    ultimately have "x \<notin> {p + 20 + pk_room k + i..<p + 20 + pk_room k + i + length bs}" if "x \<in> set (addrs st xs)" for x
      using that unfolding set_addrs by blast
    then show ?thesis unfolding payload_data_def ad by (auto simp: byt wr_def)
  qed
  define as where "as = tl (ch p)"
  have ch: "ch p = p # as" using q(5) by (simp add: as_def)
  have np: "p \<notin> set as" using chain_distinct [of st "Some p" "ch p"] q(1) by (simp add: ch packet_def)
  let ?d = "rd (ps_bytes st) (p + 20 + pk_room k) (pk_head k)"
  have w: "rd (ps_bytes st') (p + 20 + pk_room k) (pk_head k) = patch i bs ?d"
    using assms(3) by (intro nth_equalityI) (auto simp: byt rd_def wr_def patch_def nth_append min_def)
  have d: "pk_data k = ?d @ payload_data st as" using q(2) h by (simp add: ch)
  have "payload_data st' as = payload_data st as" using q(3) np by (intro out) (simp_all add: ch)
  then have "payload_data st' (p # as) = pk_data (k\<lparr>pk_data := patch i bs (pk_data k)\<rparr>)"
    using w h d assms(3) by (simp add: fr patch_append)
  moreover have "packet st' (Some p) (p # as)" using q(1) by (simp add: ch packet_def fr st'_def memcpy_def)
  moreover have "head_ok st' p (p # as) (k\<lparr>pk_data := patch i bs (pk_data k)\<rparr>)" using q(4) by (simp add: head_ok_def fr ch)
  moreover have "owned st'" using q(6) by (simp add: st'_def memcpy_def)
  moreover have "payload_data st' (ch x) = payload_data st (ch x)" if x: "x \<in> dom M" "x \<noteq> p" for x
  proof -
    obtain j where j: "M x = Some j" using x(1) by auto
    have "p \<notin> set (ch x)" using pkts_disjoint [OF c, of p x p] x assms(2) by (auto simp: ch)
    then show ?thesis using pkts_inD(3) [OF c j] by (intro out) simp_all
  qed
  ultimately have "pkts_in st' (M(p \<mapsto> k\<lparr>pk_data := patch i bs (pk_data k)\<rparr>)) (ch(p := p # as))"
    using q(3) sol fr by (intro pkts_change [OF c assms(2)]) (auto simp: ch)
  then show ?thesis by (auto simp: pkts_def st'_def)
qed

lemma pkts_upd:
  assumes "\<And>b. pb_next (f b) = pb_next b \<and> pb_payload (f b) = pb_payload b \<and> pb_tot_len (f b) = pb_tot_len b \<and>
      pb_len (f b) = pb_len b \<and> pb_type (f b) = pb_type b \<and> custom (f b) = custom b \<and> pb_ref (f b) = pb_ref b"
  shows "pkts (upd a f st) M = pkts st M"
proof -
  let ?st = "upd a f st"
  have same: "pb_next (ps_buf ?st x) = pb_next (ps_buf st x)" "pb_payload (ps_buf ?st x) = pb_payload (ps_buf st x)"
    "pb_tot_len (ps_buf ?st x) = pb_tot_len (ps_buf st x)" "blen ?st x = blen st x" "pb_type (ps_buf ?st x) = pb_type (ps_buf st x)"
    "custom (ps_buf ?st x) = custom (ps_buf st x)" "pb_ref (ps_buf ?st x) = pb_ref (ps_buf st x)" "ps_live ?st = ps_live st"
    "ps_bytes ?st = ps_bytes st" "ps_heap ?st = ps_heap st" "ps_ram ?st = ps_ram st" for x
    using assms by (simp_all add: upd_def)
  have "chain ?st p as = chain st p as" "tot_ok ?st as = tot_ok st as" "total_len ?st as = total_len st as" "addrs ?st as = addrs st as" for p as
    by (auto intro!: chain_cong tot_ok_cong total_len_cong addrs_cong simp: same simp del: upd_simps)
  moreover have "solid ?st x = solid st x" for x by (simp only: solid_def confined_def same)
  moreover have "owned ?st = owned st" using assms by (intro owned_upd) auto
  ultimately show ?thesis by (simp only: pkts_def pkts_in_def head_ok_def chains_ok_def packet_def payload_data_def same)
qed

section \<open>Allocating and freeing\<close>

lemma pkts_kept:
  assumes "pkts_in st M ch" and "owned st'" and "kept st st'" and "\<And>p k. M' p = Some k \<Longrightarrow> M p = Some k"
    and "\<And>p a. p \<in> dom M' \<Longrightarrow> a \<in> set (ch p) \<Longrightarrow> ps_live st' a \<and> ps_buf st' a = ps_buf st a"
  shows "pkts_in st' M' ch"
proof (rule pkts_inI [OF assms(2)])
  fix p k assume k: "M' p = Some k"
  note q = pkts_inD [OF assms(1) assms(4) [OF k]]
  have s: "ps_live st' a" "ps_buf st' a = ps_buf st a" if "a \<in> set (ch p)" for a using assms(5) [of p a] that k by blast+
  have live: "ps_live st a" if "a \<in> set (ch p)" for a using q(3) [OF that] by (simp add: solid_def confined_def)
  have "p \<in> set (ch p)" "set (tl (ch p)) \<subseteq> set (ch p)" using q(5) by (metis list.set_intros(1)) (metis list.set_sel(2) list.sel(2) subsetI)
  then have "head_ok st' p (ch p) k" using q(4) s by (auto simp: head_ok_def)
  moreover have "chain st' (Some p) (ch p) = chain st (Some p) (ch p)" "tot_ok st' (ch p) = tot_ok st (ch p)"
    "total_len st' (ch p) = total_len st (ch p)" "addrs st' (ch p) = addrs st (ch p)"
    using s live by (auto intro!: chain_cong tot_ok_cong total_len_cong addrs_cong)
  moreover have "ps_bytes st' = ps_bytes st" using assms(3) by (simp add: kept_def)
  moreover have "solid st' a" if "a \<in> set (ch p)" for a
    using q(3) [OF that] s [OF that] confined_kept [OF assms(3)] by (simp add: solid_def)
  ultimately show "packet st' (Some p) (ch p) \<and> payload_data st' (ch p) = pk_data k \<and> (\<forall>a. a \<in> set (ch p) \<longrightarrow> solid st' a) \<and>
      head_ok st' p (ch p) k"
    using q by (simp add: packet_def payload_data_def)
next
  fix p q a assume "p \<in> dom M'" "q \<in> dom M'" "p \<noteq> q" "a \<in> set (ch p)"
  moreover have "dom M' \<subseteq> dom M" using assms(4) by blast
  ultimately show "a \<notin> set (ch q)" using pkts_disjoint [OF assms(1)] by blast
qed

lemma pkts_live: "pkts_in st M ch \<Longrightarrow> p \<in> dom M \<Longrightarrow> a \<in> set (ch p) \<Longrightarrow> ps_live st a"
  using chains_live [of st "data_of M" ch p a] by (simp add: pkts_in_def)

lemma pkts_alloc:
  assumes "pkts st M" and "n < 65536" and "type \<in> {PBUF_POOL, PBUF_RAM}"
  shows "\<exists>st' r. pbuf_alloc cfree layer n type st = Some (st', r) \<and>
    (case r of None \<Rightarrow> pkts st' M
     | Some p \<Rightarrow> M p = None \<and> (\<exists>k. pkts st' (M(p \<mapsto> k)) \<and> length (pk_data k) = n \<and> pk_room k = layer_offset layer \<and>
         pk_head k = (if type = PBUF_POOL then min n (1516 - layer_offset layer) else n) \<and> pk_pool k = (type = PBUF_POOL)))"
proof -
  obtain ch where c: "pkts_in st M ch" using assms(1) by (auto simp: pkts_def)
  have o: "owned st" using c by (simp add: pkts_in_def)
  obtain st1 r where r: "pbuf_alloc cfree layer n type st = Some (st1, r)" "owned st1"
      "case r of None \<Rightarrow> unchanged st st1 | Some p \<Rightarrow> \<exists>as. allocated st n st1 p as \<and> (\<forall>a. a \<in> set as \<longrightarrow> solid st1 a) \<and>
         fresh_head layer n type st1 p as"
    using alloc_confined [OF o assms(2,3)] by blast
  show ?thesis
  proof (cases r)
    case None
    then have "pkts_in st1 M ch"
      using r(2,3) pkts_live [OF c] by (intro pkts_kept [OF c]) (auto simp: unchanged_def)
    then show ?thesis using r None by (auto simp: pkts_def)
  next
    case (Some p)
    then obtain as where a: "allocated st n st1 p as" "\<And>a. a \<in> set as \<Longrightarrow> solid st1 a" "fresh_head layer n type st1 p as" using r(3) by auto
    then have pk: "packet st1 (Some p) as" "total_len st1 as = n" by (simp_all add: allocated_def)
    have new: "\<not> ps_live st x" if "x \<in> set as" for x using a(1) that by (simp add: allocated_def)
    have c1: "pkts_in st1 M ch"
      using a(1) pkts_live [OF c] r(2) by (intro pkts_kept [OF c]) (auto simp: allocated_def)
    have dj: "set (ch q) \<inter> set as = {}" if "q \<in> dom M" for q using pkts_live [OF c that] new by blast
    have ps: "p \<in> set as" using pk(1) by (cases as) (auto simp: packet_def)
    have np: "M p = None"
    proof (rule ccontr)
      assume "M p \<noteq> None"
      then obtain j where j: "M p = Some j" by auto
      then have "p \<in> set (ch p)" using pkts_inD(5) [OF c j] by (metis list.set_intros(1))
      then show False using dj [of p] ps j by blast
    qed
    define k where "k = \<lparr>pk_data = payload_data st1 as, pk_room = layer_offset layer,
      pk_head = (if type = PBUF_POOL then min n (1516 - layer_offset layer) else n), pk_pool = (type = PBUF_POOL)\<rparr>"
    have h: "head_ok st1 p as k" using a(3) by (auto simp: head_ok_def fresh_head_def k_def)
    have "pkts_in st1 (M(p \<mapsto> k)) (ch(p := as))"
    proof (rule pkts_inI [OF r(2)])
      fix q j assume "(M(p \<mapsto> k)) q = Some j"
      then show "packet st1 (Some q) ((ch(p := as)) q) \<and> payload_data st1 ((ch(p := as)) q) = pk_data j \<and>
          (\<forall>a. a \<in> set ((ch(p := as)) q) \<longrightarrow> solid st1 a) \<and> head_ok st1 q ((ch(p := as)) q) j"
        using pkts_inD [OF c1, of q j] h pk(1) a(2) by (cases "q = p") (auto simp: k_def)
    next
      fix x y b assume x: "x \<in> dom (M(p \<mapsto> k))" "y \<in> dom (M(p \<mapsto> k))" "x \<noteq> y" "b \<in> set ((ch(p := as)) x)"
      then show "b \<notin> set ((ch(p := as)) y)"
        using dj [of x] dj [of y] pkts_disjoint [OF c1, of x y b] by (cases "x = p"; cases "y = p") auto
    qed
    then have "pkts st1 (M(p \<mapsto> k))" by (auto simp: pkts_def)
    moreover have "length (pk_data k) = n" "pk_room k = layer_offset layer" "pk_pool k = (type = PBUF_POOL)"
      "pk_head k = (if type = PBUF_POOL then min n (1516 - layer_offset layer) else n)" using pk(2) by (simp_all add: k_def)
    ultimately show ?thesis using r(1) Some np by auto
  qed
qed

lemma pkts_free:
  assumes "pkts st M" and "M p = Some k"
  shows "\<exists>st' c. pbuf_free cfree (Some p) st = Some (st', c) \<and> pkts st' (M(p := None))"
proof -
  obtain ch where ch: "pkts_in st M ch" using assms(1) by (auto simp: pkts_def)
  note q = pkts_inD [OF ch assms(2)]
  have "\<not> custom (ps_buf st a) \<and> 0 < pb_ref (ps_buf st a) \<and> pb_ref (ps_buf st a) < 65536" if "a \<in> set (ch p)" for a
    using q(3) [OF that] by (simp add: solid_def confined_def)
  then obtain st' c where f: "free_loop cfree 0 (Some p) st = Some (st', c)" "after_free st (ch p) st'" "owned st'"
    using free_loop_result [of st "Some p" "ch p" 0 cfree] q(1,6) by (auto simp: packet_def)
  have "freed st (ch p) = length (ch p)"
    using q(3) by (simp add: freed_def solid_def takeWhile_eq_all_conv [THEN iffD2])
  then have live: "\<And>x. ps_live st' x \<longleftrightarrow> ps_live st x \<and> x \<notin> set (ch p)" "\<And>x. x \<notin> set (ch p) \<Longrightarrow> ps_buf st' x = ps_buf st x" "kept st st'"
    using f(2) by (simp_all add: after_free_def)
  have "pkts_in st' (M(p := None)) ch"
  proof (rule pkts_kept [OF ch f(3) live(3)])
    show "M x = Some j" if "(M(p := None)) x = Some j" for x j using that by (auto split: if_splits)
    show "ps_live st' a \<and> ps_buf st' a = ps_buf st a" if "x \<in> dom (M(p := None))" "a \<in> set (ch x)" for x a
    proof -
      have "x \<in> dom M" "p \<in> dom M" "x \<noteq> p" using that assms(2) by (auto split: if_splits)
      then have "a \<notin> set (ch p)" "ps_live st a" using pkts_disjoint [OF ch, of x p a] pkts_live [OF ch, of x a] that by blast+
      then show ?thesis using live(1,2) by blast
    qed
  qed
  then show ?thesis using f(1) by (auto simp: pbuf_free_def pkts_def)
qed

section \<open>Copying\<close>

lemma pkts_write_all:
  assumes "pkts_in st M ch" and "M p = Some k" and "length d \<le> length (pk_data k)"
  shows "pkts_in (st\<lparr>ps_bytes := write_at (addrs st (ch p)) d (ps_bytes st)\<rparr>) (M(p \<mapsto> k\<lparr>pk_data := d @ drop (length d) (pk_data k)\<rparr>)) ch"
proof -
  note q = pkts_inD [OF assms(1,2)]
  let ?st = "st\<lparr>ps_bytes := write_at (addrs st (ch p)) d (ps_bytes st)\<rparr>"
  have l: "total_len st (ch p) = length (pk_data k)" using q(2) by (metis length_data)
  have dist: "distinct (addrs st (ch p))"
    using q(1,3) by (intro confined_distinct [OF q(6)]) (auto simp: packet_def solid_def dest: chain_distinct)
  have "payload_data ?st (ch p) = d @ drop (length d) (pk_data k)"
    using write_at_same [OF dist, of d "ps_bytes st"] assms(3) l q(2) by (simp add: payload_data_def)
  moreover have "payload_data ?st (ch x) = payload_data st (ch x)" if x: "x \<in> dom M" "x \<noteq> p" for x
  proof -
    obtain j where j: "M x = Some j" using x(1) by auto
    have "span st a \<inter> span st b = {}" if "a \<in> set (ch x)" "b \<in> set (ch p)" for a b
    proof (rule confined_disjoint [OF q(6)])
      show "confined st a" using pkts_inD(3) [OF assms(1) j that(1)] by (simp add: solid_def)
      show "confined st b" using q(3) [OF that(2)] by (simp add: solid_def)
      show "a \<noteq> b" using pkts_disjoint [OF assms(1) x(1) _ x(2) that(1)] assms(2) that(2) by auto
    qed
    then have "set (addrs st (ch x)) \<inter> set (addrs st (ch p)) = {}" unfolding set_addrs by blast
    then show ?thesis by (auto simp: payload_data_def intro!: write_at_other)
  qed
  moreover have "head_ok ?st p (ch p) (k\<lparr>pk_data := d @ drop (length d) (pk_data k)\<rparr>)" using q(4) by (simp add: head_ok_def)
  moreover have "packet ?st (Some p) (ch p)" using q(1) by (simp add: packet_def)
  ultimately have "pkts_in ?st (M(p \<mapsto> k\<lparr>pk_data := d @ drop (length d) (pk_data k)\<rparr>)) (ch(p := ch p))"
    using q(3,6) by (intro pkts_change [OF assms(1,2)]) simp_all
  then show ?thesis by simp
qed

lemma pkts_take:
  assumes "pkts st M" and "M p = Some k" and "length d \<le> length (pk_data k)"
  shows "\<exists>st'. pbuf_take (Some p) (Some d) (length d) st = Some (st', ERR_OK) \<and>
    pkts st' (M(p \<mapsto> k\<lparr>pk_data := d @ drop (length d) (pk_data k)\<rparr>))"
proof -
  obtain ch where c: "pkts_in st M ch" using assms(1) by (auto simp: pkts_def)
  note q = pkts_inD [OF c assms(2)]
  have "total_len st (ch p) = length (pk_data k)" using q(2) by (metis length_data)
  then have "pbuf_take (Some p) (Some d) (length d) st = Some (st\<lparr>ps_bytes := write_at (addrs st (ch p)) d (ps_bytes st)\<rparr>, ERR_OK)"
    using q(1) assms(3) by (intro pbuf_take_writes) simp_all
  then show ?thesis using pkts_write_all [OF c assms(2,3)] by (auto simp: pkts_def)
qed

lemma pkts_store:
  assumes "pkts st M" and "length d < 65536" and "type \<in> {PBUF_POOL, PBUF_RAM}"
  shows "\<exists>st' r. store_packet cfree layer type d st = Some (st', r) \<and>
    (case r of None \<Rightarrow> pkts st' M
     | Some p \<Rightarrow> M p = None \<and> pkts st' (M(p \<mapsto> \<lparr>pk_data = d, pk_room = layer_offset layer,
         pk_head = (if type = PBUF_POOL then min (length d) (1516 - layer_offset layer) else length d), pk_pool = (type = PBUF_POOL)\<rparr>)))"
proof -
  obtain st1 r where r: "pbuf_alloc cfree layer (length d) type st = Some (st1, r)"
    "case r of None \<Rightarrow> pkts st1 M
     | Some p \<Rightarrow> M p = None \<and> (\<exists>k. pkts st1 (M(p \<mapsto> k)) \<and> length (pk_data k) = length d \<and> pk_room k = layer_offset layer \<and>
         pk_head k = (if type = PBUF_POOL then min (length d) (1516 - layer_offset layer) else length d) \<and> pk_pool k = (type = PBUF_POOL))"
    using pkts_alloc [OF assms] by blast
  show ?thesis
  proof (cases r)
    case None
    then show ?thesis using r by (simp add: store_packet_def)
  next
    case (Some p)
    obtain k where k: "M p = None" "pkts st1 (M(p \<mapsto> k))" "length (pk_data k) = length d" "pk_room k = layer_offset layer"
        "pk_head k = (if type = PBUF_POOL then min (length d) (1516 - layer_offset layer) else length d)" "pk_pool k = (type = PBUF_POOL)"
      using r(2) Some by auto
    obtain st2 where t: "pbuf_take (Some p) (Some d) (length d) st1 = Some (st2, ERR_OK)"
        "pkts st2 ((M(p \<mapsto> k))(p \<mapsto> k\<lparr>pk_data := d @ drop (length d) (pk_data k)\<rparr>))"
      using pkts_take [OF k(2), of p k d] k(3) by auto
    have "k\<lparr>pk_data := d @ drop (length d) (pk_data k)\<rparr> = \<lparr>pk_data = d, pk_room = layer_offset layer,
         pk_head = (if type = PBUF_POOL then min (length d) (1516 - layer_offset layer) else length d), pk_pool = (type = PBUF_POOL)\<rparr>"
      using k(3-6) by (cases k) simp
    then show ?thesis using r(1) Some t k(1) by (simp add: store_packet_def)
  qed
qed

lemma pkts_copy:
  assumes "pkts st M" and "M t = Some kt" and "M f = Some kf" and "t \<noteq> f" and "length (pk_data kf) \<le> length (pk_data kt)"
    and "0 < pk_head kt" and "0 < pk_head kf"
  shows "\<exists>st'. pbuf_copy (Some t) (Some f) st = Some (st', ERR_OK) \<and>
    pkts st' (M(t \<mapsto> kt\<lparr>pk_data := pk_data kf @ drop (length (pk_data kf)) (pk_data kt)\<rparr>)) \<and> ps_buf st' = ps_buf st"
proof -
  obtain ch where c: "pkts_in st M ch" using assms(1) by (auto simp: pkts_def)
  note qt = pkts_inD [OF c assms(2)] and qf = pkts_inD [OF c assms(3)]
  have lt: "total_len st (ch t) = length (pk_data kt)" "total_len st (ch f) = length (pk_data kf)" using qt(2) qf(2) by (metis length_data)+
  have nz: "0 < blen st a" if "a \<in> set (ch p)" "M p = Some k" "0 < pk_head k" for a p k
    using pkts_inD(4,5) [OF c that(2)] that(1,3) by (metis head_ok_def list.sel(3) set_ConsD)
  have nzt: "0 < blen st a" if "a \<in> set (ch t)" for a using nz [OF that assms(2,6)] .
  have nzf: "0 < blen st a" if "a \<in> set (ch f)" for a using nz [OF that assms(3,7)] .
  have dj: "set (addrs st (ch t)) \<inter> set (addrs st (ch f)) = {}"
  proof -
    have "span st a \<inter> span st b = {}" if "a \<in> set (ch t)" "b \<in> set (ch f)" for a b
    proof (rule confined_disjoint [OF qt(6)])
      show "confined st a" "confined st b" using qt(3) [OF that(1)] qf(3) [OF that(2)] by (simp_all add: solid_def)
      show "a \<noteq> b" using pkts_disjoint [OF c, of t f a] assms(2-4) that by auto
    qed
    then show ?thesis unfolding set_addrs by blast
  qed
  have dist: "distinct (addrs st (ch t))"
    using qt(1,3) by (intro confined_distinct [OF qt(6)]) (auto simp: packet_def solid_def dest: chain_distinct)
  have "pos st (Some t) 0 (ch t) (addrs st (ch t))" "pos st (Some f) 0 (ch f) (addrs st (ch f))"
    using qt(1) qf(1) nzt nzf by (auto simp: pos_def split: list.splits)
  then have cl: "copy_loop t 0 f 0 st = Some (st\<lparr>ps_bytes := write_at (addrs st (ch t)) (map (ps_bytes st) (addrs st (ch f))) (ps_bytes st)\<rparr>, ERR_OK)"
    using assms(5) dist dj lt by (intro copy_loop_writes) simp_all
  define st' where "st' = st\<lparr>ps_bytes := write_at (addrs st (ch t)) (pk_data kf) (ps_bytes st)\<rparr>"
  have "pkts st' (M(t \<mapsto> kt\<lparr>pk_data := pk_data kf @ drop (length (pk_data kf)) (pk_data kt)\<rparr>))"
    unfolding st'_def using pkts_write_all [OF c assms(2,5)] by (auto simp: pkts_def)
  moreover have "pbuf_copy (Some t) (Some f) st = Some (st', ERR_OK)"
    using cl qf(2) pkts_facts [OF assms(1,2)] pkts_facts [OF assms(1,3)] assms(5) by (simp add: pbuf_copy_def st'_def payload_data_def)
  ultimately show ?thesis by (auto simp: st'_def)
qed

section \<open>Cutting\<close>

lemma pkts_realloc:
  assumes "pkts st M" and "M p = Some k" and "pk_pool k" and "n < length (pk_data k)" and "pk_room k + 20 + length (pk_data k) \<le> 65532"
  shows "\<exists>st'. pbuf_realloc cfree p n st = Some st' \<and> pkts st' (M(p \<mapsto> k\<lparr>pk_data := take n (pk_data k), pk_head := min n (pk_head k)\<rparr>)) \<and>
    ps_bytes st' = ps_bytes st"
proof -
  obtain ch where c: "pkts_in st M ch" using assms(1) by (auto simp: pkts_def)
  note q = pkts_inD [OF c assms(2)]
  have l: "total_len st (ch p) = length (pk_data k)" using q(2) by (metis length_data)
  have ln: "n < total_len st (ch p)" using l assms(4) by simp
  have pool: "pb_type (ps_buf st a) = PBUF_POOL" if "a \<in> set (ch p)" for a using q(4) assms(3) that by (simp add: head_ok_def)
  have ok: "\<not> custom (ps_buf st a) \<and> 0 < pb_ref (ps_buf st a) \<and> pb_ref (ps_buf st a) < 65536 \<and> trimmable st a" if "a \<in> set (ch p)" for a
    using q(3) [OF that] pool [OF that] by (auto simp: solid_def confined_def trimmable_def)
  obtain st' bs cs where r: "pbuf_realloc cfree p n st = Some st'" "ch p = bs @ cs" "packet st' (Some p) bs"
    "payload_data st' bs = take n (payload_data st (ch p))" "owned st'"
    "\<And>x. ps_live st' x \<longleftrightarrow> ps_live st x \<and> x \<notin> set (take (freed st cs) cs)"
    "\<And>x. x \<notin> set (ch p) \<Longrightarrow> ps_buf st' x = ps_buf st x" "ps_bytes st' = ps_bytes st" "ps_ram st' = ps_ram st"
    "\<And>x. x \<in> set bs \<Longrightarrow> blen st' x \<le> blen st x \<and> ps_buf st' x = (ps_buf st x)\<lparr>pb_next := pb_next (ps_buf st' x), pb_len := blen st' x,
       pb_tot_len := pb_tot_len (ps_buf st' x)\<rparr>" "\<And>x. x \<in> set (butlast bs) \<Longrightarrow> blen st' x = blen st x"
    "tl bs \<noteq> [] \<longrightarrow> 0 < blen st' (last bs)"
    "(\<forall>x. x \<in> set (ch p) \<longrightarrow> pb_type (ps_buf st x) = PBUF_POOL) \<longrightarrow> ps_heap st' = ps_heap st"
    using realloc_result [OF q(1,6) ln ok, of cfree] by blast
  have hp: "ps_heap st' = ps_heap st" using r(13) pool by blast
  obtain bs' where bs: "bs = p # bs'" using r(3) by (cases bs) (auto simp: packet_def)
  have sub: "set bs \<subseteq> set (ch p)" "set bs' \<subseteq> set (tl (ch p))" using r(2) bs by auto
  have lv: "ps_live st' a" if "a \<in> set bs" for a using r(3) that chain_live by (auto simp: packet_def)
  have same: "blen st' a \<le> blen st a \<and> pb_type (ps_buf st' a) = pb_type (ps_buf st a) \<and> pb_payload (ps_buf st' a) = pb_payload (ps_buf st a) \<and>
      pb_flags (ps_buf st' a) = pb_flags (ps_buf st a) \<and> pb_ref (ps_buf st' a) = pb_ref (ps_buf st a)"
    if "a \<in> set bs" for a
  proof -
    have "blen st' a \<le> blen st a" "ps_buf st' a = (ps_buf st a)\<lparr>pb_next := pb_next (ps_buf st' a), pb_len := blen st' a, pb_tot_len := pb_tot_len (ps_buf st' a)\<rparr>"
      using r(10) that by blast+
    then show ?thesis by (metis pbuf.select_convs(2,5,6,7) pbuf.surjective pbuf.update_convs(1,3,4))
  qed
  have sol: "solid st' a" if "a \<in> set bs" for a
  proof -
    have "a \<in> set (ch p)" using that sub(1) by blast
    then have "solid st a" "pb_type (ps_buf st a) = PBUF_POOL" using q(3) pool by blast+
    moreover have "blen st' a \<le> blen st a" "pb_type (ps_buf st' a) = pb_type (ps_buf st a)" "pb_payload (ps_buf st' a) = pb_payload (ps_buf st a)"
      "pb_flags (ps_buf st' a) = pb_flags (ps_buf st a)" "pb_ref (ps_buf st' a) = pb_ref (ps_buf st a)"
      using same [OF that] by simp_all
    ultimately show ?thesis using lv [OF that] by (simp add: solid_def confined_def custom_def)
  qed
  let ?k = "k\<lparr>pk_data := take n (pk_data k), pk_head := min n (pk_head k)\<rparr>"
  have pd: "payload_data st' bs = pk_data ?k" using r(4) q(2) by simp
  then have tl: "total_len st' bs = n" using assms(4) length_data [of st' bs] by simp
  have b0: "blen st p = pk_head k" "pb_payload (ps_buf st p) = p + 20 + pk_room k" "\<And>a. a \<in> set (tl (ch p)) \<Longrightarrow> 0 < blen st a"
    using q(4) by (simp_all add: head_ok_def)
  have "blen st' p = min n (pk_head k)"
  proof (cases bs')
    case Nil
    then show ?thesis using tl r(10) [of p] b0(1) bs by simp
  next
    case (Cons b bb)
    then have "blen st' p = blen st p" using r(11) [of p] bs by simp
    moreover have "blen st' p \<le> n" using tl bs by simp
    ultimately show ?thesis using b0(1) by simp
  qed
  moreover have "0 < blen st' a" if "a \<in> set bs'" for a
  proof (cases "a = last bs")
    case True
    then show ?thesis using r(12) that bs by auto
  next
    case False
    then have "a \<in> set (butlast bs)" using that bs append_butlast_last_id [of bs] by (metis in_set_conv_decomp_last list.distinct(1) list.set_intros(2) rotate1.simps(2) set_ConsD set_rotate1)
    then show ?thesis using r(11) [of a] b0(3) [of a] sub(2) that by auto
  qed
  moreover have "pb_type (ps_buf st' a) = PBUF_POOL" if "a \<in> set bs" for a
    using same [OF that] pool sub(1) that by auto
  moreover have "pb_payload (ps_buf st' p) = pb_payload (ps_buf st p)"
    using same [of p] bs by simp
  ultimately have "head_ok st' p bs ?k" using b0(2) bs by (auto simp: head_ok_def)
  moreover have "payload_data st' (ch x) = payload_data st (ch x)" if x: "x \<in> dom M" "x \<noteq> p" for x
  proof -
    have "a \<notin> set (ch p)" if "a \<in> set (ch x)" for a using pkts_disjoint [OF c x(1) _ x(2) that] assms(2) by auto
    then have "addrs st' (ch x) = addrs st (ch x)" using r(7) by (intro addrs_cong) simp
    then show ?thesis by (simp add: payload_data_def r(8))
  qed
  moreover have "ps_live st' a \<and> ps_buf st' a = ps_buf st a \<and> solid st' a = solid st a" if "ps_live st a" "a \<notin> set (ch p)" for a
  proof -
    have "ps_live st' a" "ps_buf st' a = ps_buf st a" using r(2,6,7) that by (auto dest: in_set_takeD)
    then show ?thesis using solid_same [of st' a st] hp r(9) that by simp
  qed
  ultimately have "pkts_in st' (M(p \<mapsto> ?k)) (ch(p := bs))"
    using r(3,5) pd sol sub(1) by (intro pkts_change [OF c assms(2)]) auto
  then show ?thesis using r(1,8) by (auto simp: pkts_def)
qed

section \<open>Several fields\<close>

fun writes :: "(nat \<times> u8 list) list \<Rightarrow> nat \<Rightarrow> pstate \<Rightarrow> pstate" where
  "writes [] h st = st"
| "writes ((i, bs) # ws) h st = writes ws h (memcpy (h + i) bs st)"

fun patches :: "(nat \<times> u8 list) list \<Rightarrow> u8 list \<Rightarrow> u8 list" where
  "patches [] d = d"
| "patches ((i, bs) # ws) d = patches ws (patch i bs d)"

lemma pkts_writes:
  assumes "pkts st M" and "M p = Some k" and "\<And>i bs. (i, bs) \<in> set ws \<Longrightarrow> i + length bs \<le> pk_head k"
  shows "pkts (writes ws (p + 20 + pk_room k) st) (M(p \<mapsto> k\<lparr>pk_data := patches ws (pk_data k)\<rparr>))"
  using assms
proof (induction ws arbitrary: st M k)
  case Nil
  then show ?case by (simp add: map_upd_triv)
next
  case (Cons w ws)
  obtain i bs where w: "w = (i, bs)" by (cases w)
  have "pkts (memcpy (p + 20 + pk_room k + i) bs st) (M(p \<mapsto> k\<lparr>pk_data := patch i bs (pk_data k)\<rparr>))"
    using pkts_write [OF Cons.prems(1,2)] Cons.prems(3) w by simp
  from Cons.IH [OF this fun_upd_same] show ?case using Cons.prems(3) w by (simp del: fun_upd_apply)
qed

text \<open>A new packet in one piece.\<close>

definition fresh :: "pbuf_layer \<Rightarrow> u8 list \<Rightarrow> pkt" where
  "fresh layer d = \<lparr>pk_data = d, pk_room = layer_offset layer, pk_head = length d, pk_pool = False\<rparr>"

lemma fresh_simps [simp]: "pk_data (fresh l d) = d" "pk_room (fresh l d) = layer_offset l" "pk_head (fresh l d) = length d" "\<not> pk_pool (fresh l d)"
  "(fresh l d)\<lparr>pk_data := d'\<rparr> = fresh l d' \<longleftrightarrow> length d' = length d"
  by (auto simp: fresh_def)

lemma pkts_alloc_ram:
  assumes "pkts st M" and "n < 65536"
  shows "(\<exists>st'. pbuf_alloc cfree layer n PBUF_RAM st = Some (st', None) \<and> pkts st' M) \<or>
    (\<exists>st' p d. pbuf_alloc cfree layer n PBUF_RAM st = Some (st', Some p) \<and> M p = None \<and> length d = n \<and> pkts st' (M(p \<mapsto> fresh layer d)))"
proof -
  obtain st' r where a: "pbuf_alloc cfree layer n PBUF_RAM st = Some (st', r)"
    "case r of None \<Rightarrow> pkts st' M
     | Some p \<Rightarrow> M p = None \<and> (\<exists>k. pkts st' (M(p \<mapsto> k)) \<and> length (pk_data k) = n \<and> pk_room k = layer_offset layer \<and> pk_head k = n \<and> pk_pool k = False)"
    using pkts_alloc [OF assms, of PBUF_RAM cfree layer] by (simp only: pbuf_type.distinct if_False) blast
  show ?thesis
  proof (cases r)
    case None
    then show ?thesis using a by simp
  next
    case (Some p)
    then obtain k where k: "M p = None" "pkts st' (M(p \<mapsto> k))" "length (pk_data k) = n" "pk_room k = layer_offset layer" "pk_head k = n" "\<not> pk_pool k"
      using a(2) by auto
    then have "k = fresh layer (pk_data k)" by (cases k) (simp add: fresh_def)
    then show ?thesis using a(1) Some k by metis
  qed
qed

lemma pkts_free_new:
  assumes "pkts st (M(p \<mapsto> k))"
  shows "\<exists>st' c. pbuf_free cfree (Some p) st = Some (st', c) \<and> pkts st' (M(p := None))"
  using pkts_free [OF assms, of p k cfree] by (simp del: fun_upd_apply add: fun_upd_same)

end
