(* ===== verification/Netif_Ops.thy ===== *)
theory Netif_Ops
  imports Ip4_Addr "HOL-Library.Monad_Syntax"
begin

text \<open>
  The list of interfaces and the operations of \<open>core/netif.c\<close>, in the configuration of the port
  (no loopback interface, no remove callback).  The descriptors are the caller's and are kept by address.
  What the operations do in other components they do by calls; the calls are recorded, in
  order, as values of \<open>netif_call\<close>.  \<open>None\<close> is a walk over a list that never ends.
\<close>

datatype netif_call =
    Tcp_ip_addr_changed u32 "u32 option"
  | Udp_ip_addr_changed u32 "u32 option"
  | Etharp_gratuitous nat
  | Etharp_cleanup_netif nat
  | Igmp_report_groups nat
  | Igmp_start nat
  | Igmp_stop nat
  | Dhcp_network_changed nat
  | Status_callback nat nat
  | Link_callback nat nat

record netifs =
  nf_store :: "nat \<Rightarrow> netif"
  netif_list :: "nat option"
  netif_default :: "nat option"
  netif_num :: nat
  nf_calls :: "netif_call list"

definition call :: "netif_call \<Rightarrow> netifs \<Rightarrow> netifs" where
  "call c s = s\<lparr>nf_calls := nf_calls s @ [c]\<rparr>"

definition nf_upd :: "nat \<Rightarrow> (netif \<Rightarrow> netif) \<Rightarrow> netifs \<Rightarrow> netifs" where
  "nf_upd n f s = s\<lparr>nf_store := (nf_store s)(n := f (nf_store s n))\<rparr>"

definition NETIF_STATUS_CALLBACK :: "nat \<Rightarrow> netifs \<Rightarrow> netifs" where
  "NETIF_STATUS_CALLBACK n s = (case nf_status_callback (nf_store s n) of Some f \<Rightarrow> call (Status_callback f n) s | None \<Rightarrow> s)"

definition NETIF_LINK_CALLBACK :: "nat \<Rightarrow> netifs \<Rightarrow> netifs" where
  "NETIF_LINK_CALLBACK n s = (case nf_link_callback (nf_store s n) of Some f \<Rightarrow> call (Link_callback f n) s | None \<Rightarrow> s)"

text \<open>An address argument may be null; \<open>ip4_addr_set\<close> then stores 0.\<close>

definition ip4_addr_set :: "u32 option \<Rightarrow> u32" where
  "ip4_addr_set src = (case src of None \<Rightarrow> 0 | Some a \<Rightarrow> a)"

definition NETIF_REPORT_TYPE_IPV4 :: u8 where "NETIF_REPORT_TYPE_IPV4 = 0x01"
definition NETIF_REPORT_TYPE_IPV6 :: u8 where "NETIF_REPORT_TYPE_IPV6 = 0x02"

definition netif_issue_reports :: "nat \<Rightarrow> u8 \<Rightarrow> netifs \<Rightarrow> netifs" where
  "netif_issue_reports n report_type s =
     (if report_type AND NETIF_REPORT_TYPE_IPV4 \<noteq> 0 \<and> \<not> ip4_addr_isany (nf_ip_addr (nf_store s n)) then
        let s = (if netif_flag (nf_store s n) NETIF_FLAG_ETHARP then call (Etharp_gratuitous n) s else s)
        in if netif_flag (nf_store s n) NETIF_FLAG_IGMP then call (Igmp_report_groups n) s else s
      else s)"

definition netif_set_ipaddr :: "nat \<Rightarrow> u32 option \<Rightarrow> netifs \<Rightarrow> netifs" where
  "netif_set_ipaddr n ipaddr s =
     (let new_addr = (case ipaddr of Some a \<Rightarrow> a | None \<Rightarrow> IPADDR_ANY) in
      if new_addr \<noteq> nf_ip_addr (nf_store s n) then
        let old = nf_ip_addr (nf_store s n);
            s = call (Tcp_ip_addr_changed old (Some new_addr)) s;
            s = call (Udp_ip_addr_changed old (Some new_addr)) s;
            s = nf_upd n (\<lambda>f. f\<lparr>nf_ip_addr := ip4_addr_set ipaddr\<rparr>) s;
            s = netif_issue_reports n NETIF_REPORT_TYPE_IPV4 s
        in NETIF_STATUS_CALLBACK n s
      else s)"

definition netif_set_gw :: "nat \<Rightarrow> u32 option \<Rightarrow> netifs \<Rightarrow> netifs" where
  "netif_set_gw n gw s = nf_upd n (\<lambda>f. f\<lparr>nf_gw := ip4_addr_set gw\<rparr>) s"

definition netif_set_netmask :: "nat \<Rightarrow> u32 option \<Rightarrow> netifs \<Rightarrow> netifs" where
  "netif_set_netmask n netmask s = nf_upd n (\<lambda>f. f\<lparr>nf_netmask := ip4_addr_set netmask\<rparr>) s"

definition netif_set_addr :: "nat \<Rightarrow> u32 option \<Rightarrow> u32 option \<Rightarrow> u32 option \<Rightarrow> netifs \<Rightarrow> netifs" where
  "netif_set_addr n ipaddr netmask gw s =
     (if ipaddr = None \<or> ip4_addr_isany (the ipaddr)
      then netif_set_gw n gw (netif_set_netmask n netmask (netif_set_ipaddr n ipaddr s))
      else netif_set_ipaddr n ipaddr (netif_set_gw n gw (netif_set_netmask n netmask s)))"

definition netif_set_default :: "nat option \<Rightarrow> netifs \<Rightarrow> netifs" where
  "netif_set_default n s = s\<lparr>netif_default := n\<rparr>"

definition netif_set_up :: "nat \<Rightarrow> netifs \<Rightarrow> netifs" where
  "netif_set_up n s =
     (if \<not> netif_flag (nf_store s n) NETIF_FLAG_UP then
        let s = nf_upd n (\<lambda>f. f\<lparr>nf_flags := nf_flags f OR NETIF_FLAG_UP\<rparr>) s;
            s = NETIF_STATUS_CALLBACK n s
        in if netif_flag (nf_store s n) NETIF_FLAG_LINK_UP
           then netif_issue_reports n (NETIF_REPORT_TYPE_IPV4 OR NETIF_REPORT_TYPE_IPV6) s else s
      else s)"

definition netif_set_down :: "nat \<Rightarrow> netifs \<Rightarrow> netifs" where
  "netif_set_down n s =
     (if netif_flag (nf_store s n) NETIF_FLAG_UP then
        let s = nf_upd n (\<lambda>f. f\<lparr>nf_flags := nf_flags f AND NOT NETIF_FLAG_UP\<rparr>) s;
            s = (if netif_flag (nf_store s n) NETIF_FLAG_ETHARP then call (Etharp_cleanup_netif n) s else s)
        in NETIF_STATUS_CALLBACK n s
      else s)"

definition netif_set_link_up :: "nat \<Rightarrow> netifs \<Rightarrow> netifs" where
  "netif_set_link_up n s =
     (if \<not> netif_flag (nf_store s n) NETIF_FLAG_LINK_UP then
        let s = nf_upd n (\<lambda>f. f\<lparr>nf_flags := nf_flags f OR NETIF_FLAG_LINK_UP\<rparr>) s;
            s = call (Dhcp_network_changed n) s;
            s = (if netif_flag (nf_store s n) NETIF_FLAG_UP
                 then netif_issue_reports n (NETIF_REPORT_TYPE_IPV4 OR NETIF_REPORT_TYPE_IPV6) s else s)
        in NETIF_LINK_CALLBACK n s
      else s)"

definition netif_set_link_down :: "nat \<Rightarrow> netifs \<Rightarrow> netifs" where
  "netif_set_link_down n s =
     (if netif_flag (nf_store s n) NETIF_FLAG_LINK_UP then
        NETIF_LINK_CALLBACK n (nf_upd n (\<lambda>f. f\<lparr>nf_flags := nf_flags f AND NOT NETIF_FLAG_LINK_UP\<rparr>) s)
      else s)"

definition netif_set_status_callback :: "nat option \<Rightarrow> nat option \<Rightarrow> netifs \<Rightarrow> netifs" where
  "netif_set_status_callback n cb s =
     (case n of None \<Rightarrow> s | Some n \<Rightarrow> nf_upd n (\<lambda>f. f\<lparr>nf_status_callback := cb\<rparr>) s)"

definition netif_set_link_callback :: "nat option \<Rightarrow> nat option \<Rightarrow> netifs \<Rightarrow> netifs" where
  "netif_set_link_callback n cb s =
     (case n of None \<Rightarrow> s | Some n \<Rightarrow> nf_upd n (\<lambda>f. f\<lparr>nf_link_callback := cb\<rparr>) s)"

text \<open>\<open>init\<close> is the driver's function; it may change the descriptor and has a result.\<close>

definition netif_add ::
    "nat \<Rightarrow> u32 option \<Rightarrow> u32 option \<Rightarrow> u32 option \<Rightarrow> nat option \<Rightarrow> (nat \<Rightarrow> netifs \<Rightarrow> netifs \<times> err_t) \<Rightarrow> netifs \<Rightarrow>
     netifs \<times> nat option" where
  "netif_add n ipaddr netmask gw state init s =
     (let s = nf_upd n (\<lambda>f. f\<lparr>nf_ip_addr := 0, nf_netmask := 0, nf_gw := 0, nf_flags := 0, nf_client_data := (\<lambda>_. None),
                nf_status_callback := None, nf_link_callback := None, nf_igmp_mac_filter := None, nf_state := state,
                nf_num := netif_num s\<rparr>) s;
          s = s\<lparr>netif_num := to_u8 (netif_num s + 1)\<rparr>;
          s = netif_set_addr n ipaddr netmask gw s;
          (s, err) = init n s
      in if err \<noteq> ERR_OK then (s, None)
         else
           let s = nf_upd n (\<lambda>f. f\<lparr>nf_next := netif_list s\<rparr>) s;
               s = s\<lparr>netif_list := Some n\<rparr>
           in (if netif_flag (nf_store s n) NETIF_FLAG_IGMP then call (Igmp_start n) s else s, Some n))"

text \<open>The loop of \<open>netif_remove\<close>: the interface in front of \<open>n\<close>, if any.\<close>

partial_function (option) before_loop :: "netifs \<Rightarrow> nat \<Rightarrow> nat option \<Rightarrow> nat option option" where
  "before_loop s n tmp =
     (case tmp of
        None \<Rightarrow> Some None
      | Some t \<Rightarrow> if nf_next (nf_store s t) = Some n then Some (Some t) else before_loop s n (nf_next (nf_store s t)))"

definition netif_shutdown :: "nat \<Rightarrow> netifs \<Rightarrow> netifs" where
  "netif_shutdown n s =
     (let addr = nf_ip_addr (nf_store s n);
          s = (if \<not> ip4_addr_isany addr
               then call (Udp_ip_addr_changed addr None) (call (Tcp_ip_addr_changed addr None) s) else s);
          s = (if netif_flag (nf_store s n) NETIF_FLAG_IGMP then call (Igmp_stop n) s else s)
      in if netif_is_up (nf_store s n) then netif_set_down n s else s)"

definition netif_unlink :: "nat \<Rightarrow> netifs \<Rightarrow> netifs option" where
  "netif_unlink n s =
     (if netif_list s = Some n then Some (s\<lparr>netif_list := nf_next (nf_store s n)\<rparr>)
      else do {
        t \<leftarrow> before_loop s n (netif_list s);
        case t of
          None \<Rightarrow> Some s
        | Some t \<Rightarrow> Some (nf_upd t (\<lambda>f. f\<lparr>nf_next := nf_next (nf_store s n)\<rparr>) s)
      })"

definition netif_remove :: "nat option \<Rightarrow> netifs \<Rightarrow> netifs option" where
  "netif_remove netif s =
     (case netif of
        None \<Rightarrow> Some s
      | Some n \<Rightarrow>
          let s = netif_shutdown n s
          in netif_unlink n (if netif_default s = Some n then netif_set_default None s else s))"

text \<open>\<open>name\<close> is the string passed in, at least three characters long.\<close>

partial_function (option) find_loop :: "netifs \<Rightarrow> nat \<Rightarrow> char \<Rightarrow> char \<Rightarrow> nat option \<Rightarrow> nat option option" where
  "find_loop s num c0 c1 netif =
     (case netif of
        None \<Rightarrow> Some None
      | Some n \<Rightarrow>
          if num = nf_num (nf_store s n) \<and> c0 = nf_name (nf_store s n) ! 0 \<and> c1 = nf_name (nf_store s n) ! 1 then Some (Some n)
          else find_loop s num c0 c1 (nf_next (nf_store s n)))"

definition netif_find :: "string option \<Rightarrow> netifs \<Rightarrow> nat option option" where
  "netif_find name s =
     (case name of
        None \<Rightarrow> Some None
      | Some name \<Rightarrow>
          let num = nat ((int (of_char (name ! 2)) - 48) mod 256)
          in find_loop s num (name ! 0) (name ! 1) (netif_list s))"

section \<open>The list of interfaces\<close>

fun nchain :: "netifs \<Rightarrow> nat option \<Rightarrow> nat list \<Rightarrow> bool" where
  "nchain s p [] = (p = None)"
| "nchain s p (n # ns) = (p = Some n \<and> nchain s (nf_next (nf_store s n)) ns)"

lemma nchain_cong: "(\<And>n. n \<in> set ns \<Longrightarrow> nf_next (nf_store s' n) = nf_next (nf_store s n)) \<Longrightarrow> nchain s' p ns = nchain s p ns"
  by (induction ns arbitrary: p) auto

lemma nchain_det: "nchain s p ns \<Longrightarrow> nchain s p ms \<Longrightarrow> ns = ms"
proof (induction ns arbitrary: p ms)
  case Nil
  then show ?case by (cases ms) auto
next
  case (Cons n ns)
  then show ?case by (cases ms) auto
qed

lemma nchain_suffix: "nchain s p (xs @ n # ys) \<Longrightarrow> nchain s (Some n) (n # ys)"
  by (induction xs arbitrary: p) auto

lemma nchain_distinct: "nchain s p ns \<Longrightarrow> distinct ns"
proof (rule ccontr)
  assume c: "nchain s p ns" and "\<not> distinct ns"
  then obtain xs ys zs n where ns: "ns = xs @ [n] @ ys @ [n] @ zs" using not_distinct_decomp by blast
  have "nchain s (Some n) (n # ys @ [n] @ zs)" using c ns nchain_suffix [of s p xs n] by simp
  moreover have "nchain s (Some n) (n # zs)" using c ns nchain_suffix [of s p "xs @ n # ys" n zs] by simp
  ultimately have "n # ys @ [n] @ zs = n # zs" by (rule nchain_det)
  then show False by simp
qed

text \<open>What an operation leaves of the list: every operation but \<open>netif_add\<close> and \<open>netif_remove\<close>.\<close>

definition links_kept :: "netifs \<Rightarrow> netifs \<Rightarrow> bool" where
  "links_kept s s' \<longleftrightarrow> netif_list s' = netif_list s \<and> netif_default s' = netif_default s \<and>
     (\<forall>n. nf_next (nf_store s' n) = nf_next (nf_store s n))"

named_theorems link_simps

lemma call_links [link_simps]: "links_kept s (call c s')  \<longleftrightarrow> links_kept s s'"
  by (simp add: call_def links_kept_def)

lemma upd_links [link_simps]: "(\<And>f. nf_next (g f) = nf_next f) \<Longrightarrow> links_kept s (nf_upd n g s') \<longleftrightarrow> links_kept s s'"
  by (auto simp: nf_upd_def links_kept_def)

lemma callback_links [link_simps]: "links_kept s (NETIF_STATUS_CALLBACK n s') \<longleftrightarrow> links_kept s s'"
  "links_kept s (NETIF_LINK_CALLBACK n s') \<longleftrightarrow> links_kept s s'"
  by (auto simp: NETIF_STATUS_CALLBACK_def NETIF_LINK_CALLBACK_def link_simps split: option.split)

lemma reports_links [link_simps]: "links_kept s (netif_issue_reports n t s') \<longleftrightarrow> links_kept s s'"
  by (simp add: netif_issue_reports_def link_simps Let_def)

lemma addr_links [link_simps]: "links_kept s (netif_set_ipaddr n a s') \<longleftrightarrow> links_kept s s'"
  "links_kept s (netif_set_gw n a s') \<longleftrightarrow> links_kept s s'"
  "links_kept s (netif_set_netmask n a s') \<longleftrightarrow> links_kept s s'"
  by (simp_all add: netif_set_ipaddr_def netif_set_gw_def netif_set_netmask_def link_simps Let_def)

lemma set_addr_links [link_simps]: "links_kept s (netif_set_addr n a m g s') \<longleftrightarrow> links_kept s s'"
  by (simp add: netif_set_addr_def link_simps)

lemma updown_links [link_simps]: "links_kept s (netif_set_up n s') \<longleftrightarrow> links_kept s s'"
  "links_kept s (netif_set_down n s') \<longleftrightarrow> links_kept s s'"
  "links_kept s (netif_set_link_up n s') \<longleftrightarrow> links_kept s s'"
  "links_kept s (netif_set_link_down n s') \<longleftrightarrow> links_kept s s'"
  by (simp_all add: netif_set_up_def netif_set_down_def netif_set_link_up_def netif_set_link_down_def link_simps Let_def)

lemma links_refl [simp]: "links_kept s s"
  by (simp add: links_kept_def)

lemma links_nchain: "links_kept s s' \<Longrightarrow> nchain s' p ns = nchain s p ns"
  by (rule nchain_cong) (simp add: links_kept_def)

lemma links_list: "links_kept s s' \<Longrightarrow> netif_list s' = netif_list s \<and> netif_default s' = netif_default s"
  by (simp add: links_kept_def)

text \<open>The abstract state: the interfaces, newest first, and the default one.\<close>

definition represents :: "netifs \<Rightarrow> nat list \<times> nat option \<Rightarrow> bool" where
  "represents s a \<longleftrightarrow> nchain s (netif_list s) (fst a) \<and> netif_default s = snd a"

lemma represents_kept: "links_kept s s' \<Longrightarrow> represents s' a = represents s a"
  using links_nchain [of s s'] links_list [of s s'] by (simp add: represents_def)

lemma before_loop_result:
  assumes "nchain s p ns" and "p \<noteq> Some n"
  shows "before_loop s n p =
    Some (if n \<in> set ns then Some (last (takeWhile (\<lambda>x. x \<noteq> n) ns)) else None)"
  using assms
proof (induction ns arbitrary: p)
  case Nil
  then show ?case by (subst before_loop.simps) simp
next
  case (Cons m ns)
  have p: "p = Some m" "nchain s (nf_next (nf_store s m)) ns" "m \<noteq> n" using Cons.prems by auto
  show ?case
  proof (cases "nf_next (nf_store s m) = Some n")
    case True
    then have "ns \<noteq> [] \<and> hd ns = n" using p(2) by (cases ns) auto
    then have "takeWhile (\<lambda>x. x \<noteq> n) ns = []" "n \<in> set ns" by (cases ns; simp)+
    then show ?thesis using p True by (subst before_loop.simps) simp
  next
    case False
    have "takeWhile (\<lambda>x. x \<noteq> n) ns \<noteq> []" if "n \<in> set ns"
      using that p(2) False by (cases ns) auto
    then show ?thesis using Cons.IH [OF p(2) False] p False by (subst before_loop.simps) simp
  qed
qed

lemma nchain_unlink:
  assumes "nchain s p (xs @ t # n # ys)"
  shows "nchain (nf_upd t (\<lambda>f. f\<lparr>nf_next := nf_next (nf_store s n)\<rparr>) s) p (xs @ t # ys)"
proof -
  let ?s = "nf_upd t (\<lambda>f. f\<lparr>nf_next := nf_next (nf_store s n)\<rparr>) s"
  have d: "distinct (xs @ t # n # ys)" by (rule nchain_distinct [OF assms])
  have "nchain s (Some t) (t # n # ys)" by (rule nchain_suffix [OF assms])
  then have "nchain ?s (nf_next (nf_store s n)) ys"
    using d by (subst nchain_cong [of _ _ s]) (auto simp: nf_upd_def)
  then have t: "nchain ?s (Some t) (t # ys)" by (simp add: nf_upd_def)
  show ?thesis using assms d t
  proof (induction xs arbitrary: p)
    case (Cons x xs)
    then have "nf_next (nf_store ?s x) = nf_next (nf_store s x)" by (auto simp: nf_upd_def)
    then show ?case using Cons by simp
  qed (simp add: nf_upd_def)
qed

lemma unlink_split:
  assumes "n \<in> set ns" and "hd ns \<noteq> n" and "distinct ns"
  obtains xs ys where "ns = xs @ last (takeWhile (\<lambda>x. x \<noteq> n) ns) # n # ys"
    and "remove1 n ns = xs @ last (takeWhile (\<lambda>x. x \<noteq> n) ns) # ys"
proof -
  obtain us ys where ns: "ns = us @ n # ys" "n \<notin> set us" by (metis assms(1) split_list_first)
  then have "us \<noteq> []" using assms(2) by auto
  then have us: "us = butlast us @ [last us]" by simp
  have tw: "takeWhile (\<lambda>x. x \<noteq> n) ns = us" unfolding ns(1) using ns(2) by (subst takeWhile_append2) auto
  show thesis
  proof
    show "ns = butlast us @ last (takeWhile (\<lambda>x. x \<noteq> n) ns) # n # ys" using ns us tw by simp
    show "remove1 n ns = butlast us @ last (takeWhile (\<lambda>x. x \<noteq> n) ns) # ys" using ns us tw by (simp add: remove1_append)
  qed
qed

lemma unlink_represents:
  assumes "represents s (ns, d)"
  shows "\<exists>s'. netif_unlink n s = Some s' \<and> represents s' (remove1 n ns, d)"
proof -
  have c: "nchain s (netif_list s) ns" and d: "netif_default s = d" using assms by (simp_all add: represents_def)
  show ?thesis
  proof (cases "netif_list s = Some n")
    case True
    then obtain ms where "ns = n # ms" "nchain s (nf_next (nf_store s n)) ms" using c by (cases ns) auto
    moreover have "nchain (s\<lparr>netif_list := l\<rparr>) p ms = nchain s p ms" for l p by (rule nchain_cong) simp
    ultimately show ?thesis using True d by (simp add: represents_def netif_unlink_def)
  next
    case False
    note b = before_loop_result [OF c False]
    show ?thesis
    proof (cases "n \<in> set ns")
      case True
      then have "hd ns \<noteq> n" using c False by (cases ns) auto
      define t where "t = last (takeWhile (\<lambda>x. x \<noteq> n) ns)"
      obtain xs ys where e: "ns = xs @ t # n # ys" "remove1 n ns = xs @ t # ys"
        using unlink_split [OF True \<open>hd ns \<noteq> n\<close> nchain_distinct [OF c], folded t_def] by blast
      have "nchain (nf_upd t (\<lambda>f. f\<lparr>nf_next := nf_next (nf_store s n)\<rparr>) s) (netif_list s) (remove1 n ns)"
        unfolding e(2) by (rule nchain_unlink) (use c e(1) in blast)
      moreover have "before_loop s n (netif_list s) = Some (Some t)" using b True by (simp add: t_def)
      ultimately show ?thesis using False d by (simp add: represents_def nf_upd_def netif_unlink_def)
    next
      case no: False
      then show ?thesis using False assms b by (simp add: remove1_idem netif_unlink_def)
    qed
  qed
qed

lemma shutdown_links [link_simps]: "links_kept s (netif_shutdown n s') \<longleftrightarrow> links_kept s s'"
  by (simp add: netif_shutdown_def link_simps Let_def)

lemma default_represents: "represents s (ns, d) \<Longrightarrow> represents (netif_set_default d' s) (ns, d')"
  using nchain_cong [of ns "netif_set_default d' s" s "netif_list s"] by (simp add: represents_def netif_set_default_def)

lemma remove_represents:
  assumes "represents s (ns, d)"
  shows "\<exists>s'. netif_remove (Some n) s = Some s' \<and> represents s' (remove1 n ns, if d = Some n then None else d)"
proof -
  define s1 where "s1 = netif_shutdown n s"
  have "links_kept s s1" by (simp add: s1_def link_simps)
  then have s1: "represents s1 (ns, d)" using assms represents_kept by blast
  then have "netif_default s1 = d" by (simp add: represents_def)
  then show ?thesis
    using unlink_represents [OF s1] unlink_represents [OF default_represents [OF s1]]
    by (auto simp: netif_remove_def Let_def simp flip: s1_def)
qed

lemma find_loop_result:
  "nchain s p ns \<Longrightarrow> find_loop s num c0 c1 p =
     Some (find (\<lambda>n. num = nf_num (nf_store s n) \<and> c0 = nf_name (nf_store s n) ! 0 \<and> c1 = nf_name (nf_store s n) ! 1) ns)"
proof (induction ns arbitrary: p)
  case Nil
  then show ?case by (subst find_loop.simps) simp
next
  case (Cons n ns)
  then show ?case by (subst find_loop.simps) auto
qed

definition init_keeps :: "(nat \<Rightarrow> netifs \<Rightarrow> netifs \<times> err_t) \<Rightarrow> bool" where
  "init_keeps init \<longleftrightarrow> (\<forall>n s. links_kept s (fst (init n s)))"

lemma add_represents:
  assumes "represents s (ns, d)" and "n \<notin> set ns" and "init_keeps init"
  shows "case netif_add n ip m g st init s of
      (s', None) \<Rightarrow> represents s' (ns, d) | (s', Some r) \<Rightarrow> r = n \<and> represents s' (n # ns, d)"
proof -
  define s1 where "s1 = nf_upd n (\<lambda>f. f\<lparr>nf_ip_addr := 0, nf_netmask := 0, nf_gw := 0, nf_flags := 0, nf_client_data := (\<lambda>_. None),
      nf_status_callback := None, nf_link_callback := None, nf_igmp_mac_filter := None, nf_state := st, nf_num := netif_num s\<rparr>) s"
  define s2 where "s2 = netif_set_addr n ip m g (s1\<lparr>netif_num := to_u8 (netif_num s1 + 1)\<rparr>)"
  obtain s3 err where i: "init n s2 = (s3, err)" by fastforce
  have "links_kept s s1" by (simp add: s1_def link_simps)
  then have "links_kept s s2" by (simp add: s2_def link_simps) (simp add: links_kept_def)
  moreover have "links_kept s2 s3" using assms(3) i unfolding init_keeps_def by (metis fst_conv)
  ultimately have "links_kept s s3" by (simp add: links_kept_def)
  then have s3: "represents s3 (ns, d)" using assms(1) represents_kept by blast
  define s4 where "s4 = (nf_upd n (\<lambda>f. f\<lparr>nf_next := netif_list s3\<rparr>) s3)\<lparr>netif_list := Some n\<rparr>"
  have "nchain s4 (netif_list s3) ns = nchain s3 (netif_list s3) ns"
    using assms(2) by (intro nchain_cong) (auto simp: s4_def nf_upd_def)
  then have s4: "represents s4 (n # ns, d)" using s3 by (simp add: represents_def s4_def nf_upd_def)
  have r: "netif_add n ip m g st init s = (if err \<noteq> ERR_OK then (s3, None)
      else (if netif_flag (nf_store s4 n) NETIF_FLAG_IGMP then call (Igmp_start n) s4 else s4, Some n))"
    using i by (simp add: netif_add_def s4_def s2_def s1_def Let_def)
  have "represents (call c s4) (n # ns, d)" for c
    using s4 represents_kept [of s4 "call c s4"] by (simp add: link_simps)
  then show ?thesis using s3 s4 unfolding r by simp
qed

section \<open>Refinement\<close>

text \<open>The operations on the set of interfaces, and what each does to the abstract state.\<close>

datatype netif_op =
    Add nat "u32 option" "u32 option" "u32 option"
  | Remove nat
  | Set_default "nat option"
  | Set_addr nat "u32 option" "u32 option" "u32 option"
  | Set_up nat
  | Set_down nat
  | Link_up nat
  | Link_down nat

fun netif_apply :: "(nat \<Rightarrow> netifs \<Rightarrow> netifs \<times> err_t) \<Rightarrow> netif_op \<Rightarrow> netifs \<Rightarrow> netifs option" where
  "netif_apply init (Add n ip m g) s = Some (fst (netif_add n ip m g None init s))"
| "netif_apply init (Remove n) s = netif_remove (Some n) s"
| "netif_apply init (Set_default d) s = Some (netif_set_default d s)"
| "netif_apply init (Set_addr n ip m g) s = Some (netif_set_addr n ip m g s)"
| "netif_apply init (Set_up n) s = Some (netif_set_up n s)"
| "netif_apply init (Set_down n) s = Some (netif_set_down n s)"
| "netif_apply init (Link_up n) s = Some (netif_set_link_up n s)"
| "netif_apply init (Link_down n) s = Some (netif_set_link_down n s)"

fun list_apply :: "netif_op \<Rightarrow> nat list \<times> nat option \<Rightarrow> nat list \<times> nat option" where
  "list_apply (Add n _ _ _) (ns, d) = (n # ns, d)"
| "list_apply (Remove n) (ns, d) = (remove1 n ns, if d = Some n then None else d)"
| "list_apply (Set_default d') (ns, d) = (ns, d')"
| "list_apply _ a = a"

fun legal_op :: "netif_op \<Rightarrow> nat list \<times> nat option \<Rightarrow> bool" where
  "legal_op (Add n _ _ _) (ns, d) = (n \<notin> set ns)"
| "legal_op _ _ = True"

fun netif_run :: "(nat \<Rightarrow> netifs \<Rightarrow> netifs \<times> err_t) \<Rightarrow> netif_op list \<Rightarrow> netifs \<Rightarrow> netifs option" where
  "netif_run init [] s = Some s"
| "netif_run init (c # cs) s = do { s \<leftarrow> netif_apply init c s; netif_run init cs s }"

fun legal_run :: "netif_op list \<Rightarrow> nat list \<times> nat option \<Rightarrow> bool" where
  "legal_run [] a = True"
| "legal_run (c # cs) a = (legal_op c a \<and> legal_run cs (list_apply c a))"

lemma apply_represents:
  assumes "represents s a" and "legal_op c a" and "init_keeps init" and "\<And>n s. snd (init n s) = ERR_OK"
  shows "\<exists>s'. netif_apply init c s = Some s' \<and> represents s' (list_apply c a)"
proof -
  obtain ns d where a: "a = (ns, d)" by fastforce
  have kept: "represents s' a" if "links_kept s s'" for s' using that assms(1) represents_kept by blast
  show ?thesis
  proof (cases c)
    case (Add n ip m g)
    then have "n \<notin> set ns" using assms(2) a by simp
    moreover have "snd (netif_add n ip m g None init s) \<noteq> None"
      using assms(4) by (simp add: netif_add_def Let_def split: prod.split) (metis snd_conv)
    ultimately show ?thesis
      using add_represents [OF assms(1) [unfolded a] _ assms(3), of n ip m g None] Add a
      by (cases "netif_add n ip m g None init s") (auto split: option.splits)
  next
    case (Remove n)
    then show ?thesis using remove_represents [OF assms(1) [unfolded a], of n] a by simp
  next
    case (Set_default d')
    then show ?thesis using default_represents [OF assms(1) [unfolded a]] a by simp
  qed (simp_all add: kept link_simps)
qed

lemma run_represents:
  assumes "represents s a" and "legal_run cs a" and "init_keeps init" and "\<And>n s. snd (init n s) = ERR_OK"
  shows "\<exists>s'. netif_run init cs s = Some s' \<and> represents s' (fold list_apply cs a)"
  using assms(1,2)
proof (induction cs arbitrary: s a)
  case (Cons c cs)
  then obtain s' where "netif_apply init c s = Some s'" "represents s' (list_apply c a)"
    using apply_represents [OF Cons.prems(1) _ assms(3,4), of c] by auto
  then show ?case using Cons.IH [of s' "list_apply c a"] Cons.prems by simp
qed simp

definition demo_netifs :: netifs where
  "demo_netifs = \<lparr>nf_store = (\<lambda>_. \<lparr>nf_next = None, nf_ip_addr = 0, nf_netmask = 0, nf_gw = 0, nf_status_callback = None,
      nf_link_callback = None, nf_state = None, nf_client_data = (\<lambda>_. None), nf_hostname = '''', nf_mtu = 0, nf_hwaddr_len = 0,
      nf_hwaddr = [], nf_flags = 0, nf_name = ''e0'', nf_num = 0, nf_igmp_mac_filter = None\<rparr>),
    netif_list = None, netif_default = None, netif_num = 0, nf_calls = []\<rparr>"

text \<open>
  C9. The interface list is a list: any sequence of additions of new interfaces, removals, address and state changes and choices of
  a default returns, and leaves exactly the interfaces added and not removed since, newest first; a removed interface is never the default, and
  \<open>netif_find\<close> finds the newest interface with the given name and number.  The driver's \<open>init\<close> function is assumed to
  succeed and not to touch the list itself.
\<close>
theorem netif_list_refines:
  assumes "represents s a" and "legal_run cs a"
    and "init_keeps init" and "\<forall>n s. snd (init n s) = ERR_OK"
  shows "\<exists>s'. netif_run init cs s = Some s' \<and> represents s' (fold list_apply cs a) \<and>
    netif_find (Some [c0, c1, c2]) s' = Some (find (\<lambda>n. nf_num (nf_store s' n) = nat ((int (of_char c2) - 48) mod 256) \<and>
      nf_name (nf_store s' n) ! 0 = c0 \<and> nf_name (nf_store s' n) ! 1 = c1) (fst (fold list_apply cs a)))"
proof -
  obtain s' where s': "netif_run init cs s = Some s'" "represents s' (fold list_apply cs a)"
    using run_represents [OF assms(1-3)] assms(4) by auto
  then have "nchain s' (netif_list s') (fst (fold list_apply cs a))" by (simp add: represents_def)
  from find_loop_result [OF this] s' show ?thesis
    by (auto simp: netif_find_def numeral_2_eq_2 intro!: arg_cong2 [where f = find])
qed

theorem netif_list_refines_witness:
  "\<exists>s'. netif_run (\<lambda>n s. (s, ERR_OK)) [Add 1 None None None, Add 2 (Some 5) None None, Set_default (Some 2), Set_up 2,
      Remove 1, Link_up 2] demo_netifs = Some s' \<and> represents s' ([2], Some 2)"
  using netif_list_refines [of demo_netifs "([], None)" "[Add 1 None None None, Add 2 (Some 5) None None, Set_default (Some 2),
      Set_up 2, Remove 1, Link_up 2]" "\<lambda>n s. (s, ERR_OK)"]
  by (simp add: represents_def demo_netifs_def init_keeps_def) blast

end
