(* ===== verification/Lwip_T41.thy ===== *)
theory Lwip_T41
  imports Netif_Ops Packets
begin

text \<open>
  The Ethernet driver of the Teensy 4.1, \<open>lwip_t41.c\<close>: two rings of five descriptors that the driver shares with the
  MAC of the i.MX RT1062.  The state holds the static variables of the file, the registers through which driver and MAC
  signal each other, and what the MAC keeps itself.  Clock, pad and PHY set-up are register writes without effect on
  this state and are left out.  \<open>None\<close> is an access outside an array, a bad packet, or a loop that does not end.
\<close>

section \<open>Descriptors\<close>

definition kEnetRxBdEmpty :: u16 where "kEnetRxBdEmpty = 0x8000"
definition kEnetRxBdWrap :: u16 where "kEnetRxBdWrap = 0x2000"
definition kEnetRxBdLast :: u16 where "kEnetRxBdLast = 0x0800"
definition kEnetRxBdLengthViolation :: u16 where "kEnetRxBdLengthViolation = 0x0020"
definition kEnetRxBdNoOctet :: u16 where "kEnetRxBdNoOctet = 0x0010"
definition kEnetRxBdCrc :: u16 where "kEnetRxBdCrc = 0x0004"
definition kEnetRxBdTrunc :: u16 where "kEnetRxBdTrunc = 0x0001"
definition kEnetRxBdIntrrupt :: u16 where "kEnetRxBdIntrrupt = 0x0080"
definition kEnetTxBdReady :: u16 where "kEnetTxBdReady = 0x8000"
definition kEnetTxBdWrap :: u16 where "kEnetTxBdWrap = 0x2000"
definition kEnetTxBdLast :: u16 where "kEnetTxBdLast = 0x0800"
definition kEnetTxBdTransmitCrc :: u16 where "kEnetTxBdTransmitCrc = 0x0400"
definition kEnetTxBdTxInterrupt :: u16 where "kEnetTxBdTxInterrupt = 0x4000"
definition kEnetTxBdProtChecksum :: u16 where "kEnetTxBdProtChecksum = 0x1000"
definition kEnetTxBdIpHdrChecksum :: u16 where "kEnetTxBdIpHdrChecksum = 0x0800"

definition RX_SIZE :: nat where [simp]: "RX_SIZE = 5"
definition TX_SIZE :: nat where [simp]: "TX_SIZE = 5"
definition BFSIZE :: nat where [simp]: "BFSIZE = 1536"

record enetbufferdesc_t =
  bd_length :: nat
  bd_status :: u16
  bd_buffer :: nat
  bd_extend0 :: u16
  bd_extend1 :: u16
  bd_checksum :: u16
  bd_prototype :: u8
  bd_headerlen :: u8
  bd_unused0 :: u16
  bd_extend2 :: u16
  bd_timestamp :: u32
  bd_unused1 :: u16
  bd_unused2 :: u16
  bd_unused3 :: u16
  bd_unused4 :: u16

definition zero_bd :: enetbufferdesc_t where
  "zero_bd = \<lparr>bd_length = 0, bd_status = 0, bd_buffer = 0, bd_extend0 = 0, bd_extend1 = 0, bd_checksum = 0, bd_prototype = 0,
     bd_headerlen = 0, bd_unused0 = 0, bd_extend2 = 0, bd_timestamp = 0, bd_unused1 = 0, bd_unused2 = 0, bd_unused3 = 0,
     bd_unused4 = 0\<rparr>"

text \<open>
  The static variables of the driver, the registers it shares with the MAC, and the state the MAC keeps itself: the
  descriptors it works on next and the frames that have gone out.
\<close>

record t41 =
  mac :: "u8 list"
  rx_ring :: "enetbufferdesc_t list"
  tx_ring :: "enetbufferdesc_t list"
  rxbufs :: "u8 list"
  txbufs :: "u8 list"
  p_rxbd :: nat
  p_txbd :: nat
  rx_callback :: "nat option"
  rx_ready :: bool
  link_xmit :: nat
  link_recv :: nat
  link_drop :: nat
  ENET_EIR_RXF :: bool
  ENET_RDAR :: bool
  ENET_TDAR :: bool
  ENET_PALR :: u32
  ENET_PAUR :: u32
  hw_rx :: nat
  hw_tx :: nat
  hw_wire :: "u8 list list"
  t_ps :: pstate
  t_ifs :: netifs

definition nth_opt :: "'a list \<Rightarrow> nat \<Rightarrow> 'a option" where
  "nth_opt xs i = (if i < length xs then Some (xs ! i) else None)"

definition t41_netif :: nat where
  "t41_netif = 1"

section \<open>Setting up\<close>

definition rx_ring_init :: "enetbufferdesc_t list" where
  "rx_ring_init =
     (let ring = map (\<lambda>i. zero_bd\<lparr>bd_buffer := i * BFSIZE, bd_status := kEnetRxBdEmpty, bd_extend1 := kEnetRxBdIntrrupt\<rparr>) [0..<RX_SIZE];
          l = RX_SIZE - 1
      in ring[l := (ring ! l)\<lparr>bd_status := bd_status (ring ! l) OR kEnetRxBdWrap\<rparr>])"

definition tx_ring_init :: "enetbufferdesc_t list" where
  "tx_ring_init =
     (let ring = map (\<lambda>i. zero_bd\<lparr>bd_buffer := i * BFSIZE, bd_status := kEnetTxBdTransmitCrc,
             bd_extend1 := kEnetTxBdTxInterrupt OR kEnetTxBdIpHdrChecksum OR kEnetTxBdProtChecksum\<rparr>) [0..<TX_SIZE];
          l = TX_SIZE - 1
      in ring[l := (ring ! l)\<lparr>bd_status := bd_status (ring ! l) OR kEnetTxBdWrap\<rparr>])"

definition shl :: "u8 \<Rightarrow> nat \<Rightarrow> u32" where
  "shl b n = push_bit n (ucast b)"

text \<open>Clocks, pads and the MAC's control registers are set by writes that have no effect on this state.\<close>

definition t41_low_level_init :: "'x t41_scheme \<Rightarrow> 'x t41_scheme" where
  "t41_low_level_init s =
     s\<lparr>rx_ring := rx_ring_init, tx_ring := tx_ring_init, hw_rx := 0, hw_tx := 0,
       ENET_PALR := shl (mac s ! 0) 24 OR shl (mac s ! 1) 16 OR shl (mac s ! 2) 8 OR shl (mac s ! 3) 0,
       ENET_PAUR := shl (mac s ! 4) 24 OR shl (mac s ! 5) 16 OR 0x8808,
       ENET_RDAR := True, ENET_TDAR := True\<rparr>"

definition t41_netif_init :: "nat \<Rightarrow> 'x t41_scheme \<Rightarrow> 'x t41_scheme \<times> err_t" where
  "t41_netif_init n s =
     (let s = s\<lparr>t_ifs := nf_upd n (\<lambda>f. f\<lparr>nf_mtu := 1522,
            nf_flags := NETIF_FLAG_BROADCAST OR NETIF_FLAG_ETHARP OR NETIF_FLAG_ETHERNET OR NETIF_FLAG_IGMP,
            nf_hwaddr := mac s, nf_hwaddr_len := 6, nf_hostname := ''lwip'', nf_name := ''e0''\<rparr>) (t_ifs s)\<rparr>
      in (t41_low_level_init s, ERR_OK))"

text \<open>\<open>m1\<close> and \<open>m0\<close> are the fuses \<open>HW_OCOTP_MAC1\<close> and \<open>HW_OCOTP_MAC0\<close>.\<close>

definition enet_getmac :: "u32 \<Rightarrow> u32 \<Rightarrow> u8 list" where
  "enet_getmac m1 m0 = [ucast (drop_bit 8 m1), ucast m1, ucast (drop_bit 24 m0), ucast (drop_bit 16 m0),
     ucast (drop_bit 8 m0), ucast m0]"

section \<open>Receiving\<close>

definition err_mask :: u16 where
  "err_mask = kEnetRxBdTrunc OR kEnetRxBdCrc OR kEnetRxBdNoOctet OR kEnetRxBdLengthViolation"

definition t41_low_level_input :: "custom_free \<Rightarrow> nat \<Rightarrow> 'x t41_scheme \<Rightarrow> ('x t41_scheme \<times> nat option) option" where
  "t41_low_level_input cfree i s = do {
     bd \<leftarrow> nth_opt (rx_ring s) i;
     (s, p) \<leftarrow>
       (if bd_status bd AND err_mask \<noteq> 0 then Some (s, None)
        else do {
          (st, p) \<leftarrow> pbuf_alloc cfree PBUF_RAW (bd_length bd) PBUF_POOL (t_ps s);
          case p of
            None \<Rightarrow> Some (s\<lparr>t_ps := st, link_drop := to_u16 (link_drop s + 1)\<rparr>, None)
          | Some a \<Rightarrow> do {
              b \<leftarrow> deref st a;
              (st, _) \<leftarrow> pbuf_take (Some a) (Some (take (pb_tot_len b) (drop (bd_buffer bd) (rxbufs s)))) (pb_tot_len b) st;
              let st = upd a (\<lambda>b. b\<lparr>pb_timestamp := bd_timestamp bd\<rparr>) st;
              Some (s\<lparr>t_ps := st, link_recv := to_u16 (link_recv s + 1)\<rparr>, Some a)
            }
        });
     Some (s\<lparr>rx_ring := (rx_ring s)[i := bd\<lparr>bd_status := (bd_status bd AND kEnetRxBdWrap) OR kEnetRxBdEmpty\<rparr>],
             ENET_RDAR := True\<rparr>, p)
   }"

definition bd_after :: "enetbufferdesc_t \<Rightarrow> nat \<Rightarrow> nat" where
  "bd_after bd i = (if bd_status bd AND kEnetRxBdWrap \<noteq> 0 then 0 else i + 1)"

partial_function (option) rx_scan :: "'x t41_scheme \<Rightarrow> nat \<Rightarrow> nat option option" where
  "rx_scan s p_bd = do {
     bd \<leftarrow> nth_opt (rx_ring s) p_bd;
     if bd_status bd AND kEnetRxBdEmpty \<noteq> 0 then
       (if bd_after bd p_bd = p_rxbd s then Some None else rx_scan s (bd_after bd p_bd))
     else Some (Some p_bd)
   }"

definition rxbd_next :: "'x t41_scheme \<Rightarrow> ('x t41_scheme \<times> nat option) option" where
  "rxbd_next s = do {
     r \<leftarrow> rx_scan s (p_rxbd s);
     case r of
       None \<Rightarrow> Some (s, None)
     | Some p_bd \<Rightarrow> do {
         bd \<leftarrow> nth_opt (rx_ring s) (p_rxbd s);
         Some (s\<lparr>p_rxbd := bd_after bd (p_rxbd s)\<rparr>, Some p_bd)
       }
   }"

definition enet_rx_next :: "custom_free \<Rightarrow> 'x t41_scheme \<Rightarrow> ('x t41_scheme \<times> nat option) option" where
  "enet_rx_next cfree s = do {
     (s, p_bd) \<leftarrow> rxbd_next s;
     case p_bd of None \<Rightarrow> Some (s, None) | Some i \<Rightarrow> t41_low_level_input cfree i s
   }"

text \<open>\<open>inp\<close> is the function installed as \<open>t41_netif.input\<close>; it takes the packet over or returns an error.\<close>

type_synonym 'x input_fn = "nat \<Rightarrow> 'x t41_scheme \<Rightarrow> ('x t41_scheme \<times> err_t) option"

definition enet_input :: "custom_free \<Rightarrow> 'x input_fn \<Rightarrow> nat \<Rightarrow> 'x t41_scheme \<Rightarrow> 'x t41_scheme option" where
  "enet_input cfree inp p_frame s = do {
     (s, err) \<leftarrow> inp p_frame s;
     if err \<noteq> ERR_OK then do {
       (st, _) \<leftarrow> pbuf_free cfree (Some p_frame) (t_ps s);
       Some (s\<lparr>t_ps := st\<rparr>)
     } else Some s
   }"

partial_function (option) proc_loop :: "custom_free \<Rightarrow> 'x input_fn \<Rightarrow> 'x t41_scheme \<Rightarrow> 'x t41_scheme option" where
  "proc_loop cfree inp s = do {
     (s, p) \<leftarrow> enet_rx_next cfree s;
     case p of
       None \<Rightarrow> Some s
     | Some a \<Rightarrow> do { s \<leftarrow> enet_input cfree inp a s; proc_loop cfree inp s }
   }"

definition enet_proc_input :: "custom_free \<Rightarrow> 'x input_fn \<Rightarrow> 'x t41_scheme \<Rightarrow> 'x t41_scheme option" where
  "enet_proc_input cfree inp s =
     (if rx_callback s = None then
        if rx_ready s then proc_loop cfree inp (s\<lparr>rx_ready := False\<rparr>) else Some s
      else proc_loop cfree inp s)"

text \<open>The interrupt handler; \<open>cb\<close> is what the application's callback does.\<close>

partial_function (option) enet_isr :: "(nat \<Rightarrow> 'x t41_scheme \<Rightarrow> 'x t41_scheme) \<Rightarrow> 'x t41_scheme \<Rightarrow> 'x t41_scheme option" where
  "enet_isr cb s =
     (if ENET_EIR_RXF s then
        let s = s\<lparr>ENET_EIR_RXF := False\<rparr> in
        enet_isr cb (case rx_callback s of Some f \<Rightarrow> cb f s | None \<Rightarrow> s\<lparr>rx_ready := True\<rparr>)
      else Some s)"

definition enet_set_receive_callback :: "nat option \<Rightarrow> 'x t41_scheme \<Rightarrow> 'x t41_scheme" where
  "enet_set_receive_callback rx_cb s = s\<lparr>rx_callback := rx_cb\<rparr>"

section \<open>Sending\<close>

text \<open>While the processor waits, the MAC goes on; \<open>dma\<close> is what it does between two looks at the descriptor.\<close>

partial_function (option) tx_wait :: "('x t41_scheme \<Rightarrow> 'x t41_scheme) \<Rightarrow> nat \<Rightarrow> 'x t41_scheme \<Rightarrow> 'x t41_scheme option" where
  "tx_wait dma i s = do {
     bd \<leftarrow> nth_opt (tx_ring s) i;
     if bd_status bd AND kEnetTxBdReady \<noteq> 0 then tx_wait dma i (dma s) else Some s
   }"

definition t41_low_level_output :: "('x t41_scheme \<Rightarrow> 'x t41_scheme) \<Rightarrow> nat \<Rightarrow> 'x t41_scheme \<Rightarrow> ('x t41_scheme \<times> err_t) option" where
  "t41_low_level_output dma p s = do {
     let i = p_txbd s;
     s \<leftarrow> tx_wait dma i s;
     bd \<leftarrow> nth_opt (tx_ring s) i;
     b \<leftarrow> deref (t_ps s) p;
     (d, n) \<leftarrow> pbuf_copy_partial (Some p) (pb_tot_len b) 0 (t_ps s);
     let a = bd_buffer bd;
     if a + length d \<le> length (txbufs s) then do {
       let bd = bd\<lparr>bd_length := n,
             bd_extend1 := bd_extend1 bd AND (kEnetTxBdIpHdrChecksum OR kEnetTxBdProtChecksum),
             bd_status := (bd_status bd AND kEnetTxBdWrap) OR kEnetTxBdTransmitCrc OR kEnetTxBdLast OR kEnetTxBdReady\<rparr>;
       let s = s\<lparr>txbufs := take a (txbufs s) @ d @ drop (a + length d) (txbufs s), tx_ring := (tx_ring s)[i := bd], ENET_TDAR := True\<rparr>;
       Some (s\<lparr>p_txbd := (if bd_status bd AND kEnetTxBdWrap \<noteq> 0 then 0 else i + 1), link_xmit := to_u16 (link_xmit s + 1)\<rparr>, ERR_OK)
     } else None
   }"

section \<open>The link\<close>

text \<open>\<open>reg_data\<close> is what \<open>mdio_read\<close> returned, a \<open>uint16_t\<close> kept in an \<open>int\<close>.\<close>

definition check_link_status :: "u16 \<Rightarrow> 'x t41_scheme \<Rightarrow> 'x t41_scheme" where
  "check_link_status reg s =
     (let reg_data = uint reg in
      if reg_data \<noteq> -1 then
        let is_link_up = (reg_data AND push_bit 2 1 \<noteq> 0) in
        if netif_is_link_up (nf_store (t_ifs s) t41_netif) \<noteq> is_link_up
        then s\<lparr>t_ifs := (if is_link_up then netif_set_link_up t41_netif (t_ifs s) else netif_set_link_down t41_netif (t_ifs s))\<rparr>
        else s
      else s)"

section \<open>The MAC\<close>

text \<open>
  The MAC's side of the rings, as its reference manual describes it: a received frame goes to the
  next empty descriptor, which the MAC then marks full; when it finds the next descriptor full it stops until \<open>RDAR\<close> is written.  A
  frame that is ready is sent from the next descriptor, which the MAC then marks not ready.
\<close>

record rx_frame =
  fr_data :: "u8 list"
  fr_status :: u16
  fr_timestamp :: u32

definition dma_rx :: "rx_frame \<Rightarrow> 'x t41_scheme \<Rightarrow> 'x t41_scheme" where
  "dma_rx f s =
     (let i = hw_rx s; bd = rx_ring s ! i in
      if \<not> ENET_RDAR s then s
      else if bd_status bd AND kEnetRxBdEmpty = 0 then s\<lparr>ENET_RDAR := False\<rparr>
      else s\<lparr>rxbufs := take (bd_buffer bd) (rxbufs s) @ fr_data f @ drop (bd_buffer bd + length (fr_data f)) (rxbufs s),
             rx_ring := (rx_ring s)[i := bd\<lparr>bd_length := length (fr_data f), bd_timestamp := fr_timestamp f,
                bd_status := (bd_status bd AND kEnetRxBdWrap) OR (fr_status f AND NOT (kEnetRxBdEmpty OR kEnetRxBdWrap))\<rparr>],
             hw_rx := bd_after bd i, ENET_EIR_RXF := True\<rparr>)"

definition dma_tx :: "'x t41_scheme \<Rightarrow> 'x t41_scheme" where
  "dma_tx s =
     (let i = hw_tx s; bd = tx_ring s ! i in
      if \<not> ENET_TDAR s then s
      else if bd_status bd AND kEnetTxBdReady = 0 then s\<lparr>ENET_TDAR := False\<rparr>
      else s\<lparr>hw_wire := hw_wire s @ [take (bd_length bd) (drop (bd_buffer bd) (txbufs s))],
             tx_ring := (tx_ring s)[i := bd\<lparr>bd_status := bd_status bd AND NOT kEnetTxBdReady\<rparr>],
             hw_tx := (if bd_status bd AND kEnetTxBdWrap \<noteq> 0 then 0 else i + 1)\<rparr>)"

section \<open>Descriptor bits\<close>

definition rx_empty :: "enetbufferdesc_t \<Rightarrow> bool" where
  "rx_empty bd \<longleftrightarrow> bd_status bd AND kEnetRxBdEmpty \<noteq> 0"

definition tx_busy :: "enetbufferdesc_t \<Rightarrow> bool" where
  "tx_busy bd \<longleftrightarrow> bd_status bd AND kEnetTxBdReady \<noteq> 0"

definition bd_wraps :: "enetbufferdesc_t \<Rightarrow> bool" where
  "bd_wraps bd \<longleftrightarrow> bd_status bd AND kEnetRxBdWrap \<noteq> 0"

lemmas bd_bits = rx_empty_def tx_busy_def bd_wraps_def

lemmas k_defs = kEnetRxBdEmpty_def kEnetRxBdWrap_def kEnetRxBdLast_def kEnetRxBdLengthViolation_def kEnetRxBdNoOctet_def
  kEnetRxBdCrc_def kEnetRxBdTrunc_def kEnetRxBdIntrrupt_def kEnetTxBdReady_def kEnetTxBdWrap_def kEnetTxBdLast_def
  kEnetTxBdTransmitCrc_def kEnetTxBdTxInterrupt_def kEnetTxBdProtChecksum_def kEnetTxBdIpHdrChecksum_def err_mask_def

lemma and_bit: "(x :: u16) AND 0x8000 \<noteq> 0 \<longleftrightarrow> bit x 15" "(x :: u16) AND 0x2000 \<noteq> 0 \<longleftrightarrow> bit x 13"
proof -
  have "(0x8000 :: u16) = 2 ^ 15" "(0x2000 :: u16) = 2 ^ 13" by simp_all
  then show "x AND 0x8000 \<noteq> 0 \<longleftrightarrow> bit x 15" "x AND 0x2000 \<noteq> 0 \<longleftrightarrow> bit x 13"
    by (simp_all only: and_exp_eq_0_iff_not_bit not_not)
qed

lemma status_bits:
  "bit (0x8000 :: u16) 15" "\<not> bit (0x8000 :: u16) 13" "bit (0x2000 :: u16) 13" "\<not> bit (0x2000 :: u16) 15"
  "\<not> bit (0x400 :: u16) 13" "\<not> bit (0x800 :: u16) 13" "\<not> bit (0x400 :: u16) 15" "\<not> bit (0x800 :: u16) 15"
  "bit (0xa000 :: u16) 13" "bit (0xa000 :: u16) 15"
  by (simp_all add: bit_numeral_rec(1,2) bit_numeral_Bit0_iff)

lemma bd_status_ops:
  "rx_empty (bd\<lparr>bd_status := (bd_status bd AND kEnetRxBdWrap) OR kEnetRxBdEmpty\<rparr>)"
  "bd_wraps (bd\<lparr>bd_status := (bd_status bd AND kEnetRxBdWrap) OR kEnetRxBdEmpty\<rparr>) = bd_wraps bd"
  "\<not> rx_empty (bd\<lparr>bd_status := (bd_status bd AND kEnetRxBdWrap) OR (x AND NOT (kEnetRxBdEmpty OR kEnetRxBdWrap))\<rparr>)"
  "bd_wraps (bd\<lparr>bd_status := (bd_status bd AND kEnetRxBdWrap) OR (x AND NOT (kEnetRxBdEmpty OR kEnetRxBdWrap))\<rparr>) = bd_wraps bd"
  "tx_busy (bd\<lparr>bd_status := (bd_status bd AND kEnetTxBdWrap) OR kEnetTxBdTransmitCrc OR kEnetTxBdLast OR kEnetTxBdReady\<rparr>)"
  "bd_wraps (bd\<lparr>bd_status := (bd_status bd AND kEnetTxBdWrap) OR kEnetTxBdTransmitCrc OR kEnetTxBdLast OR kEnetTxBdReady\<rparr>) = bd_wraps bd"
  "\<not> tx_busy (bd\<lparr>bd_status := bd_status bd AND NOT kEnetTxBdReady\<rparr>)"
  "bd_wraps (bd\<lparr>bd_status := bd_status bd AND NOT kEnetTxBdReady\<rparr>) = bd_wraps bd"
  by (simp_all add: bd_bits k_defs and_bit bit_simps status_bits del: bit.conj_disj_distrib)

lemma wraps_tx: "bd_status bd AND kEnetTxBdWrap \<noteq> 0 \<longleftrightarrow> bd_wraps bd"
  by (simp add: bd_wraps_def k_defs)

section \<open>Rings\<close>

definition ring_wf :: "enetbufferdesc_t list \<Rightarrow> bool" where
  "ring_wf ring \<longleftrightarrow> length ring = 5 \<and> (\<forall>i<5. bd_buffer (ring ! i) = i * 1536 \<and> (bd_wraps (ring ! i) \<longleftrightarrow> i = 4))"

definition step :: "nat \<Rightarrow> nat" where
  "step i = (i + 1) mod 5"

lemma ring_after: "ring_wf ring \<Longrightarrow> i < 5 \<Longrightarrow> bd_after (ring ! i) i = step i"
  by (auto simp: ring_wf_def bd_after_def step_def simp flip: bd_wraps_def)

lemma ring_update:
  "ring_wf ring \<Longrightarrow> bd_buffer bd = bd_buffer (ring ! i) \<Longrightarrow> bd_wraps bd = bd_wraps (ring ! i) \<Longrightarrow> ring_wf (ring[i := bd])"
  by (cases "i < length ring") (auto simp: ring_wf_def nth_list_update)

lemma ring_init_nth:
  assumes "i < 5"
  shows "bd_buffer (rx_ring_init ! i) = i * 1536" "bd_length (rx_ring_init ! i) = 0"
    "bd_status (rx_ring_init ! i) = (if i = 4 then kEnetRxBdEmpty OR kEnetRxBdWrap else kEnetRxBdEmpty)"
    "bd_buffer (tx_ring_init ! i) = i * 1536"
    "bd_status (tx_ring_init ! i) = (if i = 4 then kEnetTxBdTransmitCrc OR kEnetTxBdWrap else kEnetTxBdTransmitCrc)"
  using assms by (simp_all add: rx_ring_init_def tx_ring_init_def zero_bd_def Let_def nth_list_update)

lemma ring_init: "ring_wf rx_ring_init" "ring_wf tx_ring_init"
  "i < 5 \<Longrightarrow> rx_empty (rx_ring_init ! i)" "i < 5 \<Longrightarrow> \<not> tx_busy (tx_ring_init ! i)"
proof -
  have "length rx_ring_init = 5" "length tx_ring_init = 5" by (simp_all add: rx_ring_init_def tx_ring_init_def Let_def)
  then show "ring_wf rx_ring_init" "ring_wf tx_ring_init"
    by (simp_all add: ring_wf_def ring_init_nth bd_bits) (simp_all add: k_defs)
  show "i < 5 \<Longrightarrow> rx_empty (rx_ring_init ! i)" "i < 5 \<Longrightarrow> \<not> tx_busy (tx_ring_init ! i)"
    by (simp_all add: ring_init_nth bd_bits) (simp_all add: k_defs)
qed

text \<open>The \<open>k\<close>-th descriptor from \<open>p\<close> on.\<close>

definition slot :: "nat \<Rightarrow> nat \<Rightarrow> nat" where
  "slot p k = (p + k) mod 5"

lemma slot_less [simp]: "slot p k < 5"
  by (simp add: slot_def)

lemma slot_0 [simp]: "p < 5 \<Longrightarrow> slot p 0 = p"
  by (simp add: slot_def)

lemma slot_step: "slot (step p) k = slot p (Suc k)" "step (slot p k) = slot p (Suc k)"
  by (simp_all add: slot_def step_def mod_simps)

lemma slot_inj: "j < 5 \<Longrightarrow> k < 5 \<Longrightarrow> slot p j = slot p k \<longleftrightarrow> j = k"
proof -
  assume jk: "j < 5" "k < 5"
  have "j = k" if "j \<le> k" "(p + j) mod 5 = (p + k) mod 5" "k < 5" for j k
  proof -
    have "(p + k - (p + j)) mod 5 = 0" using that by (metis mod_eq_dvd_iff_nat add_le_cancel_left dvd_eq_mod_eq_0)
    then show ?thesis using that by simp
  qed
  then show ?thesis using jk unfolding slot_def by (metis nat_le_linear)
qed

lemma slot_5 [simp]: "p < 5 \<Longrightarrow> slot p 5 = p"
  by (simp add: slot_def)

section \<open>The receive ring is a queue\<close>

definition mask_status :: "u16 \<Rightarrow> u16" where
  "mask_status x = x AND NOT (kEnetRxBdEmpty OR kEnetRxBdWrap)"

definition frame_at :: "'x t41_scheme \<Rightarrow> nat \<Rightarrow> rx_frame" where
  "frame_at s i = \<lparr>fr_data = take (bd_length (rx_ring s ! i)) (drop (i * 1536) (rxbufs s)),
     fr_status = mask_status (bd_status (rx_ring s ! i)), fr_timestamp = bd_timestamp (rx_ring s ! i)\<rparr>"

text \<open>\<open>rx_rep s q\<close>: the frames that the MAC has delivered and the driver has not taken yet are \<open>q\<close>, oldest first.\<close>

definition rx_rep :: "'x t41_scheme \<Rightarrow> rx_frame list \<Rightarrow> bool" where
  "rx_rep s q \<longleftrightarrow> ring_wf (rx_ring s) \<and> length (rxbufs s) = 7680 \<and> p_rxbd s < 5 \<and> length q \<le> 5 \<and>
     hw_rx s = slot (p_rxbd s) (length q) \<and>
     (\<forall>k<5. rx_empty (rx_ring s ! slot (p_rxbd s) k) \<longleftrightarrow> length q \<le> k) \<and>
     (\<forall>k<length q. q ! k = frame_at s (slot (p_rxbd s) k)) \<and> (\<forall>i<5. bd_length (rx_ring s ! i) \<le> 1536)"

definition norm_frame :: "rx_frame \<Rightarrow> rx_frame" where
  "norm_frame f = f\<lparr>fr_status := mask_status (fr_status f)\<rparr>"

lemma rx_repD:
  assumes "rx_rep s q"
  shows "ring_wf (rx_ring s)" "length (rx_ring s) = 5" "length (rxbufs s) = 7680" "p_rxbd s < 5" "length q \<le> 5"
    "hw_rx s = slot (p_rxbd s) (length q)" "\<And>k. k < 5 \<Longrightarrow> rx_empty (rx_ring s ! slot (p_rxbd s) k) \<longleftrightarrow> length q \<le> k"
    "\<And>k. k < length q \<Longrightarrow> q ! k = frame_at s (slot (p_rxbd s) k)" "\<And>i. i < 5 \<Longrightarrow> bd_length (rx_ring s ! i) \<le> 1536"
  using assms unfolding rx_rep_def ring_wf_def by auto

lemma rx_rep_cong:
  "rx_ring s' = rx_ring s \<Longrightarrow> rxbufs s' = rxbufs s \<Longrightarrow> p_rxbd s' = p_rxbd s \<Longrightarrow> hw_rx s' = hw_rx s \<Longrightarrow> rx_rep s' q = rx_rep s q"
  by (simp add: rx_rep_def frame_at_def)

lemma buffer_write:
  assumes "i < 5" and "length d \<le> 1536" and "length (buf :: u8 list) = 7680" and that: "j < 5" "n \<le> 1536"
  shows "take n (drop (j * 1536) (take (i * 1536) buf @ d @ drop (i * 1536 + length d) buf)) =
    (if j = i then take n (d @ drop (i * 1536 + length d) buf) else take n (drop (j * 1536) buf))"
proof -
  have i: "i * 1536 + 1536 \<le> 7680" using assms(1) by linarith
  show ?thesis
  proof (cases "j = i")
    case True
    then show ?thesis using assms i by simp
  next
    case False
    then consider "j * 1536 + 1536 \<le> i * 1536" | "i * 1536 + 1536 \<le> j * 1536" using that by linarith
    then show ?thesis
    proof cases
      case 1
      have "take n (drop (j * 1536) (take (i * 1536) buf)) = take n (drop (j * 1536) buf)"
        using 1 that(2) by (simp add: drop_take min_absorb1)
      moreover have "n \<le> length (drop (j * 1536) (take (i * 1536) buf))" using 1 that(2) i assms(3) by simp
      ultimately show ?thesis using False 1 i assms by simp
    next
      case 2
      define m where "m = j * 1536 - (i * 1536 + length d)"
      have m: "j * 1536 = i * 1536 + (length d + m)" using 2 assms(2) unfolding m_def by linarith
      have "drop (j * 1536) (take (i * 1536) buf @ d @ drop (i * 1536 + length d) buf) = drop m (drop (i * 1536 + length d) buf)"
        using m i assms by simp
      also have "\<dots> = drop (j * 1536) buf" using m by (simp add: ac_simps)
      finally show ?thesis using False by simp
    qed
  qed
qed

lemma dma_rx_rep:
  assumes "rx_rep s q" and "length (fr_data f) \<le> 1536"
  shows "rx_rep (dma_rx f s) (if ENET_RDAR s \<and> length q < 5 then q @ [norm_frame f] else q)"
proof -
  note r = rx_repD [OF assms(1)]
  define i where "i = hw_rx s"
  define bd where "bd = rx_ring s ! i"
  have i: "i < 5" "i = slot (p_rxbd s) (length q)" using r by (simp_all add: i_def)
  have buf: "bd_buffer bd = i * 1536" using r(1) i(1) by (simp add: ring_wf_def bd_def)
  consider "\<not> ENET_RDAR s" | "ENET_RDAR s" "length q = 5" | "ENET_RDAR s" "length q < 5" using r(5) by linarith
  then show ?thesis
  proof cases
    case 1
    then show ?thesis using assms(1) by (simp add: dma_rx_def)
  next
    case 2
    then have "i = slot (p_rxbd s) 0" using i(2) r(4) by simp
    then have "\<not> rx_empty bd" using r(7) [of 0] 2 by (simp add: bd_def)
    then have "dma_rx f s = s\<lparr>ENET_RDAR := False\<rparr>"
      using 2(1) unfolding dma_rx_def rx_empty_def bd_def i_def by simp
    then show ?thesis using 2 assms(1) rx_rep_cong [of "s\<lparr>ENET_RDAR := False\<rparr>" s] by simp
  next
    case 3
    define bd' where "bd' = bd\<lparr>bd_length := length (fr_data f), bd_timestamp := fr_timestamp f,
       bd_status := (bd_status bd AND kEnetRxBdWrap) OR (fr_status f AND NOT (kEnetRxBdEmpty OR kEnetRxBdWrap))\<rparr>"
    have e: "rx_empty bd" using r(7) [of "length q"] 3 i(2) by (simp add: bd_def)
    define s' where "s' = dma_rx f s"
    have s': "rx_ring s' = (rx_ring s)[i := bd']" "hw_rx s' = step i" "p_rxbd s' = p_rxbd s"
      "rxbufs s' = take (i * 1536) (rxbufs s) @ fr_data f @ drop (i * 1536 + length (fr_data f)) (rxbufs s)"
      using 3(1) e buf ring_after [OF r(1) i(1)]
      unfolding s'_def dma_rx_def bd'_def rx_empty_def bd_def i_def by (simp_all add: Let_def)
    have b': "\<not> rx_empty bd'" "bd_wraps bd' = bd_wraps bd" "bd_buffer bd' = bd_buffer bd"
      using bd_status_ops(3,4) [of bd "fr_status f"] by (simp_all add: bd'_def bd_bits)
    have ring: "ring_wf (rx_ring s')" unfolding s'(1) using r(1) b' by (intro ring_update) (simp_all add: bd_def)
    have nth: "rx_ring s' ! j = (if j = i then bd' else rx_ring s ! j)" if "j < 5" for j
      using that r(2) by (simp add: s'(1) nth_list_update)
    have mask: "mask_status (bd_status bd') = mask_status (fr_status f)"
      by (simp add: bd'_def mask_status_def bit_eq_iff bit_simps; auto)
    have fr: "frame_at s' j = (if j = i then norm_frame f else frame_at s j)" if "j < 5" for j
    proof -
      have "bd_length (rx_ring s' ! j) \<le> 1536" using nth [OF that] assms(2) r(9) that by (simp add: bd'_def)
      note w = buffer_write [OF i(1) assms(2) r(3) that this, folded s'(4)]
      have "bd_length bd' = length (fr_data f)" "bd_timestamp bd' = fr_timestamp f" by (simp_all add: bd'_def)
      then show ?thesis using nth [OF that] w mask by (cases "j = i") (simp_all add: frame_at_def norm_frame_def)
    qed
    have same: "slot (p_rxbd s) k = i \<longleftrightarrow> k = length q" if "k < 5" for k
      using slot_inj [OF that 3(2)] i(2) by simp
    have "length (rxbufs s') = 7680" using i(1) assms(2) r(3) by (simp add: s'(4))
    moreover have "hw_rx s' = slot (p_rxbd s) (Suc (length q))" by (simp add: s'(2) i(2) slot_step)
    moreover have "rx_empty (rx_ring s' ! slot (p_rxbd s) k) \<longleftrightarrow> Suc (length q) \<le> k" if "k < 5" for k
      using r(7) [OF that] same [OF that] nth b'(1) by auto
    moreover have "(q @ [norm_frame f]) ! k = frame_at s' (slot (p_rxbd s) k)" if "k < Suc (length q)" for k
      using r(8) [of k] same [of k] fr that 3 i(2) by (cases "k = length q") (simp_all add: nth_append)
    moreover have "bd_length (rx_ring s' ! j) \<le> 1536" if "j < 5" for j
      using nth [OF that] assms(2) r(9) that by (simp add: bd'_def)
    ultimately have "rx_rep s' (q @ [norm_frame f])"
      using ring r(4) 3 s'(3) by (simp add: rx_rep_def)
    then show ?thesis using 3 by (simp add: s'_def)
  qed
qed

lemma step_less: "step i < 5"
  by (simp add: step_def)

lemma rx_scan_none:
  assumes "rx_rep s []" and "k < 5"
  shows "rx_scan s (slot (p_rxbd s) k) = Some None"
  using assms(2)
proof (induction "5 - k" arbitrary: k)
  case (Suc n)
  note r = rx_repD [OF assms(1)]
  let ?i = "slot (p_rxbd s) k"
  have bd: "nth_opt (rx_ring s) ?i = Some (rx_ring s ! ?i)" using r(2) by (simp add: nth_opt_def)
  have e: "bd_status (rx_ring s ! ?i) AND kEnetRxBdEmpty \<noteq> 0" using r(7) [OF Suc.prems] by (simp add: rx_empty_def)
  have a: "bd_after (rx_ring s ! ?i) ?i = slot (p_rxbd s) (Suc k)" using ring_after [OF r(1)] by (simp add: slot_step)
  show ?case
  proof (cases "Suc k = 5")
    case True
    then have "slot (p_rxbd s) (Suc k) = p_rxbd s" using r(4) by simp
    then show ?thesis using bd e a by (subst rx_scan.simps) simp
  next
    case False
    then have k: "Suc k < 5" using Suc.prems by simp
    then have "slot (p_rxbd s) (Suc k) \<noteq> p_rxbd s"
      using slot_inj [of "Suc k" 0 "p_rxbd s"] r(4) by simp
    moreover have "rx_scan s (slot (p_rxbd s) (Suc k)) = Some None"
      using Suc.hyps k by (intro Suc.hyps(1)) auto
    ultimately show ?thesis using bd e a by (subst rx_scan.simps) simp
  qed
qed simp

lemma rxbd_next_empty: "rx_rep s [] \<Longrightarrow> rxbd_next s = Some (s, None)"
  using rx_scan_none [of s 0] rx_repD(4) [of s "[]"] by (simp add: rxbd_next_def)

lemma rxbd_next_first:
  assumes "rx_rep s (f # q)"
  shows "rxbd_next s = Some (s\<lparr>p_rxbd := step (p_rxbd s)\<rparr>, Some (p_rxbd s))"
proof -
  note r = rx_repD [OF assms]
  have bd: "nth_opt (rx_ring s) (p_rxbd s) = Some (rx_ring s ! p_rxbd s)" using r(2,4) by (simp add: nth_opt_def)
  have "bd_status (rx_ring s ! p_rxbd s) AND kEnetRxBdEmpty = 0" using r(7) [of 0] r(4) by (simp add: rx_empty_def)
  then have "rx_scan s (p_rxbd s) = Some (Some (p_rxbd s))" using bd by (subst rx_scan.simps) simp
  then show ?thesis using bd ring_after [OF r(1,4)] by (simp add: rxbd_next_def)
qed

definition emptied :: "enetbufferdesc_t \<Rightarrow> enetbufferdesc_t" where
  "emptied bd = bd\<lparr>bd_status := (bd_status bd AND kEnetRxBdWrap) OR kEnetRxBdEmpty\<rparr>"

lemma rx_rep_take:
  assumes "rx_rep s (f # q)" and "rx_ring s' = (rx_ring s)[p_rxbd s := emptied (rx_ring s ! p_rxbd s)]"
    and "p_rxbd s' = step (p_rxbd s)" and "rxbufs s' = rxbufs s" and "hw_rx s' = hw_rx s"
  shows "rx_rep s' q"
proof -
  note r = rx_repD [OF assms(1)]
  let ?bd = "rx_ring s ! p_rxbd s"
  have ring: "ring_wf (rx_ring s')"
    unfolding assms(2) using r(1) bd_status_ops(2) [of ?bd] by (intro ring_update) (simp_all add: emptied_def)
  have nth: "rx_ring s' ! j = (if j = p_rxbd s then emptied ?bd else rx_ring s ! j)" if "j < 5" for j
    using that r(2) by (simp add: assms(2) nth_list_update)
  have e: "rx_empty (emptied ?bd)" using bd_status_ops(1) [of ?bd] by (simp add: emptied_def)
  have p: "slot (p_rxbd s) k = p_rxbd s \<longleftrightarrow> k = 0" if "k < 5" for k
    using slot_inj [OF that, of 0 "p_rxbd s"] r(4) by simp
  have "rx_empty (rx_ring s' ! slot (p_rxbd s') k) \<longleftrightarrow> length q \<le> k" if "k < 5" for k
  proof (cases "k = 4")
    case True
    then have "slot (p_rxbd s') k = p_rxbd s" using r(4) by (simp add: assms(3) slot_step eval_nat_numeral flip: numeral_eq_Suc) (simp add: slot_def)
    then show ?thesis using nth r(4,5) e True by simp
  next
    case False
    then have k: "Suc k < 5" using that by simp
    then show ?thesis using nth p [OF k] r(7) [OF k] by (simp add: assms(3) slot_step)
  qed
  moreover have "q ! k = frame_at s' (slot (p_rxbd s') k)" if "k < length q" for k
  proof -
    have k: "Suc k < 5 \<or> Suc k = 4" "Suc k < length (f # q)" using that r(5) by auto
    then have "q ! k = frame_at s (slot (p_rxbd s) (Suc k))" using r(8) [of "Suc k"] by simp
    moreover have "slot (p_rxbd s) (Suc k) \<noteq> p_rxbd s" using p [of "Suc k"] k by auto
    ultimately show ?thesis using nth by (simp add: frame_at_def assms(3,4) slot_step)
  qed
  moreover have "bd_length (rx_ring s' ! i) \<le> 1536" if "i < 5" for i using nth [OF that] r(9) r(4) that by (simp add: emptied_def)
  ultimately show ?thesis using ring r step_less by (simp add: rx_rep_def assms(3-5) slot_step)
qed

lemma rx_rep_first:
  assumes "rx_rep s (f # q)"
  shows "fr_data f = take (bd_length (rx_ring s ! p_rxbd s)) (drop (bd_buffer (rx_ring s ! p_rxbd s)) (rxbufs s))"
    "length (fr_data f) = bd_length (rx_ring s ! p_rxbd s)" "length (fr_data f) \<le> 1536"
    "fr_timestamp f = bd_timestamp (rx_ring s ! p_rxbd s)" "fr_status f AND err_mask = bd_status (rx_ring s ! p_rxbd s) AND err_mask"
proof -
  note r = rx_repD [OF assms]
  have f: "f = frame_at s (p_rxbd s)" using r(8) [of 0] r(4) by simp
  have b: "bd_buffer (rx_ring s ! p_rxbd s) = p_rxbd s * 1536" using r(1,4) by (simp add: ring_wf_def)
  show d: "fr_data f = take (bd_length (rx_ring s ! p_rxbd s)) (drop (bd_buffer (rx_ring s ! p_rxbd s)) (rxbufs s))"
    and "fr_timestamp f = bd_timestamp (rx_ring s ! p_rxbd s)"
    using b by (simp_all add: f frame_at_def)
  have "p_rxbd s * 1536 + 1536 \<le> 7680" using r(4) by linarith
  then show l: "length (fr_data f) = bd_length (rx_ring s ! p_rxbd s)" using r(3) r(9) [OF r(4)] b by (simp add: d)
  show "length (fr_data f) \<le> 1536" using l r(9) [OF r(4)] by simp
  have "NOT (kEnetRxBdEmpty OR kEnetRxBdWrap) AND err_mask = err_mask" by (simp add: k_defs)
  then show "fr_status f AND err_mask = bd_status (rx_ring s ! p_rxbd s) AND err_mask"
    by (simp add: f frame_at_def mask_status_def and.assoc)
qed

text \<open>What taking the frame \<open>f\<close> does to the packets: nothing when the frame is bad, otherwise a new packet or a drop.\<close>

definition frame_taken :: "custom_free \<Rightarrow> rx_frame \<Rightarrow> (nat \<Rightarrow> u8 list option) \<Rightarrow> 'x t41_scheme \<Rightarrow> 'x t41_scheme \<Rightarrow> nat option \<Rightarrow> bool" where
  "frame_taken cfree f Q s s' r \<longleftrightarrow>
     (if fr_status f AND err_mask \<noteq> 0 then r = None \<and> t_ps s' = t_ps s
      else case r of
        None \<Rightarrow> packets (t_ps s') Q \<and> link_drop s' = to_u16 (link_drop s + 1) \<and>
          (\<exists>st. pbuf_alloc cfree PBUF_RAW (length (fr_data f)) PBUF_POOL (t_ps s) = Some (st, None))
      | Some p \<Rightarrow> Q p = None \<and> packets (t_ps s') (Q(p \<mapsto> fr_data f)) \<and>
          pb_timestamp (ps_buf (t_ps s') p) = fr_timestamp f \<and> link_recv s' = to_u16 (link_recv s + 1))"

lemma enet_rx_next_empty: "rx_rep s [] \<Longrightarrow> enet_rx_next cfree s = Some (s, None)"
  by (simp add: enet_rx_next_def rxbd_next_empty)

lemma enet_rx_next_frame:
  assumes "rx_rep s (f # q)" and "packets (t_ps s) Q"
  shows "\<exists>s' r. enet_rx_next cfree s = Some (s', r) \<and> rx_rep s' q \<and> frame_taken cfree f Q s s' r \<and>
    ENET_RDAR s' \<and> rx_callback s' = rx_callback s \<and> rx_ready s' = rx_ready s"
proof -
  note r = rx_repD [OF assms(1)] and f = rx_rep_first [OF assms(1)]
  define i where "i = p_rxbd s"
  define bd where "bd = rx_ring s ! i"
  define s1 where "s1 = s\<lparr>p_rxbd := step i\<rparr>"
  have n: "enet_rx_next cfree s = t41_low_level_input cfree i s1"
    by (simp add: enet_rx_next_def rxbd_next_first [OF assms(1)] i_def s1_def)
  have bd1: "nth_opt (rx_ring s1) i = Some bd" using r(2,4) by (simp add: nth_opt_def s1_def i_def bd_def)
  have rep: "rx_rep (s2\<lparr>rx_ring := (rx_ring s2)[i := emptied bd], ENET_RDAR := True\<rparr>) q"
    if "rx_ring s2 = rx_ring s" "p_rxbd s2 = step i" "rxbufs s2 = rxbufs s" "hw_rx s2 = hw_rx s" for s2
    using that by (intro rx_rep_take [OF assms(1)]) (simp_all add: i_def bd_def)
  show ?thesis
  proof (cases "fr_status f AND err_mask = 0")
    case False
    then have "t41_low_level_input cfree i s1 = Some (s1\<lparr>rx_ring := (rx_ring s1)[i := emptied bd], ENET_RDAR := True\<rparr>, None)"
      using bd1 f(5) by (simp add: t41_low_level_input_def emptied_def bd_def i_def)
    then show ?thesis using n rep [of s1] False by (simp add: s1_def frame_taken_def)
  next
    case True
    then have ok: "bd_status bd AND err_mask = 0" using f(5) by (simp add: bd_def i_def)
    have ow: "owned (t_ps s)" using assms(2) by (simp add: packets_def)
    have l: "length (fr_data f) < 65536" "length (fr_data f) = bd_length bd" using f(2,3) by (simp_all add: bd_def i_def)
    obtain st1 r where al: "pbuf_alloc cfree PBUF_RAW (bd_length bd) PBUF_POOL (t_ps s) = Some (st1, r)"
        "case r of None \<Rightarrow> unchanged (t_ps s) st1 | Some p \<Rightarrow> \<exists>as. allocated (t_ps s) (bd_length bd) st1 p as"
      using alloc_confined [OF ow, of "bd_length bd" PBUF_POOL cfree PBUF_RAW] l by (fastforce split: option.splits)
    obtain st2 r' where st: "store_packet cfree PBUF_RAW PBUF_POOL (fr_data f) (t_ps s) = Some (st2, r')"
        "case r' of None \<Rightarrow> packets st2 Q | Some p \<Rightarrow> Q p = None \<and> packets st2 (Q(p \<mapsto> fr_data f))"
      using pool_packets.store_rep [OF assms(2) l(1)] by blast
    show ?thesis
    proof (cases r)
      case None
      then have "st2 = st1" "r' = None" using st(1) al(1) l(2) by (auto simp: store_packet_def)
      define s2 where "s2 = s1\<lparr>t_ps := st1, link_drop := to_u16 (link_drop s1 + 1)\<rparr>"
      have "t41_low_level_input cfree i s1 = Some (s2\<lparr>rx_ring := (rx_ring s2)[i := emptied bd], ENET_RDAR := True\<rparr>, None)"
        using bd1 ok al None by (simp add: t41_low_level_input_def s1_def s2_def emptied_def)
      then show ?thesis
        using n rep [of s2] True st(2) \<open>st2 = st1\<close> \<open>r' = None\<close> al(1) l(2) None by (simp add: s1_def s2_def frame_taken_def)
    next
      case (Some p)
      then obtain as where a: "allocated (t_ps s) (bd_length bd) st1 p as" using al(2) by auto
      then have h: "ps_live st1 p" "pb_tot_len (ps_buf st1 p) = bd_length bd"
        using packet_head [of st1 p as] by (simp_all add: allocated_def)
      have "take (bd_length bd) (drop (bd_buffer bd) (rxbufs s)) = fr_data f" using f(1) by (simp add: bd_def i_def)
      moreover have "store_packet cfree PBUF_RAW PBUF_POOL (fr_data f) (t_ps s) =
          do { (st, _) \<leftarrow> pbuf_take (Some p) (Some (fr_data f)) (bd_length bd) st1; Some (st, Some p) }"
        using al(1) l(2) Some by (simp add: store_packet_def)
      then obtain e where tk: "pbuf_take (Some p) (Some (fr_data f)) (bd_length bd) st1 = Some (st2, e)" and r': "r' = Some p"
        using st(1) by (cases "pbuf_take (Some p) (Some (fr_data f)) (bd_length bd) st1") auto
      define st3 where "st3 = upd p (\<lambda>b. b\<lparr>pb_timestamp := bd_timestamp bd\<rparr>) st2"
      define s2 where "s2 = s1\<lparr>t_ps := st3, link_recv := to_u16 (link_recv s1 + 1)\<rparr>"
      ultimately have "t41_low_level_input cfree i s1 = Some (s2\<lparr>rx_ring := (rx_ring s2)[i := emptied bd], ENET_RDAR := True\<rparr>, Some p)"
        using bd1 ok al(1) Some h tk by (simp add: t41_low_level_input_def s1_def s2_def st3_def emptied_def)
      moreover have "packets st3 (Q(p \<mapsto> fr_data f))"
        unfolding st3_def using st(2) r' by (subst packets_upd) (auto simp: custom_def)
      moreover have "pb_timestamp (ps_buf st3 p) = fr_timestamp f" using f(4) by (simp add: st3_def bd_def i_def)
      ultimately show ?thesis
        using n rep [of s2] True st(2) r' by (simp add: s1_def s2_def frame_taken_def)
    qed
  qed
qed

text \<open>Frames arriving and the driver taking them, in any order.  \<open>acc\<close> lists the frames the MAC accepted, \<open>out\<close> those the driver
  took, each with the packet it made of it.\<close>

definition accepts :: "'x t41_scheme \<Rightarrow> bool" where
  "accepts s \<longleftrightarrow> ENET_RDAR s \<and> rx_empty (rx_ring s ! hw_rx s)"

definition has_frame :: "'x t41_scheme \<Rightarrow> bool" where
  "has_frame s \<longleftrightarrow> \<not> rx_empty (rx_ring s ! p_rxbd s)"

inductive rx_run :: "custom_free \<Rightarrow> 'x t41_scheme \<Rightarrow> rx_frame list \<Rightarrow> (rx_frame \<times> nat option) list \<Rightarrow> 'x t41_scheme \<Rightarrow> bool"
  for cfree :: custom_free and s0 :: "'x t41_scheme" where
  start: "rx_run cfree s0 [] [] s0"
| arrive: "rx_run cfree s0 (acc @ (if accepts s then [norm_frame f] else [])) out (dma_rx f s)"
    if "rx_run cfree s0 acc out s" and "length (fr_data f) \<le> 1536"
| take_frame: "rx_run cfree s0 acc (out @ (if has_frame s then [(frame_at s (p_rxbd s), r)] else [])) s'"
    if "rx_run cfree s0 acc out s" and "enet_rx_next cfree s = Some (s', r)"

fun deliver :: "(rx_frame \<times> nat option) list \<Rightarrow> (nat \<Rightarrow> u8 list option) \<Rightarrow> nat \<Rightarrow> u8 list option" where
  "deliver [] Q = Q"
| "deliver ((f, None) # out) Q = deliver out Q"
| "deliver ((f, Some p) # out) Q = deliver out (Q(p \<mapsto> fr_data f))"

lemma deliver_append: "deliver (out @ [(f, r)]) Q = (case r of None \<Rightarrow> deliver out Q | Some p \<Rightarrow> (deliver out Q)(p \<mapsto> fr_data f))"
  by (cases r; induction out Q rule: deliver.induct) (simp_all del: fun_upd_apply)

lemma accepts_rep: "rx_rep s q \<Longrightarrow> accepts s \<longleftrightarrow> ENET_RDAR s \<and> length q < 5"
proof -
  assume a: "rx_rep s q"
  note r = rx_repD [OF a]
  show ?thesis
  proof (cases "length q = 5")
    case True
    then have "hw_rx s = slot (p_rxbd s) 0" using r(4,6) by simp
    then show ?thesis using r(7) [of 0] True by (simp add: accepts_def)
  next
    case False
    then show ?thesis using r(5,6) r(7) [of "length q"] by (auto simp: accepts_def)
  qed
qed

lemma has_frame_rep: "rx_rep s q \<Longrightarrow> has_frame s \<longleftrightarrow> q \<noteq> []"
  using rx_repD(4) [of s q] rx_repD(7) [of s q 0] by (auto simp: has_frame_def)

lemma dma_rx_ps [simp]: "t_ps (dma_rx f s) = t_ps s"
  by (simp add: dma_rx_def Let_def)

lemma rx_run_inv:
  assumes "rx_run cfree s0 acc out s" and "rx_rep s0 []" and "packets (t_ps s0) Q"
  shows "\<exists>q. acc = map fst out @ q \<and> rx_rep s q \<and> packets (t_ps s) (deliver out Q) \<and>
    (\<forall>f r. (f, r) \<in> set out \<longrightarrow> fr_status f AND err_mask \<noteq> 0 \<longrightarrow> r = None)"
  using assms(1)
proof induction
  case start
  then show ?case using assms(2,3) by simp
next
  case (arrive acc out s f)
  then obtain q where q: "acc = map fst out @ q" "rx_rep s q" "packets (t_ps s) (deliver out Q)"
      "\<forall>f r. (f, r) \<in> set out \<longrightarrow> fr_status f AND err_mask \<noteq> 0 \<longrightarrow> r = None" by blast
  have "rx_rep (dma_rx f s) (q @ (if accepts s then [norm_frame f] else []))"
    using dma_rx_rep [OF q(2) arrive.hyps(2)] accepts_rep [OF q(2)] by (cases "accepts s") auto
  then show ?case using q by (intro exI [of _ "q @ (if accepts s then [norm_frame f] else [])"]) simp
next
  case (take_frame acc out s s' r)
  then obtain q where q: "acc = map fst out @ q" "rx_rep s q" "packets (t_ps s) (deliver out Q)"
      "\<forall>f r. (f, r) \<in> set out \<longrightarrow> fr_status f AND err_mask \<noteq> 0 \<longrightarrow> r = None" by blast
  show ?case
  proof (cases q)
    case Nil
    then have "s' = s" using enet_rx_next_empty [of s cfree] q(2) take_frame.hyps(2) by simp
    then show ?thesis using q Nil has_frame_rep [OF q(2)] by simp
  next
    case (Cons f q')
    have f: "f = frame_at s (p_rxbd s)" using rx_repD(8) [OF q(2), of 0] rx_repD(4) [OF q(2)] Cons by simp
    have t: "rx_rep s' q'" "frame_taken cfree f (deliver out Q) s s' r"
      using enet_rx_next_frame [OF q(2) [unfolded Cons] q(3), of cfree] take_frame.hyps(2) by auto
    then have "packets (t_ps s') (deliver (out @ [(f, r)]) Q)" "fr_status f AND err_mask \<noteq> 0 \<Longrightarrow> r = None"
      using q(3) by (auto simp: frame_taken_def deliver_append split: if_splits option.splits)
    then show ?thesis using q(1,4) t(1) Cons has_frame_rep [OF q(2)] f by auto
  qed
qed

lemma enet_rx_next_returns:
  assumes "rx_rep s q" and "packets (t_ps s) Q"
  shows "\<exists>s' r. enet_rx_next cfree s = Some (s', r)"
proof (cases q)
  case Nil
  then show ?thesis using enet_rx_next_empty [of s cfree] assms(1) by simp
next
  case (Cons f q')
  then show ?thesis using enet_rx_next_frame [of s f q' Q cfree] assms by blast
qed

lemma init_fields:
  "rx_ring (t41_low_level_init s) = rx_ring_init" "tx_ring (t41_low_level_init s) = tx_ring_init" "hw_rx (t41_low_level_init s) = 0"
  "hw_tx (t41_low_level_init s) = 0" "rxbufs (t41_low_level_init s) = rxbufs s" "txbufs (t41_low_level_init s) = txbufs s"
  "p_rxbd (t41_low_level_init s) = p_rxbd s" "p_txbd (t41_low_level_init s) = p_txbd s" "t_ps (t41_low_level_init s) = t_ps s"
  "ENET_RDAR (t41_low_level_init s)" "hw_wire (t41_low_level_init s) = hw_wire s"
  by (simp_all add: t41_low_level_init_def)

lemma init_rx_rep:
  assumes "p_rxbd s = 0" and "length (rxbufs s) = 7680"
  shows "rx_rep (t41_low_level_init s) []"
  using assms ring_init(1,3) ring_init_nth(2) by (simp add: rx_rep_def init_fields)

definition zero_buffers :: "u8 list" where
  "zero_buffers = replicate (RX_SIZE * BFSIZE) 0"

lemma length_zero_buffers [simp]: "length zero_buffers = 7680"
  unfolding zero_buffers_def length_replicate by simp

definition demo_t41 :: t41 where
  "demo_t41 = t41_low_level_init \<lparr>mac = [0, 1, 2, 3, 4, 5], rx_ring = [], tx_ring = [], rxbufs = zero_buffers,
     txbufs = zero_buffers, p_rxbd = 0, p_txbd = 0, rx_callback = None, rx_ready = False, link_xmit = 0, link_recv = 0,
     link_drop = 0, ENET_EIR_RXF = False, ENET_RDAR = False, ENET_TDAR = False, ENET_PALR = 0, ENET_PAUR = 0, hw_rx = 0,
     hw_tx = 0, hw_wire = [], t_ps = demo_free, t_ifs = demo_netifs\<rparr>"

lemma demo_t41_ok: "rx_rep demo_t41 []" "packets (t_ps demo_t41) Map.empty" "ENET_RDAR demo_t41"
  using demo_packets unfolding demo_t41_def by (simp_all only: init_fields) (simp_all add: init_rx_rep)


definition demo_frame :: rx_frame where
  "demo_frame = \<lparr>fr_data = [1, 2, 3], fr_status = 0x800, fr_timestamp = 7\<rparr>"


section \<open>The transmit ring is a queue\<close>

definition tx_frame_at :: "'x t41_scheme \<Rightarrow> nat \<Rightarrow> u8 list" where
  "tx_frame_at s i = take (bd_length (tx_ring s ! i)) (drop (i * 1536) (txbufs s))"

text \<open>\<open>tx_rep s q\<close>: the frames the driver has handed over and the MAC has not sent yet are \<open>q\<close>, oldest first.\<close>

definition tx_rep :: "'x t41_scheme \<Rightarrow> u8 list list \<Rightarrow> bool" where
  "tx_rep s q \<longleftrightarrow> ring_wf (tx_ring s) \<and> length (txbufs s) = 7680 \<and> hw_tx s < 5 \<and> length q \<le> 5 \<and>
     p_txbd s = slot (hw_tx s) (length q) \<and> (\<forall>k<5. tx_busy (tx_ring s ! slot (hw_tx s) k) \<longleftrightarrow> k < length q) \<and>
     (\<forall>k<length q. q ! k = tx_frame_at s (slot (hw_tx s) k)) \<and> (\<forall>i<5. bd_length (tx_ring s ! i) \<le> 1536) \<and>
     (q \<noteq> [] \<longrightarrow> ENET_TDAR s)"

lemma tx_repD:
  assumes "tx_rep s q"
  shows "ring_wf (tx_ring s)" "length (tx_ring s) = 5" "length (txbufs s) = 7680" "hw_tx s < 5" "length q \<le> 5"
    "p_txbd s = slot (hw_tx s) (length q)" "\<And>k. k < 5 \<Longrightarrow> tx_busy (tx_ring s ! slot (hw_tx s) k) \<longleftrightarrow> k < length q"
    "\<And>k. k < length q \<Longrightarrow> q ! k = tx_frame_at s (slot (hw_tx s) k)" "\<And>i. i < 5 \<Longrightarrow> bd_length (tx_ring s ! i) \<le> 1536"
    "q \<noteq> [] \<Longrightarrow> ENET_TDAR s"
  using assms unfolding tx_rep_def ring_wf_def by auto

lemma tx_after: "ring_wf ring \<Longrightarrow> i < 5 \<Longrightarrow> (if bd_status (ring ! i) AND kEnetTxBdWrap \<noteq> 0 then 0 else i + 1) = step i"
  by (auto simp: ring_wf_def step_def wraps_tx)

lemma dma_tx_idle:
  assumes "tx_rep s []"
  shows "tx_rep (dma_tx s) [] \<and> hw_wire (dma_tx s) = hw_wire s \<and> t_ps (dma_tx s) = t_ps s"
proof -
  note r = tx_repD [OF assms]
  have "bd_status (tx_ring s ! hw_tx s) AND kEnetTxBdReady = 0" using r(7) [of 0] r(4) by (simp add: tx_busy_def)
  then have "dma_tx s = (if ENET_TDAR s then s\<lparr>ENET_TDAR := False\<rparr> else s)" by (simp add: dma_tx_def Let_def)
  then show ?thesis using assms by (simp add: tx_rep_def)
qed

lemma dma_tx_sends:
  assumes "tx_rep s (d # q)"
  shows "tx_rep (dma_tx s) q" and "hw_wire (dma_tx s) = hw_wire s @ [d]" and "t_ps (dma_tx s) = t_ps s"
    and "p_txbd (dma_tx s) = p_txbd s"
proof -
  note r = tx_repD [OF assms]
  define i where "i = hw_tx s"
  define bd where "bd = tx_ring s ! i"
  define bd' where "bd' = bd\<lparr>bd_status := bd_status bd AND NOT kEnetTxBdReady\<rparr>"
  have i: "i < 5" using r(4) by (simp add: i_def)
  have b: "tx_busy bd" "ENET_TDAR s" using r(7) [of 0] r(4,10) by (simp_all add: bd_def i_def)
  have buf: "bd_buffer bd = i * 1536" using r(1) i by (simp add: ring_wf_def bd_def)
  define s' where "s' = dma_tx s"
  have s': "tx_ring s' = (tx_ring s)[i := bd']" "hw_tx s' = step i" "p_txbd s' = p_txbd s" "txbufs s' = txbufs s" "ENET_TDAR s'"
    "hw_wire s' = hw_wire s @ [take (bd_length bd) (drop (i * 1536) (txbufs s))]" "t_ps s' = t_ps s"
    using b buf tx_after [OF r(1) i]
    unfolding s'_def dma_tx_def bd'_def tx_busy_def bd_def i_def by (simp_all add: Let_def)
  have b': "\<not> tx_busy bd'" "bd_wraps bd' = bd_wraps bd" "bd_buffer bd' = bd_buffer bd" "bd_length bd' = bd_length bd"
    using bd_status_ops(7,8) [of bd] by (simp_all add: bd'_def)
  have ring: "ring_wf (tx_ring s')" unfolding s'(1) using r(1) b' by (intro ring_update) (simp_all add: bd_def)
  have nth: "tx_ring s' ! j = (if j = i then bd' else tx_ring s ! j)" if "j < 5" for j
    using that r(2) by (simp add: s'(1) nth_list_update)
  have fr: "tx_frame_at s' j = tx_frame_at s j" if "j < 5" for j
    using nth [OF that] b'(4) by (simp add: tx_frame_at_def s'(4) bd_def)
  have p: "slot i k = i \<longleftrightarrow> k = 0" if "k < 5" for k using slot_inj [OF that, of 0 i] i by simp
  have "tx_busy (tx_ring s' ! slot (step i) k) \<longleftrightarrow> k < length q" if "k < 5" for k
  proof (cases "k = 4")
    case True
    then have "slot (step i) k = i" using slot_5 [OF i] by (simp add: slot_step)
    then show ?thesis using nth [OF i] b'(1) True r(5) by simp
  next
    case False
    then have k: "Suc k < 5" using that by simp
    then show ?thesis using nth p [OF k] r(7) [OF k] by (simp add: slot_step flip: i_def)
  qed
  moreover have "q ! k = tx_frame_at s' (slot (step i) k)" if "k < length q" for k
    using r(8) [of "Suc k"] that fr by (simp add: slot_step i_def)
  moreover have "bd_length (tx_ring s' ! j) \<le> 1536" if "j < 5" for j using nth [OF that] r(9) [OF i] r(9) [OF that] b'(4) by (simp add: bd_def)
  moreover have "p_txbd s' = slot (step i) (length q)" using r(6) s'(3) by (simp add: slot_step i_def)
  ultimately show "tx_rep (dma_tx s) q"
    unfolding s'_def [symmetric] using ring r(3,5) step_less s'(2,4,5) by (simp add: tx_rep_def)
  have "d = tx_frame_at s i" using r(8) [of 0] r(4) by (simp add: i_def)
  then show "hw_wire (dma_tx s) = hw_wire s @ [d]" "t_ps (dma_tx s) = t_ps s" "p_txbd (dma_tx s) = p_txbd s"
    unfolding s'_def [symmetric] using s' by (simp_all add: tx_frame_at_def bd_def)
qed

text \<open>The wait ends: when all descriptors are taken, the one the driver waits for is the next to be sent.\<close>

lemma tx_wait_ends:
  assumes "tx_rep s q"
  shows "tx_wait dma_tx (p_txbd s) s = Some (if length q = 5 then dma_tx s else s)"
proof -
  note r = tx_repD [OF assms]
  have opt: "nth_opt (tx_ring s) (p_txbd s) = Some (tx_ring s ! p_txbd s)" using r(2,6) by (simp add: nth_opt_def)
  show ?thesis
  proof (cases "length q = 5")
    case False
    then have "\<not> tx_busy (tx_ring s ! p_txbd s)" using r(5,6) r(7) [of "length q"] by simp
    then show ?thesis using opt False by (subst tx_wait.simps) (simp add: tx_busy_def)
  next
    case True
    then obtain d q' where q: "q = d # q'" by (cases q) auto
    have "p_txbd s = hw_tx s" using r(4,6) True by simp
    then have b: "tx_busy (tx_ring s ! p_txbd s)" using r(7) [of 0] r(4) True by simp
    note d = dma_tx_sends [OF assms [unfolded q]]
    note r' = tx_repD [OF d(1)]
    have "nth_opt (tx_ring (dma_tx s)) (p_txbd s) = Some (tx_ring (dma_tx s) ! p_txbd s)"
      using r'(2) r(6) by (simp add: nth_opt_def)
    moreover have "\<not> tx_busy (tx_ring (dma_tx s) ! p_txbd s)"
      using r'(6) r'(7) [of 4] d(4) True q by simp
    ultimately have "tx_wait dma_tx (p_txbd s) (dma_tx s) = Some (dma_tx s)" by (subst tx_wait.simps) (simp add: tx_busy_def)
    then show ?thesis using opt b True by (subst tx_wait.simps) (simp add: tx_busy_def)
  qed
qed

lemma tx_fill:
  assumes "tx_rep s q" and "length q < 5" and "length d \<le> 1536" and "i = p_txbd s"
    and "tx_busy bd'" and "bd_wraps bd' = bd_wraps (tx_ring s ! i)" and "bd_buffer bd' = bd_buffer (tx_ring s ! i)" and "bd_length bd' = length d"
    and "tx_ring s' = (tx_ring s)[i := bd']" and "txbufs s' = take (i * 1536) (txbufs s) @ d @ drop (i * 1536 + length d) (txbufs s)"
    and "p_txbd s' = step i" and "hw_tx s' = hw_tx s" and "ENET_TDAR s'"
  shows "tx_rep s' (q @ [d])"
proof -
  note r = tx_repD [OF assms(1)]
  have i: "i < 5" "i = slot (hw_tx s) (length q)" using r(6) assms(4) by simp_all
  have ring: "ring_wf (tx_ring s')" unfolding assms(9) using r(1) assms(6,7) by (intro ring_update)
  have nth: "tx_ring s' ! j = (if j = i then bd' else tx_ring s ! j)" if "j < 5" for j
    using that r(2) by (simp add: assms(9) nth_list_update)
  have len: "bd_length (tx_ring s' ! j) \<le> 1536" if "j < 5" for j using nth [OF that] r(9) [OF that] assms(3,8) by simp
  have fr: "tx_frame_at s' j = (if j = i then d else tx_frame_at s j)" if "j < 5" for j
    using buffer_write [OF i(1) assms(3) r(3) that len [OF that], folded assms(10)] nth [OF that] assms(8)
    by (cases "j = i") (simp_all add: tx_frame_at_def)
  have same: "slot (hw_tx s) k = i \<longleftrightarrow> k = length q" if "k < 5" for k
    using slot_inj [OF that assms(2)] i(2) by simp
  have "tx_busy (tx_ring s' ! slot (hw_tx s) k) \<longleftrightarrow> k < Suc (length q)" if "k < 5" for k
    using r(7) [OF that] same [OF that] nth assms(5) by auto
  moreover have "(q @ [d]) ! k = tx_frame_at s' (slot (hw_tx s) k)" if "k < Suc (length q)" for k
    using r(8) [of k] same [of k] fr that assms(2) i(2) by (cases "k = length q") (simp_all add: nth_append)
  moreover have "length (txbufs s') = 7680" using i(1) assms(3) r(3) by (simp add: assms(10))
  ultimately show ?thesis
    using ring r(4) assms(2,11-13) len i(2) by (simp add: tx_rep_def slot_step)
qed

text \<open>One frame handed over: if the ring was full the oldest frame has gone out meanwhile.\<close>

definition after_wait :: "u8 list list \<Rightarrow> u8 list list" where
  "after_wait q = (if length q = 5 then tl q else q)"

definition gone_out :: "u8 list list \<Rightarrow> u8 list list" where
  "gone_out q = (if length q = 5 then [hd q] else [])"

lemma gone_out_order: "gone_out q @ after_wait q = q"
  by (cases q) (auto simp: gone_out_def after_wait_def)

lemma output_sends:
  assumes "tx_rep s q" and "packets (t_ps s) Q" and "Q p = Some d" and "length d \<le> 1536"
  shows "\<exists>s'. t41_low_level_output dma_tx p s = Some (s', ERR_OK) \<and> tx_rep s' (after_wait q @ [d]) \<and>
    hw_wire s' = hw_wire s @ gone_out q \<and> t_ps s' = t_ps s"
proof -
  define i where "i = p_txbd s"
  define s1 where "s1 = (if length q = 5 then dma_tx s else s)"
  have s1: "tx_rep s1 (after_wait q)" "hw_wire s1 = hw_wire s @ gone_out q" "t_ps s1 = t_ps s" "p_txbd s1 = i" "length (after_wait q) < 5"
  proof -
    have "tx_rep s1 (after_wait q) \<and> hw_wire s1 = hw_wire s @ gone_out q \<and> t_ps s1 = t_ps s \<and> p_txbd s1 = i \<and> length (after_wait q) < 5"
    proof (cases "length q = 5")
      case True
      then obtain x q' where "q = x # q'" by (cases q) auto
      then show ?thesis using dma_tx_sends [of s x q'] assms(1) True by (simp add: s1_def i_def after_wait_def gone_out_def)
    next
      case False
      then show ?thesis using assms(1) tx_repD(5) [OF assms(1)] by (simp add: s1_def i_def after_wait_def gone_out_def)
    qed
    then show "tx_rep s1 (after_wait q)" "hw_wire s1 = hw_wire s @ gone_out q" "t_ps s1 = t_ps s" "p_txbd s1 = i" "length (after_wait q) < 5"
      by blast+
  qed
  note r = tx_repD [OF s1(1)]
  have i: "i < 5" using r(6) s1(4) by simp
  define bd where "bd = tx_ring s1 ! i"
  have opt: "nth_opt (tx_ring s1) i = Some bd" using r(2) i by (simp add: nth_opt_def bd_def)
  have buf: "bd_buffer bd = i * 1536" using r(1) i by (simp add: ring_wf_def bd_def)
  have ld: "load_packet p (t_ps s1) = Some d" using pool_packets.load_rep [OF assms(2,3)] s1(3) by simp
  obtain b n where c: "deref (t_ps s1) p = Some b" "pbuf_copy_partial (Some p) (pb_tot_len b) 0 (t_ps s1) = Some (d, n)"
    using ld by (auto simp: load_packet_def bind_eq_Some_conv)
  have n: "n = length d"
  proof -
    obtain ch where ch: "chains_ok (t_ps s) Q ch" using assms(2) by (auto simp: packets_def)
    then have pk: "packet (t_ps s1) (Some p) (ch p)" "payload_data (t_ps s1) (ch p) = d"
      using assms(3) s1(3) by (auto simp: chains_ok_def)
    then have l: "total_len (t_ps s1) (ch p) < 65536" "chain (t_ps s1) (Some p) (ch p)" "length d = total_len (t_ps s1) (ch p)"
      by (auto simp: packet_def)
    have "pb_tot_len b = total_len (t_ps s1) (ch p)" using packet_head [OF pk(1)] c(1) by (auto simp: deref_def split: if_splits)
    then show ?thesis
      using copy_partial_loop_data [OF l(2,1), of "total_len (t_ps s1) (ch p)" 0 0 "[]"] l c(2) pk(2)
      by (simp add: pbuf_copy_partial_def to_u16_id)
  qed
  have fits: "bd_buffer bd + length d \<le> length (txbufs s1)" using buf i assms(4) r(3) by simp
  define bd' where "bd' = bd\<lparr>bd_length := n, bd_extend1 := bd_extend1 bd AND (kEnetTxBdIpHdrChecksum OR kEnetTxBdProtChecksum),
     bd_status := (bd_status bd AND kEnetTxBdWrap) OR kEnetTxBdTransmitCrc OR kEnetTxBdLast OR kEnetTxBdReady\<rparr>"
  define s2 where "s2 = s1\<lparr>txbufs := take (i * 1536) (txbufs s1) @ d @ drop (i * 1536 + length d) (txbufs s1),
     tx_ring := (tx_ring s1)[i := bd'], ENET_TDAR := True\<rparr>"
  define s3 where "s3 = s2\<lparr>p_txbd := step i, link_xmit := to_u16 (link_xmit s2 + 1)\<rparr>"
  have b': "tx_busy bd'" "bd_wraps bd' = bd_wraps bd" "bd_buffer bd' = bd_buffer bd" "bd_length bd' = n"
    using bd_status_ops(5,6) [of bd] by (simp_all add: bd'_def bd_bits)
  have st: "(if bd_status bd' AND kEnetTxBdWrap \<noteq> 0 then 0 else i + 1) = step i"
    using b'(2) r(1) i tx_after [OF r(1) i] by (simp add: wraps_tx bd_def)
  have "t41_low_level_output dma_tx p s = Some (s3, ERR_OK)"
    unfolding t41_low_level_output_def i_def [symmetric]
    using tx_wait_ends [OF assms(1)] opt c fits st buf
    by (simp add: s3_def s2_def bd'_def Let_def flip: i_def s1_def)
  moreover have "tx_rep s3 (after_wait q @ [d])"
    by (rule tx_fill [OF s1(1,5) assms(4), of i bd'])
      (use b' n s1(4) in \<open>simp_all add: s3_def s2_def bd_def\<close>)
  ultimately show ?thesis using s1(2,3) by (simp add: s3_def s2_def)
qed

fun send_all :: "nat list \<Rightarrow> 'x t41_scheme \<Rightarrow> 'x t41_scheme option" where
  "send_all [] s = Some s"
| "send_all (p # ps) s = do { (s, _) \<leftarrow> t41_low_level_output dma_tx p s; send_all ps s }"

lemma send_all_wire:
  assumes "tx_rep s q" and "packets (t_ps s) Q" and "\<And>p. p \<in> set ps \<Longrightarrow> \<exists>d. Q p = Some d \<and> length d \<le> 1536"
  shows "\<exists>s' q'. send_all ps s = Some s' \<and> tx_rep s' q' \<and> hw_wire s' @ q' = hw_wire s @ q @ map (the \<circ> Q) ps"
  using assms
proof (induction ps arbitrary: s q)
  case (Cons p ps)
  obtain d where d: "Q p = Some d" "length d \<le> 1536" using Cons.prems(3) [of p] by auto
  obtain s1 where s1: "t41_low_level_output dma_tx p s = Some (s1, ERR_OK)" "tx_rep s1 (after_wait q @ [d])"
      "hw_wire s1 = hw_wire s @ gone_out q" "t_ps s1 = t_ps s"
    using output_sends [OF Cons.prems(1,2) d] by blast
  obtain s' q' where w: "send_all ps s1 = Some s'" "tx_rep s' q'"
      "hw_wire s' @ q' = hw_wire s1 @ (after_wait q @ [d]) @ map (the \<circ> Q) ps"
    using Cons.IH [OF s1(2)] Cons.prems(2,3) s1(4) by auto
  have "hw_wire s1 @ after_wait q = hw_wire s @ q" using s1(3) gone_out_order [of q] by simp
  then have e: "hw_wire s1 @ (after_wait q @ [d]) @ map (the \<circ> Q) ps = hw_wire s @ q @ map (the \<circ> Q) (p # ps)"
    using d(1) by (simp flip: append_assoc)
  show ?case
  proof (intro exI conjI)
    show "send_all (p # ps) s = Some s'" using s1(1) w(1) by simp
    show "hw_wire s' @ q' = hw_wire s @ q @ map (the \<circ> Q) (p # ps)" by (simp only: w(3) e)
  qed (rule w(2))
qed auto

lemma dma_tx_drains:
  assumes "tx_rep s q"
  shows "hw_wire ((dma_tx ^^ length q) s) = hw_wire s @ q"
  using assms
proof (induction q arbitrary: s)
  case (Cons d q)
  then show ?case using dma_tx_sends [OF Cons.prems] by (simp add: funpow_swap1)
qed simp

lemma init_tx_rep:
  assumes "p_txbd s = 0" and "length (txbufs s) = 7680"
  shows "tx_rep (t41_low_level_init s) []"
proof -
  have "bd_length (tx_ring_init ! i) = 0" if "i < 5" for i
    using that by (simp add: tx_ring_init_def zero_bd_def Let_def nth_list_update)
  then show ?thesis using assms ring_init(2,4) by (simp add: tx_rep_def init_fields)
qed

lemma demo_tx_rep: "tx_rep demo_t41 []"
  unfolding demo_t41_def by (rule init_tx_rep) simp_all



section \<open>Frames that arrive during the scan\<close>

text \<open>The loop of \<open>rxbd_next\<close> with frames arriving between two of its looks at the ring.\<close>

inductive scan_run :: "'x t41_scheme \<Rightarrow> nat \<Rightarrow> 'x t41_scheme \<Rightarrow> nat option \<Rightarrow> bool" where
  arrive: "length (fr_data f) \<le> 1536 \<Longrightarrow> scan_run (dma_rx f s) b s' r \<Longrightarrow> scan_run s b s' r"
| next_bd: "rx_empty (rx_ring s ! b) \<Longrightarrow> bd_after (rx_ring s ! b) b \<noteq> p_rxbd s \<Longrightarrow> scan_run s (bd_after (rx_ring s ! b) b) s' r \<Longrightarrow>
    scan_run s b s' r"
| all_empty: "rx_empty (rx_ring s ! b) \<Longrightarrow> bd_after (rx_ring s ! b) b = p_rxbd s \<Longrightarrow> scan_run s b s None"
| found: "\<not> rx_empty (rx_ring s ! b) \<Longrightarrow> scan_run s b (s\<lparr>p_rxbd := bd_after (rx_ring s ! p_rxbd s) (p_rxbd s)\<rparr>) (Some b)"

lemma rx_rep_scan_empty:
  assumes "rx_rep s []"
  shows "rx_empty (rx_ring s ! p_rxbd s)" "bd_after (rx_ring s ! p_rxbd s) (p_rxbd s) = step (p_rxbd s)" "step (p_rxbd s) \<noteq> p_rxbd s"
  using rx_repD(7) [OF assms, of 0] rx_repD(1,4) [OF assms] ring_after [of "rx_ring s" "p_rxbd s"]
  by (simp_all add: step_def mod_if)

lemma dma_rx_p [simp]: "p_rxbd (dma_rx f s) = p_rxbd s"
  by (simp add: dma_rx_def Let_def)

lemma dma_rx_rdar: "accepts s \<Longrightarrow> ENET_RDAR (dma_rx f s)"
  by (simp add: dma_rx_def accepts_def rx_empty_def Let_def)

text \<open>
  C38. The scan of \<open>rxbd_next\<close> is not safe against the MAC: when two frames arrive after it has found the first descriptor empty, it
  returns the descriptor of the second frame, so the second frame is delivered before the first, which stays in the ring behind the
  driver's pointer.
\<close>
theorem rx_scan_reorders:
  assumes "rx_rep s []" and "ENET_RDAR s" and "length (fr_data f) \<le> 1536" and "length (fr_data g) \<le> 1536"
  shows "\<exists>s'. scan_run s (p_rxbd s) s' (Some (step (p_rxbd s))) \<and> p_rxbd s' = step (p_rxbd s) \<and>
    frame_at s' (step (p_rxbd s)) = norm_frame g \<and> frame_at s' (p_rxbd s) = norm_frame f \<and> \<not> rx_empty (rx_ring s' ! p_rxbd s)"
proof -
  define i where "i = p_rxbd s"
  have acc: "accepts s" using accepts_rep [OF assms(1)] assms(2) by simp
  define s1 where "s1 = dma_rx f s"
  define s2 where "s2 = dma_rx g s1"
  have r1: "rx_rep s1 [norm_frame f]" using dma_rx_rep [OF assms(1,3)] assms(2) by (simp add: s1_def)
  have r2: "rx_rep s2 [norm_frame f, norm_frame g]"
    using dma_rx_rep [OF r1 assms(4)] dma_rx_rdar [OF acc] by (simp add: s2_def s1_def)
  note d = rx_repD [OF r2]
  have p: "p_rxbd s2 = i" "i < 5" using d(4) by (simp_all add: s2_def s1_def i_def)
  have sl: "slot i 1 = step i" by (simp add: slot_def step_def)
  define s' where "s' = s2\<lparr>p_rxbd := bd_after (rx_ring s2 ! i) i\<rparr>"
  have "\<not> rx_empty (rx_ring s2 ! step i)" "\<not> rx_empty (rx_ring s2 ! i)" using d(7) [of 1] d(7) [of 0] p sl by simp_all
  note e = this
  have "scan_run s2 (step i) s' (Some (step i))" unfolding s'_def using scan_run.found [OF e(1)] p(1) by simp
  then have "scan_run s (step i) s' (Some (step i))" unfolding s2_def s1_def by (rule scan_run.arrive [OF assms(3) scan_run.arrive [OF assms(4)]])
  then have "scan_run s i s' (Some (step i))"
    using scan_run.next_bd [of s i] rx_rep_scan_empty [OF assms(1)] by (simp add: i_def)
  moreover have "p_rxbd s' = step i" using ring_after [OF d(1) p(2)] by (simp add: s'_def)
  moreover have "frame_at s' j = frame_at s2 j" for j by (simp add: s'_def frame_at_def)
  moreover have "frame_at s2 i = norm_frame f" "frame_at s2 (step i) = norm_frame g"
    using d(8) [of 0] d(8) [of 1] p sl by simp_all
  ultimately show ?thesis using e(2) by (auto simp: i_def s'_def)
qed

theorem rx_scan_reorders_witness:
  "\<exists>s'. scan_run demo_t41 (p_rxbd demo_t41) s' (Some (step (p_rxbd demo_t41))) \<and>
     frame_at s' (step (p_rxbd demo_t41)) = norm_frame (demo_frame\<lparr>fr_data := [9]\<rparr>)"
  using rx_scan_reorders [OF demo_t41_ok(1,3), of demo_frame "demo_frame\<lparr>fr_data := [9]\<rparr>"] by (auto simp: demo_frame_def)

section \<open>Frames that are too long\<close>

lemma output_overrun:
  assumes "tx_rep s q" and "length q < 5" and "packet (t_ps s) (Some p) as" and "1536 < total_len (t_ps s) as" and "p_txbd s = 4"
  shows "t41_low_level_output dma_tx p s = None"
proof -
  note r = tx_repD [OF assms(1)]
  have l: "total_len (t_ps s) as < 65536" "chain (t_ps s) (Some p) as" using assms(3) by (auto simp: packet_def)
  have h: "ps_live (t_ps s) p" "pb_tot_len (ps_buf (t_ps s) p) = total_len (t_ps s) as" using packet_head [OF assms(3)] by auto
  have "pbuf_copy_partial (Some p) (total_len (t_ps s) as) 0 (t_ps s) = Some (payload_data (t_ps s) as, total_len (t_ps s) as)"
    using copy_partial_loop_data [OF l(2,1), of "total_len (t_ps s) as" 0 0 "[]"] l by (simp add: pbuf_copy_partial_def to_u16_id)
  moreover have "tx_wait dma_tx 4 s = Some s" using tx_wait_ends [OF assms(1)] assms(2,5) by simp
  moreover have "nth_opt (tx_ring s) 4 = Some (tx_ring s ! 4)" "bd_buffer (tx_ring s ! 4) = 6144"
    using r(1,2) by (simp_all add: nth_opt_def ring_wf_def)
  ultimately show ?thesis using h assms(4,5) r(3) by (simp add: t41_low_level_output_def)
qed

lemma netif_mtu: "nf_mtu (nf_store (t_ifs (fst (t41_netif_init n s))) n) = 1522"
  by (simp add: t41_netif_init_def t41_low_level_init_def nf_upd_def Let_def)

section \<open>The link\<close>

lemma link_flag_bits: "netif_flag (f\<lparr>nf_flags := nf_flags f OR NETIF_FLAG_LINK_UP\<rparr>) NETIF_FLAG_LINK_UP"
  "\<not> netif_flag (f\<lparr>nf_flags := nf_flags f AND NOT NETIF_FLAG_LINK_UP\<rparr>) NETIF_FLAG_LINK_UP"
proof -
  have b: "(x :: u8) AND 4 \<noteq> 0 \<longleftrightarrow> bit x 2" for x
  proof -
    have "(4 :: u8) = 2 ^ 2" by simp
    then show ?thesis by (simp only: and_exp_eq_0_iff_not_bit not_not)
  qed
  show "netif_flag (f\<lparr>nf_flags := nf_flags f OR NETIF_FLAG_LINK_UP\<rparr>) NETIF_FLAG_LINK_UP"
    "\<not> netif_flag (f\<lparr>nf_flags := nf_flags f AND NOT NETIF_FLAG_LINK_UP\<rparr>) NETIF_FLAG_LINK_UP"
    by (simp_all add: netif_flag_def NETIF_FLAG_LINK_UP_def b bit_simps)
qed

lemma call_store [simp]: "nf_store (call c s) = nf_store s"
  by (simp add: call_def)

lemma report_store [simp]: "nf_store (netif_issue_reports n t s) = nf_store s" "nf_store (NETIF_LINK_CALLBACK n s) = nf_store s"
  "nf_store (NETIF_STATUS_CALLBACK n s) = nf_store s"
  by (simp_all add: netif_issue_reports_def NETIF_LINK_CALLBACK_def NETIF_STATUS_CALLBACK_def Let_def split: option.split)

lemma set_link_flag: "netif_is_link_up (nf_store (netif_set_link_up n s) n)" "\<not> netif_is_link_up (nf_store (netif_set_link_down n s) n)"
  using link_flag_bits by (simp_all add: netif_is_link_up_def netif_set_link_up_def netif_set_link_down_def nf_upd_def Let_def)

text \<open>
  C40. \<open>check_link_status\<close> makes the link flag equal to bit 2 of whatever the PHY register read gave.  The test for \<open>-1\<close> never
  fails, since an unsigned 16-bit value is never \<open>-1\<close>: a read of \<open>0xffff\<close>, as from an absent PHY, brings the link up.
\<close>
theorem check_link_status_follows:
  "netif_is_link_up (nf_store (t_ifs (check_link_status reg s)) t41_netif) \<longleftrightarrow> bit reg 2"
proof -
  have "uint reg \<noteq> - 1" using uint_ge_0 [of reg] by linarith
  moreover have "(uint reg AND push_bit 2 1 \<noteq> 0) = bit reg 2"
  proof -
    have "push_bit 2 (1 :: int) = 2 ^ 2" by simp
    then show ?thesis by (simp only: and_exp_eq_0_iff_not_bit not_not bit_uint_iff) (auto dest: bit_imp_le_length)
  qed
  ultimately show ?thesis using set_link_flag [of t41_netif "t_ifs s"] by (auto simp: check_link_status_def Let_def)
qed

section \<open>Handing frames up\<close>

text \<open>What the driver expects of the input function: it returns, leaves the ring alone, and when it refuses a packet the packet
  is still there.\<close>

definition same_rx :: "'x t41_scheme \<Rightarrow> 'x t41_scheme \<Rightarrow> bool" where
  "same_rx s s' \<longleftrightarrow> rx_ring s' = rx_ring s \<and> rxbufs s' = rxbufs s \<and> p_rxbd s' = p_rxbd s \<and> hw_rx s' = hw_rx s \<and>
     rx_callback s' = rx_callback s \<and> rx_ready s' = rx_ready s"

definition input_ok :: "'x input_fn \<Rightarrow> bool" where
  "input_ok inp \<longleftrightarrow> (\<forall>p s Q. packets (t_ps s) Q \<longrightarrow> p \<in> dom Q \<longrightarrow>
     (\<exists>s' e Q'. inp p s = Some (s', e) \<and> packets (t_ps s') Q' \<and> same_rx s s' \<and> (e \<noteq> ERR_OK \<longrightarrow> p \<in> dom Q')))"

lemma enet_input_ok:
  assumes "input_ok inp" and "packets (t_ps s) Q" and "Q p = Some d"
  shows "\<exists>s' Q'. enet_input cfree inp p s = Some s' \<and> packets (t_ps s') Q' \<and> same_rx s s'"
proof -
  obtain s1 e Q1 where i: "inp p s = Some (s1, e)" "packets (t_ps s1) Q1" "same_rx s s1" "e \<noteq> ERR_OK \<longrightarrow> p \<in> dom Q1"
    using assms unfolding input_ok_def by blast
  show ?thesis
  proof (cases "e = ERR_OK")
    case True
    then show ?thesis using i by (auto simp: enet_input_def)
  next
    case False
    then obtain d1 where "Q1 p = Some d1" using i(4) by blast
    then obtain st where st: "discard_packet cfree p (t_ps s1) = Some st" "packets st (Q1(p := None))"
      using pool_packets.discard_rep [OF i(2)] by blast
    then have "enet_input cfree inp p s = Some (s1\<lparr>t_ps := st\<rparr>)"
      using i(1) False by (auto simp: enet_input_def discard_packet_def bind_eq_Some_conv)
    then show ?thesis using st(2) i(3) by (auto simp: same_rx_def)
  qed
qed

lemma rx_rep_same: "same_rx s s' \<Longrightarrow> rx_rep s' q = rx_rep s q"
  by (rule rx_rep_cong) (simp_all add: same_rx_def)

text \<open>\<open>no_memory cfree f s\<close>: in state \<open>s\<close> there is no buffer for the frame \<open>f\<close>.\<close>

definition no_memory :: "custom_free \<Rightarrow> rx_frame \<Rightarrow> pstate \<Rightarrow> bool" where
  "no_memory cfree f st \<longleftrightarrow> (\<exists>st'. pbuf_alloc cfree PBUF_RAW (length (fr_data f)) PBUF_POOL st = Some (st', None))"

lemma proc_loop_handles:
  assumes "input_ok inp" and "rx_rep s q" and "packets (t_ps s) Q"
  shows "\<exists>s' n Q'. proc_loop cfree inp s = Some s' \<and> n \<le> length q \<and> rx_rep s' (drop n q) \<and> packets (t_ps s') Q' \<and>
    rx_callback s' = rx_callback s \<and> rx_ready s' = rx_ready s \<and>
    (n < length q \<longrightarrow> 0 < n \<and> (fr_status (q ! (n - 1)) AND err_mask \<noteq> 0 \<or> (\<exists>st. no_memory cfree (q ! (n - 1)) st)))"
  using assms(2,3)
proof (induction q arbitrary: s Q)
  case Nil
  then have "proc_loop cfree inp s = Some s" using enet_rx_next_empty [of s cfree] by (subst proc_loop.simps) simp
  then show ?case using Nil by auto
next
  case (Cons f q)
  obtain s1 r where n: "enet_rx_next cfree s = Some (s1, r)" "rx_rep s1 q" "frame_taken cfree f Q s s1 r"
      "rx_callback s1 = rx_callback s" "rx_ready s1 = rx_ready s"
    using enet_rx_next_frame [OF Cons.prems] by blast
  show ?case
  proof (cases r)
    case None
    then have "proc_loop cfree inp s = Some s1" using n(1) by (subst proc_loop.simps) simp
    moreover have "packets (t_ps s1) Q" "fr_status f AND err_mask \<noteq> 0 \<or> no_memory cfree f (t_ps s)"
      using n(3) None Cons.prems(2) by (auto simp: frame_taken_def no_memory_def split: if_splits)
    ultimately show ?thesis using n(2,4,5) by (intro exI [of _ s1] exI [of _ 1] exI [of _ Q]) auto
  next
    case (Some p)
    then have "packets (t_ps s1) (Q(p \<mapsto> fr_data f))" using n(3) by (simp add: frame_taken_def split: if_splits)
    then obtain s2 Q2 where s2: "enet_input cfree inp p s1 = Some s2" "packets (t_ps s2) Q2" "same_rx s1 s2"
      using enet_input_ok [OF assms(1), of s1 "Q(p \<mapsto> fr_data f)" p "fr_data f" cfree] by auto
    have r2: "rx_rep s2 q" using n(2) rx_rep_same [OF s2(3)] by simp
    obtain s' m Q' where l: "proc_loop cfree inp s2 = Some s'" "m \<le> length q" "rx_rep s' (drop m q)" "packets (t_ps s') Q'"
        "rx_callback s' = rx_callback s2" "rx_ready s' = rx_ready s2"
        "m < length q \<longrightarrow> 0 < m \<and> (fr_status (q ! (m - 1)) AND err_mask \<noteq> 0 \<or> (\<exists>st. no_memory cfree (q ! (m - 1)) st))"
      using Cons.IH [OF r2 s2(2)] by blast
    have "proc_loop cfree inp s = Some s'" using n(1) Some s2(1) l(1) by (subst proc_loop.simps) simp
    then show ?thesis using l s2(3) n(4,5)
      by (intro exI [of _ s'] exI [of _ "Suc m"] exI [of _ Q']) (auto simp: same_rx_def nth_Cons')
  qed
qed

section \<open>Types of the driver's state\<close>

definition t41_ok :: "'x t41_scheme \<Rightarrow> bool" where
  "t41_ok s \<longleftrightarrow> ring_wf (rx_ring s) \<and> ring_wf (tx_ring s) \<and> length (rxbufs s) = 7680 \<and> length (txbufs s) = 7680 \<and>
     p_rxbd s < 5 \<and> p_txbd s < 5 \<and> hw_rx s < 5 \<and> hw_tx s < 5"

lemma t41_okD:
  assumes "t41_ok s"
  shows "ring_wf (rx_ring s)" "ring_wf (tx_ring s)" "length (rxbufs s) = 7680" "length (txbufs s) = 7680"
    "p_rxbd s < 5" "p_txbd s < 5" "hw_rx s < 5" "hw_tx s < 5"
  using assms by (simp_all add: t41_ok_def)

lemma init_ok: "t41_ok (t41_low_level_init s)" if "p_rxbd s = 0" "p_txbd s = 0" "length (rxbufs s) = 7680" "length (txbufs s) = 7680"
  using that ring_init(1,2) by (simp add: t41_ok_def init_fields)

lemma dma_rx_ok:
  assumes "t41_ok s" and "length (fr_data f) \<le> 1536"
  shows "t41_ok (dma_rx f s)"
proof -
  note o = t41_okD [OF assms(1)]
  let ?i = "hw_rx s" and ?bd = "rx_ring s ! hw_rx s"
  have b: "bd_buffer ?bd = ?i * 1536" using o(1,7) by (simp add: ring_wf_def)
  have "ring_wf ((rx_ring s)[?i := ?bd\<lparr>bd_length := length (fr_data f), bd_timestamp := fr_timestamp f,
      bd_status := (bd_status ?bd AND kEnetRxBdWrap) OR (fr_status f AND NOT (kEnetRxBdEmpty OR kEnetRxBdWrap))\<rparr>])"
    using o(1) bd_status_ops(4) [of ?bd "fr_status f"] by (intro ring_update) (simp_all add: bd_wraps_def)
  moreover have "?i * 1536 + length (fr_data f) \<le> 7680" using o(7) assms(2) by linarith
  ultimately show ?thesis
    using o b ring_after [OF o(1,7)] step_less by (simp add: t41_ok_def dma_rx_def Let_def)
qed

lemma dma_tx_ok:
  assumes "t41_ok s"
  shows "t41_ok (dma_tx s)"
proof -
  note o = t41_okD [OF assms]
  let ?i = "hw_tx s" and ?bd = "tx_ring s ! hw_tx s"
  have "ring_wf ((tx_ring s)[?i := ?bd\<lparr>bd_status := bd_status ?bd AND NOT kEnetTxBdReady\<rparr>])"
    using o(2) bd_status_ops(8) [of ?bd] by (intro ring_update) simp_all
  then show ?thesis
    using o tx_after [OF o(2,8)] step_less by (simp add: t41_ok_def dma_tx_def Let_def)
qed

lemma after_less: "ring_wf ring \<Longrightarrow> i < 5 \<Longrightarrow> bd_after (ring ! i) i < 5"
  using ring_after [of ring i] step_less [of i] by simp

lemma scan_run_ok:
  assumes "scan_run s b s' r" and "t41_ok s" and "b < 5"
  shows "t41_ok s' \<and> (\<forall>i. r = Some i \<longrightarrow> i < 5 \<and> \<not> rx_empty (rx_ring s' ! i))"
  using assms
proof induction
  case (arrive f s b s' r)
  then show ?case using dma_rx_ok [of s f] by simp
next
  case (next_bd s b s' r)
  then show ?case using after_less [OF t41_okD(1)] by blast
next
  case (all_empty s b)
  then show ?case by simp
next
  case (found s b)
  then show ?case using after_less [of "rx_ring s" "p_rxbd s"] by (simp add: t41_ok_def)
qed

lemma low_level_input_ok:
  assumes "t41_ok s" and "t41_low_level_input cfree i s = Some (s', r)"
  shows "t41_ok s'"
proof -
  note o = t41_okD [OF assms(1)]
  obtain bd where bd: "nth_opt (rx_ring s) i = Some bd" using assms(2) by (cases "nth_opt (rx_ring s) i") (simp_all add: t41_low_level_input_def)
  then have i: "i < 5" "bd = rx_ring s ! i" using o(1) by (auto simp: nth_opt_def ring_wf_def split: if_splits)
  have "ring_wf ((rx_ring s)[i := emptied bd])"
    unfolding i(2) using o(1) bd_status_ops(2) by (intro ring_update) (simp_all add: emptied_def)
  moreover have "rx_ring s' = (rx_ring s)[i := emptied bd] \<and> tx_ring s' = tx_ring s \<and> rxbufs s' = rxbufs s \<and> txbufs s' = txbufs s \<and>
      p_rxbd s' = p_rxbd s \<and> p_txbd s' = p_txbd s \<and> hw_rx s' = hw_rx s \<and> hw_tx s' = hw_tx s"
  proof (cases "bd_status bd AND err_mask = 0")
    case True
    note eq = assms(2) [unfolded t41_low_level_input_def bd bind.bind_lunit, unfolded True]
    obtain st p where al: "pbuf_alloc cfree PBUF_RAW (bd_length bd) PBUF_POOL (t_ps s) = Some (st, p)"
      using eq by (cases "pbuf_alloc cfree PBUF_RAW (bd_length bd) PBUF_POOL (t_ps s)") auto
    show ?thesis
    proof (cases p)
      case None
      then show ?thesis using eq al by (auto simp: emptied_def)
    next
      case (Some a)
      then obtain b where d: "deref st a = Some b" using eq al by (cases "deref st a") auto
      define xs where "xs = take (pb_tot_len b) (drop (bd_buffer bd) (rxbufs s))"
      obtain st' e where "pbuf_take (Some a) (Some xs) (pb_tot_len b) st = Some (st', e)"
        using eq al Some d by (cases "pbuf_take (Some a) (Some xs) (pb_tot_len b) st") (auto simp: xs_def)
      then show ?thesis using eq al Some d by (auto simp: emptied_def xs_def)
    qed
  qed (use assms(2) bd in \<open>auto simp: t41_low_level_input_def emptied_def\<close>)
  ultimately show ?thesis using o by (simp add: t41_ok_def)
qed

lemma rx_scan_returns:
  assumes "t41_ok s" and "k < 5"
  shows "\<exists>r. rx_scan s (slot (p_rxbd s) k) = Some r \<and> (\<forall>i. r = Some i \<longrightarrow> i < 5)"
  using assms(2)
proof (induction "5 - k" arbitrary: k)
  case (Suc n)
  note o = t41_okD [OF assms(1)]
  let ?i = "slot (p_rxbd s) k"
  have bd: "nth_opt (rx_ring s) ?i = Some (rx_ring s ! ?i)" using o(1) by (simp add: nth_opt_def ring_wf_def)
  have a: "bd_after (rx_ring s ! ?i) ?i = slot (p_rxbd s) (Suc k)" using ring_after [OF o(1)] by (simp add: slot_step)
  show ?case
  proof (cases "bd_status (rx_ring s ! ?i) AND kEnetRxBdEmpty \<noteq> 0 \<and> slot (p_rxbd s) (Suc k) \<noteq> p_rxbd s")
    case True
    then have "Suc k \<noteq> 5" using o(5) by auto
    then have "\<exists>r. rx_scan s (slot (p_rxbd s) (Suc k)) = Some r \<and> (\<forall>i. r = Some i \<longrightarrow> i < 5)"
      using Suc.hyps Suc.prems by (intro Suc.hyps(1)) auto
    then show ?thesis using bd a True by (subst rx_scan.simps) simp
  next
    case False
    then show ?thesis using bd a by (subst rx_scan.simps) auto
  qed
qed simp

lemma rxbd_next_ok:
  assumes "t41_ok s"
  shows "\<exists>s' r. rxbd_next s = Some (s', r) \<and> t41_ok s'"
proof -
  note o = t41_okD [OF assms]
  obtain r where r: "rx_scan s (p_rxbd s) = Some r" using rx_scan_returns [OF assms, of 0] o(5) by auto
  have "nth_opt (rx_ring s) (p_rxbd s) = Some (rx_ring s ! p_rxbd s)" using o(1,5) by (simp add: nth_opt_def ring_wf_def)
  then show ?thesis
    using r assms after_less [OF o(1,5)] by (cases r) (auto simp: rxbd_next_def t41_ok_def)
qed

lemma enet_rx_next_ok:
  assumes "t41_ok s" and "enet_rx_next cfree s = Some (s', r)"
  shows "t41_ok s'"
proof -
  obtain s1 r1 where n: "rxbd_next s = Some (s1, r1)" "t41_ok s1" using rxbd_next_ok [OF assms(1)] by blast
  then show ?thesis using assms(2) low_level_input_ok [OF n(2)] by (auto simp: enet_rx_next_def split: option.splits)
qed

lemma tx_wait_ok:
  assumes "tx_wait dma i s = Some s'" and "\<And>s. t41_ok s \<Longrightarrow> t41_ok (dma s) \<and> p_txbd (dma s) = p_txbd s" and "t41_ok s"
  shows "t41_ok s' \<and> p_txbd s' = p_txbd s"
  using assms
proof (induction rule: tx_wait.raw_induct [rotated, consumes 1])
  case (1 f dma i s s')
  show ?case
  proof (cases "nth_opt (tx_ring s) i")
    case (Some bd)
    show ?thesis
    proof (cases "bd_status bd AND kEnetTxBdReady = 0")
      case True
      then show ?thesis using "1.hyps" "1.prems" Some by simp
    next
      case False
      then have "f dma i (dma s) = Some s'" using "1.hyps" Some by simp
      then show ?thesis using "1.IH" [of dma i "dma s" s'] "1.prems" by auto
    qed
  qed (use "1.hyps" in simp)
qed

lemma output_ok:
  assumes "t41_ok s" and "t41_low_level_output dma_tx p s = Some (s', e)"
  shows "t41_ok s'"
proof -
  obtain s1 where w: "tx_wait dma_tx (p_txbd s) s = Some s1" using assms(2)
    by (cases "tx_wait dma_tx (p_txbd s) s") (simp_all add: t41_low_level_output_def)
  have dt: "t41_ok s \<Longrightarrow> t41_ok (dma_tx s) \<and> p_txbd (dma_tx s) = p_txbd s" for s :: "'a t41_scheme"
  proof (intro conjI)
    show "t41_ok s \<Longrightarrow> t41_ok (dma_tx s)" by (rule dma_tx_ok)
    show "p_txbd (dma_tx s) = p_txbd s" by (simp add: dma_tx_def Let_def)
  qed
  have s1: "t41_ok s1" "p_txbd s1 = p_txbd s" using tx_wait_ok [OF w dt assms(1)] by auto
  note o = t41_okD [OF s1(1)]
  let ?i = "p_txbd s" and ?bd = "tx_ring s1 ! p_txbd s"
  have i: "?i < 5" using assms(1) by (simp add: t41_ok_def)
  have bd: "nth_opt (tx_ring s1) ?i = Some ?bd" "bd_buffer ?bd = ?i * 1536" using o(2) i by (simp_all add: nth_opt_def ring_wf_def)
  obtain b d n where c: "deref (t_ps s1) p = Some b" "pbuf_copy_partial (Some p) (pb_tot_len b) 0 (t_ps s1) = Some (d, n)"
      "?i * 1536 + length d \<le> length (txbufs s1)"
    using assms(2) w bd by (auto simp: t41_low_level_output_def bind_eq_Some_conv Let_def split: if_splits)
  define bd' where "bd' = ?bd\<lparr>bd_length := n, bd_extend1 := bd_extend1 ?bd AND (kEnetTxBdIpHdrChecksum OR kEnetTxBdProtChecksum),
     bd_status := (bd_status ?bd AND kEnetTxBdWrap) OR kEnetTxBdTransmitCrc OR kEnetTxBdLast OR kEnetTxBdReady\<rparr>"
  have wr: "bd_wraps bd' = bd_wraps ?bd" using bd_status_ops(6) [of ?bd] by (simp add: bd'_def bd_wraps_def)
  then have "ring_wf ((tx_ring s1)[?i := bd'])" using o(2) by (intro ring_update) (simp_all add: bd'_def)
  moreover have "(if bd_status bd' AND kEnetTxBdWrap \<noteq> 0 then 0 else ?i + 1) = step ?i"
    using wr tx_after [OF o(2) i] by (simp add: wraps_tx)
  moreover have "s' = s1\<lparr>txbufs := take (?i * 1536) (txbufs s1) @ d @ drop (?i * 1536 + length d) (txbufs s1),
       tx_ring := (tx_ring s1)[?i := bd'], ENET_TDAR := True,
       p_txbd := (if bd_status bd' AND kEnetTxBdWrap \<noteq> 0 then 0 else ?i + 1), link_xmit := to_u16 (link_xmit s1 + 1)\<rparr>"
    using assms(2) w bd c by (simp add: t41_low_level_output_def bd'_def Let_def)
  ultimately show ?thesis using o c(3) step_less by (simp add: t41_ok_def)
qed

text \<open>The driver's states: everything its functions and the MAC can do, in any order, the scan of the ring interrupted by arrivals
  included.\<close>

inductive t41_reach :: "custom_free \<Rightarrow> 'x t41_scheme \<Rightarrow> bool" for cfree :: custom_free where
  init: "t41_reach cfree (t41_low_level_init s)"
    if "p_rxbd s = 0" "p_txbd s = 0" "length (rxbufs s) = 7680" "length (txbufs s) = 7680"
| receive: "t41_reach cfree (dma_rx f s)" if "t41_reach cfree s" "length (fr_data f) \<le> 1536"
| transmit: "t41_reach cfree (dma_tx s)" if "t41_reach cfree s"
| rx_next: "t41_reach cfree s'" if "t41_reach cfree s" "enet_rx_next cfree s = Some (s', r)"
| scan: "t41_reach cfree s'" if "t41_reach cfree s" "scan_run s (p_rxbd s) s' r"
| low_level_input: "t41_reach cfree s'" if "t41_reach cfree s" "t41_low_level_input cfree i s = Some (s', r)"
| transmit_frame: "t41_reach cfree s'" if "t41_reach cfree s" "t41_low_level_output dma_tx p s = Some (s', e)"
| link: "t41_reach cfree (check_link_status reg s)" if "t41_reach cfree s"
| set_callback: "t41_reach cfree (enet_set_receive_callback cb s)" if "t41_reach cfree s"
| stack: "t41_reach cfree (s\<lparr>t_ps := st, t_ifs := ns, rx_ready := b, ENET_EIR_RXF := x\<rparr>)" if "t41_reach cfree s"
| layers: "t41_reach cfree (t41.more_update f s)" if "t41_reach cfree s"

lemma t41_reach_ok: "t41_reach cfree s \<Longrightarrow> t41_ok s"
proof (induction rule: t41_reach.induct)
  case (scan s s' r)
  then show ?case using scan_run_ok [OF scan.hyps(2)] t41_okD(5) by blast
next
  case (link s reg)
  then show ?case by (simp add: t41_ok_def check_link_status_def Let_def)
next
  case (stack s st ns b x)
  then show ?case by (simp add: t41_ok_def)
next
  case (layers s f)
  then show ?case by (simp add: t41_ok_def)
next
  case (set_callback s cb)
  then show ?case by (simp add: t41_ok_def enet_set_receive_callback_def)
qed (auto intro: init_ok dma_rx_ok dma_tx_ok enet_rx_next_ok low_level_input_ok output_ok)

text \<open>
  C36. The rings keep their shape in every state the driver can reach: five descriptors each, the wrap flag on exactly the last one,
  descriptor \<open>i\<close> pointing to the \<open>i\<close>-th buffer, all four positions inside the rings; so the next scan ends and no descriptor
  access is out of range.
\<close>
theorem t41_state_typed:
  assumes "t41_reach cfree s"
  shows "length (rx_ring s) = 5 \<and> length (tx_ring s) = 5 \<and> p_rxbd s < 5 \<and> p_txbd s < 5 \<and> hw_rx s < 5 \<and> hw_tx s < 5 \<and>
    (\<forall>i<5. bd_buffer (rx_ring s ! i) + 1536 \<le> length (rxbufs s) \<and> bd_buffer (tx_ring s ! i) + 1536 \<le> length (txbufs s) \<and>
       (bd_wraps (rx_ring s ! i) \<longleftrightarrow> i = 4) \<and> (bd_wraps (tx_ring s ! i) \<longleftrightarrow> i = 4)) \<and>
    (\<exists>s' r. rxbd_next s = Some (s', r))"
proof -
  have ok: "t41_ok s" by (rule t41_reach_ok [OF assms])
  note o = t41_okD [OF ok]
  have "i * 1536 + 1536 \<le> 7680" if "i < 5" for i :: nat using that by linarith
  then show ?thesis using o rxbd_next_ok [OF ok] by (auto simp: ring_wf_def)
qed

theorem t41_state_typed_witness:
  "length (rx_ring (dma_tx (dma_rx demo_frame demo_t41))) = 5 \<and> (\<exists>s' r. rxbd_next (dma_tx (dma_rx demo_frame demo_t41)) = Some (s', r))"
proof -
  have "t41_reach (\<lambda>a st. None) demo_t41" unfolding demo_t41_def by (rule t41_reach.init) simp_all
  then have "t41_reach (\<lambda>a st. None) (dma_tx (dma_rx demo_frame demo_t41))"
    by (intro t41_reach.transmit t41_reach.receive) (simp_all add: demo_frame_def)
  from t41_state_typed [OF this] show ?thesis by blast
qed



text \<open>
  C39. The transmit buffers are too small for the interface's own MTU: an IP packet of 1522 bytes, the MTU that
  \<open>t41_netif_init\<close> sets, makes a frame of 1538 bytes with the padded Ethernet header, and \<open>t41_low_level_output\<close> copies a frame
  longer than 1536 bytes past the end of the buffer array when the last descriptor is next.
\<close>
theorem tx_mtu_overruns:
  assumes "tx_rep s q" and "length q < 5" and "packet (t_ps s) (Some p) as" and "p_txbd s = 4"
    and "total_len (t_ps s) as = nf_mtu (nf_store (t_ifs (fst (t41_netif_init n s0))) n) + 16"
  shows "t41_low_level_output dma_tx p s = None"
  using output_overrun [OF assms(1-3) _ assms(4)] assms(5) netif_mtu [of n s0] by simp

definition demo_long :: t41 where
  "demo_long = demo_t41\<lparr>p_txbd := 4, hw_tx := 4,
     t_ps := demo_free\<lparr>ps_buf := (\<lambda>_. no_pbuf\<lparr>pb_payload := 500, pb_tot_len := 1538, pb_len := 1538, pb_ref := 1\<rparr>), ps_live := (\<lambda>a. a = 1)\<rparr>\<rparr>"

theorem tx_mtu_overruns_witness: "t41_low_level_output dma_tx 1 demo_long = None"
proof -
  note r = tx_repD [OF demo_tx_rep]
  have b: "\<not> tx_busy (tx_ring demo_t41 ! i)" if "i < 5" for i
    using ring_init(4) [OF that] by (simp add: demo_t41_def init_fields)
  have "tx_rep demo_long []" using r b by (simp add: tx_rep_def demo_long_def)
  moreover have "packet (t_ps demo_long) (Some 1) [1]" "total_len (t_ps demo_long) [1] = 1538"
    by (simp_all add: packet_def demo_long_def no_pbuf_def)
  ultimately show ?thesis
    using tx_mtu_overruns [of demo_long "[]" 1 "[1]" 0 demo_t41] netif_mtu [of 0 demo_t41] by (simp add: demo_long_def)
qed

end
