(* ===== verification/Ethernet.thy ===== *)
theory Ethernet
  imports Headers Lwip_T41
begin

text \<open>
  Ethernet framing, \<open>netif/ethernet.c\<close>, over the packets of \<open>Headers\<close> and the driver of \<open>Lwip_T41\<close>.  The state
  extends the driver's by the statistics that the framing counts.  The function installed as \<open>netif->linkoutput\<close> and the two protocols a frame
  is handed to are arguments, as they are function pointers or other components in the code.  An \<open>eth_addr\<close> is the list of its six bytes and is
  passed by value: where the code passes a pointer into a packet or the ARP table, the bytes do not change during the call.
\<close>

section \<open>Statistics and header access\<close>

record stats_proto =
  st_xmit :: nat
  st_recv :: nat
  st_fw :: nat
  st_drop :: nat
  st_chkerr :: nat
  st_lenerr :: nat
  st_memerr :: nat
  st_rterr :: nat
  st_proterr :: nat
  st_opterr :: nat
  st_err :: nat
  st_cachehit :: nat

definition STATS_INC :: "nat \<Rightarrow> nat" where
  "STATS_INC n = to_u16 (n + 1)"

record ethernet = t41 +
  link_lenerr :: nat
  etharp_stats :: stats_proto

type_synonym 's linkoutput_fn = "nat \<Rightarrow> nat \<Rightarrow> 's \<Rightarrow> ('s \<times> err_t) option"

definition ld8 :: "pstate \<Rightarrow> nat \<Rightarrow> u8" where
  "ld8 st a = ps_bytes st a"

definition ld16 :: "pstate \<Rightarrow> nat \<Rightarrow> u16" where
  "ld16 st a = le16 (rd (ps_bytes st) a 2)"

definition ld32 :: "pstate \<Rightarrow> nat \<Rightarrow> u32" where
  "ld32 st a = le32 (rd (ps_bytes st) a 4)"

definition ethbroadcast :: "u8 list" where "ethbroadcast = [0xff, 0xff, 0xff, 0xff, 0xff, 0xff]"
definition ethzero :: "u8 list" where "ethzero = [0, 0, 0, 0, 0, 0]"

definition SIZEOF_ETH_HDR :: nat where [simp]: "SIZEOF_ETH_HDR = 16"
definition ETHTYPE_IP :: u16 where "ETHTYPE_IP = 0x0800"
definition ETHTYPE_ARP :: u16 where "ETHTYPE_ARP = 0x0806"

section \<open>Frames in and out\<close>

definition arp_count :: "(stats_proto \<Rightarrow> stats_proto) \<Rightarrow> 'x ethernet_scheme \<Rightarrow> 'x ethernet_scheme" where
  "arp_count f s = s\<lparr>etharp_stats := f (etharp_stats s)\<rparr>"

definition free_and_return :: "custom_free \<Rightarrow> nat \<Rightarrow> 'x ethernet_scheme \<Rightarrow> ('x ethernet_scheme \<times> err_t) option" where
  "free_and_return cfree p s = do {
     (st, _) \<leftarrow> pbuf_free cfree (Some p) (t_ps s);
     Some (s\<lparr>t_ps := st\<rparr>, ERR_OK)
   }"

definition mark_multicast :: "nat \<Rightarrow> nat \<Rightarrow> pstate \<Rightarrow> pstate" where
  "mark_multicast p h st =
     (if ld8 st (h + 2) AND 1 \<noteq> 0 then
        if ld8 st (h + 2) = 0x01 then
          if ld8 st (h + 3) = 0x00 \<and> ld8 st (h + 4) = 0x5e then upd p (\<lambda>b. b\<lparr>pb_flags := pb_flags b OR PBUF_FLAG_LLMCAST\<rparr>) st else st
        else if rd (ps_bytes st) (h + 2) 6 = ethbroadcast then upd p (\<lambda>b. b\<lparr>pb_flags := pb_flags b OR PBUF_FLAG_LLBCAST\<rparr>) st
        else st
      else st)"

text \<open>\<open>ip_in\<close> is \<open>ip4_input\<close> and \<open>arp_in\<close> is \<open>etharp_input\<close>.\<close>

definition ethernet_input ::
  "custom_free \<Rightarrow> (nat \<Rightarrow> nat \<Rightarrow> 'x ethernet_scheme \<Rightarrow> ('x ethernet_scheme \<times> err_t) option) \<Rightarrow>
   (nat \<Rightarrow> nat \<Rightarrow> 'x ethernet_scheme \<Rightarrow> 'x ethernet_scheme option) \<Rightarrow> nat \<Rightarrow> nat \<Rightarrow> 'x ethernet_scheme \<Rightarrow>
   ('x ethernet_scheme \<times> err_t) option" where
  "ethernet_input cfree ip_in arp_in p netif s = do {
     b \<leftarrow> deref (t_ps s) p;
     if pb_len b \<le> SIZEOF_ETH_HDR then
       free_and_return cfree p (arp_count (\<lambda>c. c\<lparr>st_proterr := STATS_INC (st_proterr c), st_drop := STATS_INC (st_drop c)\<rparr>) s)
     else do {
       let ethhdr = pb_payload b;
       let type = ld16 (t_ps s) (ethhdr + 14);
       let s = s\<lparr>t_ps := mark_multicast p ethhdr (t_ps s)\<rparr>;
       if type = lwip_htons ETHTYPE_IP then
         (if \<not> netif_flag (nf_store (t_ifs s) netif) NETIF_FLAG_ETHARP then free_and_return cfree p s
          else do {
            (st, failed) \<leftarrow> (if pb_len b < SIZEOF_ETH_HDR then Some (t_ps s, True) else pbuf_header (Some p) (- 16) (t_ps s));
            if failed then free_and_return cfree p (s\<lparr>t_ps := st\<rparr>)
            else do {
              (s, _) \<leftarrow> ip_in p netif (s\<lparr>t_ps := st\<rparr>);
              Some (s, ERR_OK)
            }
          })
       else if type = lwip_htons ETHTYPE_ARP then
         (if \<not> netif_flag (nf_store (t_ifs s) netif) NETIF_FLAG_ETHARP then free_and_return cfree p s
          else do {
            (st, failed) \<leftarrow> (if pb_len b < SIZEOF_ETH_HDR then Some (t_ps s, True) else pbuf_header (Some p) (- 16) (t_ps s));
            if failed then
              free_and_return cfree p (arp_count (\<lambda>c. c\<lparr>st_lenerr := STATS_INC (st_lenerr c), st_drop := STATS_INC (st_drop c)\<rparr>) (s\<lparr>t_ps := st\<rparr>))
            else do {
              s \<leftarrow> arp_in p netif (s\<lparr>t_ps := st\<rparr>);
              Some (s, ERR_OK)
            }
          })
       else
         free_and_return cfree p (arp_count (\<lambda>c. c\<lparr>st_proterr := STATS_INC (st_proterr c), st_drop := STATS_INC (st_drop c)\<rparr>) s)
     }
   }"

definition ethernet_output ::
  "'x ethernet_scheme linkoutput_fn \<Rightarrow> nat \<Rightarrow> nat \<Rightarrow> u8 list \<Rightarrow> u8 list \<Rightarrow> u16 \<Rightarrow> 'x ethernet_scheme \<Rightarrow> ('x ethernet_scheme \<times> err_t) option" where
  "ethernet_output linkoutput netif p src dst eth_type s = do {
     (st, failed) \<leftarrow> pbuf_header (Some p) 16 (t_ps s);
     if failed then Some (s\<lparr>t_ps := st, link_lenerr := STATS_INC (link_lenerr s)\<rparr>, ERR_BUF)
     else do {
       b \<leftarrow> deref st p;
       let ethhdr = pb_payload b;
       let st = memcpy (ethhdr + 14) (bytes16 (lwip_htons eth_type)) st;
       let st = memcpy (ethhdr + 2) dst st;
       let st = memcpy (ethhdr + 8) src st;
       linkoutput netif p (s\<lparr>t_ps := st\<rparr>)
     }
   }"

section \<open>The contract of the link\<close>

text \<open>Handing a frame to the driver changes nothing but the driver's sending side.\<close>

definition tx_only :: "'x t41_scheme \<Rightarrow> 'x t41_scheme \<Rightarrow> bool" where
  "tx_only s s' \<longleftrightarrow> s' = s\<lparr>tx_ring := tx_ring s', txbufs := txbufs s', p_txbd := p_txbd s', link_xmit := link_xmit s',
     ENET_TDAR := ENET_TDAR s', hw_tx := hw_tx s', hw_wire := hw_wire s'\<rparr>"

definition same_tx :: "'x t41_scheme \<Rightarrow> 'x t41_scheme \<Rightarrow> bool" where
  "same_tx s s' \<longleftrightarrow> tx_ring s' = tx_ring s \<and> txbufs s' = txbufs s \<and> p_txbd s' = p_txbd s \<and>
     ENET_TDAR s' = ENET_TDAR s \<and> hw_tx s' = hw_tx s \<and> hw_wire s' = hw_wire s"

lemma tx_onlyE:
  assumes "tx_only s s'"
  obtains a b c d e f g where "s' = s\<lparr>tx_ring := a, txbufs := b, p_txbd := c, link_xmit := d, ENET_TDAR := e, hw_tx := f, hw_wire := g\<rparr>"
  using assms unfolding tx_only_def by blast

lemma tx_onlyI: "s' = s\<lparr>tx_ring := a, txbufs := b, p_txbd := c, link_xmit := d, ENET_TDAR := e, hw_tx := f, hw_wire := g\<rparr> \<Longrightarrow> tx_only s s'"
  by (simp add: tx_only_def)

lemma tx_only_refl [simp]: "tx_only s s"
  by (simp add: tx_only_def)

lemma tx_only_trans: "tx_only s s' \<Longrightarrow> tx_only s' s'' \<Longrightarrow> tx_only s s''"
  by (elim tx_onlyE) (simp add: tx_only_def)

lemma tx_only_fields:
  assumes "tx_only s s'"
  shows "t_ps s' = t_ps s" "t_ifs s' = t_ifs s" "t41.more s' = t41.more s" "same_rx s s'" "mac s' = mac s"
  using assms by (elim tx_onlyE; simp add: same_rx_def)+

lemma tx_only_dma: "tx_only s (dma_tx s)"
proof -
  have "tx_only s s" "tx_only s (s\<lparr>ENET_TDAR := x\<rparr>)" "tx_only s (s\<lparr>hw_wire := a, tx_ring := b, hw_tx := c\<rparr>)" for x a b c
    by (simp_all add: tx_only_def)
  then show ?thesis by (simp add: dma_tx_def Let_def)
qed

lemma tx_only_output:
  assumes "tx_rep s q" and "t41_low_level_output dma_tx p s = Some (s', e)"
  shows "tx_only s s'"
proof -
  define u where "u = (if length q = 5 then dma_tx s else s)"
  have u: "tx_only s u" unfolding u_def using tx_only_dma [of s] by simp
  have "tx_only u s'"
    using assms(2) by (auto simp: t41_low_level_output_def tx_wait_ends [OF assms(1), folded u_def] bind_eq_Some_conv Let_def tx_only_def split: if_splits)
  with u show ?thesis by (rule tx_only_trans)
qed

definition sent :: "'x t41_scheme \<Rightarrow> u8 list list \<Rightarrow> bool" where
  "sent s w \<longleftrightarrow> (\<exists>q. tx_rep s q \<and> w = hw_wire s @ q)"

lemma sent_same: "sent s w \<Longrightarrow> same_tx s s' \<Longrightarrow> sent s' w"
  by (auto simp: sent_def same_tx_def tx_rep_def tx_frame_at_def)

locale link_output =
  fixes linkoutput :: "'x ethernet_scheme linkoutput_fn" and frames :: "'x ethernet_scheme \<Rightarrow> u8 list list \<Rightarrow> bool"
  assumes sends: "frames s w \<Longrightarrow> pkts (t_ps s) M \<Longrightarrow> M p = Some k \<Longrightarrow> length (pk_data k) \<le> 1536 \<Longrightarrow>
      \<exists>s'. linkoutput netif p s = Some (s', ERR_OK) \<and> frames s' (w @ [pk_data k]) \<and> tx_only s s'"
    and frames_same: "frames s w \<Longrightarrow> same_tx s s' \<Longrightarrow> frames s' w"

lemma output_frames:
  assumes "sent s w" and "pkts (t_ps s) M" and "M p = Some k" and "length (pk_data k) \<le> 1536"
  shows "\<exists>s'. t41_low_level_output dma_tx p s = Some (s', ERR_OK) \<and> sent s' (w @ [pk_data k]) \<and> tx_only s s'"
proof -
  obtain q where q: "tx_rep s q" "w = hw_wire s @ q" using assms(1) by (auto simp: sent_def)
  obtain s' where s': "t41_low_level_output dma_tx p s = Some (s', ERR_OK)" "tx_rep s' (after_wait q @ [pk_data k])"
    "hw_wire s' = hw_wire s @ gone_out q"
    using output_sends [OF q(1) pkts_packets [OF assms(2)], of p "pk_data k"] assms(3,4) by auto
  have "w @ [pk_data k] = hw_wire s' @ after_wait q @ [pk_data k]" using gone_out_order [of q] q(2) s'(3) by simp
  then show ?thesis using s'(1,2) tx_only_output [OF q(1) s'(1)] by (auto simp: sent_def)
qed

interpretation t41_link: link_output "\<lambda>netif. t41_low_level_output dma_tx" sent
  using output_frames sent_same by unfold_locales blast+

section \<open>Sending a frame\<close>

definition eth_header :: "u8 list \<Rightarrow> u8 list \<Rightarrow> u8 list \<Rightarrow> u16 \<Rightarrow> u8 list" where
  "eth_header pad dst src eth_type = pad @ dst @ src @ bytes16 (lwip_htons eth_type)"

lemma length_eth_header [simp]:
  "length pad = 2 \<Longrightarrow> length dst = 6 \<Longrightarrow> length src = 6 \<Longrightarrow> length (eth_header pad dst src t) = 16"
  by (simp add: eth_header_def)

lemma eth_header_patches:
  assumes "length hdr = 16" and "length dst = 6" and "length src = 6" and "length ty = 2"
  shows "patch 8 src (patch 2 dst (patch 14 ty (hdr @ d))) = take 2 hdr @ dst @ src @ ty @ d"
  using assms by (simp add: patch_def)

text \<open>\<open>out_only s s'\<close>: only packets and the driver's sending side changed.\<close>

definition out_only :: "'x t41_scheme \<Rightarrow> 'x t41_scheme \<Rightarrow> bool" where
  "out_only s s' \<longleftrightarrow> (\<exists>st. tx_only (s\<lparr>t_ps := st\<rparr>) s')"

lemma out_only_fields:
  assumes "out_only s s'"
  shows "t_ifs s' = t_ifs s" "t41.more s' = t41.more s" "same_rx s s'"
  using assms by (auto simp: out_only_def same_rx_def elim!: tx_onlyE)

lemma out_only_ps [simp]: "out_only s (s\<lparr>t_ps := st\<rparr>)"
  by (auto simp: out_only_def intro: exI [of _ st])

lemma out_only_tx: "tx_only (s\<lparr>t_ps := st\<rparr>) s' \<Longrightarrow> out_only s s'"
  by (auto simp: out_only_def)

lemma out_only_trans: "out_only s s' \<Longrightarrow> out_only s' s'' \<Longrightarrow> out_only s s''"
proof (unfold out_only_def, elim exE)
  fix st st' assume "tx_only (s\<lparr>t_ps := st\<rparr>) s'" and "tx_only (s'\<lparr>t_ps := st'\<rparr>) s''"
  then have "tx_only (s\<lparr>t_ps := st'\<rparr>) s''" by (elim tx_onlyE) (simp add: tx_only_def)
  then show "\<exists>st. tx_only (s\<lparr>t_ps := st\<rparr>) s''" ..
qed

context link_output
begin

lemma ethernet_output_sends:
  assumes "frames s w" and "pkts (t_ps s) M" and "M p = Some k" and "16 \<le> pk_room k" and "length (pk_data k) \<le> 1520"
    and "length src = 6" and "length dst = 6"
  shows "\<exists>s' pad. ethernet_output linkoutput netif p src dst eth_type s = Some (s', ERR_OK) \<and> length pad = 2 \<and>
    pkts (t_ps s') (M(p \<mapsto> push (eth_header pad dst src eth_type) k)) \<and>
    frames s' (w @ [eth_header pad dst src eth_type @ pk_data k]) \<and> out_only s s'"
proof -
  obtain st hdr where h: "pbuf_header (Some p) 16 (t_ps s) = Some (st, False)" "length hdr = 16" "pkts st (M(p \<mapsto> push hdr k))"
    using pkts_push [OF assms(2,3,4)] assms(5) by fastforce
  have b: "deref st p = Some (ps_buf st p)" "pb_payload (ps_buf st p) = p + 20 + (pk_room k - 16)"
    using pkts_facts [OF h(3), of p "push hdr k"] h(2) by simp_all
  define ty where "ty = bytes16 (lwip_htons eth_type)"
  define a where "a = p + 20 + (pk_room k - 16)"
  define st' where "st' = memcpy (a + 8) src (memcpy (a + 2) dst (memcpy (a + 14) ty st))"
  let ?k = "\<lambda>d. (push hdr k)\<lparr>pk_data := d\<rparr>"
  have l: "length ty = 2" by (simp add: ty_def)
  have 1: "pkts (memcpy (a + 14) ty st) (M(p \<mapsto> ?k (patch 14 ty (hdr @ pk_data k))))"
    using pkts_write [OF h(3), of p _ 14 ty] h(2) l by (simp add: a_def)
  have 2: "pkts (memcpy (a + 2) dst (memcpy (a + 14) ty st)) (M(p \<mapsto> ?k (patch 2 dst (patch 14 ty (hdr @ pk_data k)))))"
    using pkts_write [OF 1, of p _ 2 dst] h(2) assms(7) by (simp add: a_def)
  have "pkts st' (M(p \<mapsto> ?k (patch 8 src (patch 2 dst (patch 14 ty (hdr @ pk_data k))))))"
    using pkts_write [OF 2, of p _ 8 src] h(2) assms(6) by (simp add: a_def st'_def)
  moreover have "?k (patch 8 src (patch 2 dst (patch 14 ty (hdr @ pk_data k)))) = push (eth_header (take 2 hdr) dst src eth_type) k"
    using h(2) l assms(6,7) by (simp add: eth_header_patches eth_header_def ty_def [symmetric] push_def)
  ultimately have 3: "pkts st' (M(p \<mapsto> push (eth_header (take 2 hdr) dst src eth_type) k))" by simp
  have f: "frames (s\<lparr>t_ps := st'\<rparr>) w" using frames_same [OF assms(1)] by (simp add: same_tx_def)
  obtain s' where s': "linkoutput netif p (s\<lparr>t_ps := st'\<rparr>) = Some (s', ERR_OK)"
    "frames s' (w @ [eth_header (take 2 hdr) dst src eth_type @ pk_data k])" "tx_only (s\<lparr>t_ps := st'\<rparr>) s'"
    using sends [OF f, of "M(p \<mapsto> push (eth_header (take 2 hdr) dst src eth_type) k)" p _ netif] 3 h(2) assms(5,6,7) by auto
  have "ethernet_output linkoutput netif p src dst eth_type s = Some (s', ERR_OK)"
    using s'(1) by (simp add: ethernet_output_def h(1) b a_def ty_def st'_def Let_def)
  moreover have "t_ps s' = st'" using tx_only_fields(1) [OF s'(3)] by simp
  ultimately show ?thesis using s'(2) 3 h(2) out_only_tx [OF s'(3)] by (intro exI [of _ s'] exI [of _ "take 2 hdr"]) simp
qed

end

lemma ethernet_output_no_room:
  assumes "pkts (t_ps s) M" and "M p = Some k" and "pk_room k < 16"
  shows "ethernet_output linkoutput netif p src dst eth_type s = Some (s\<lparr>link_lenerr := STATS_INC (link_lenerr s)\<rparr>, ERR_BUF)"
  using pkts_no_room [OF assms] by (simp add: ethernet_output_def)

end
