(* ===== verification/Etharp.thy ===== *)
theory Etharp
  imports Ethernet Ip4_Addr
begin

text \<open>
  The address resolution protocol, \<open>core/ipv4/etharp.c\<close>: a table of ten entries (no static entries, one queued packet per entry,
  entries not tied to an interface).  The state extends the framing's by the table and the index of the entry used last.
  \<open>cfree\<close> frees custom pbufs and \<open>lo\<close> is \<open>netif->linkoutput\<close>; indices into the table are \<open>nat\<close>, and \<open>None\<close> is an access outside it, a bad
  packet, or a loop that does not end.
\<close>

section \<open>Entries\<close>

datatype etharp_state =
  ETHARP_STATE_EMPTY | ETHARP_STATE_PENDING | ETHARP_STATE_STABLE | ETHARP_STATE_STABLE_REREQUESTING_1 | ETHARP_STATE_STABLE_REREQUESTING_2

fun state_num :: "etharp_state \<Rightarrow> nat" where
  "state_num ETHARP_STATE_EMPTY = 0"
| "state_num ETHARP_STATE_PENDING = 1"
| "state_num ETHARP_STATE_STABLE = 2"
| "state_num ETHARP_STATE_STABLE_REREQUESTING_1 = 3"
| "state_num ETHARP_STATE_STABLE_REREQUESTING_2 = 4"

lemma state_num_inj: "state_num a = state_num b \<longleftrightarrow> a = b"
  by (cases a; cases b) simp_all

instantiation etharp_state :: linorder
begin

definition less_eq_etharp_state :: "etharp_state \<Rightarrow> etharp_state \<Rightarrow> bool" where
  "a \<le> b \<longleftrightarrow> state_num a \<le> state_num b"

definition less_etharp_state :: "etharp_state \<Rightarrow> etharp_state \<Rightarrow> bool" where
  "a < b \<longleftrightarrow> state_num a < state_num b"

instance
  by standard (auto simp: less_eq_etharp_state_def less_etharp_state_def state_num_inj dest: antisym [THEN state_num_inj [THEN iffD1]])

end

record etharp_entry =
  ae_q :: "nat option"
  ae_ipaddr :: u32
  ae_netif :: "nat option"
  ae_ethaddr :: "u8 list"
  ae_ctime :: nat
  ae_state :: etharp_state

record etharp = ethernet +
  arp_table :: "etharp_entry list"
  etharp_cached_entry :: nat

definition ARP_TABLE_SIZE :: nat where [simp]: "ARP_TABLE_SIZE = 10"
definition ARP_MAXAGE :: nat where [simp]: "ARP_MAXAGE = 300"
definition ARP_MAXPENDING :: nat where [simp]: "ARP_MAXPENDING = 5"
definition ARP_AGE_REREQUEST_USED_UNICAST :: nat where [simp]: "ARP_AGE_REREQUEST_USED_UNICAST = ARP_MAXAGE - 30"
definition ARP_AGE_REREQUEST_USED_BROADCAST :: nat where [simp]: "ARP_AGE_REREQUEST_USED_BROADCAST = ARP_MAXAGE - 15"
definition ETHARP_FLAG_TRY_HARD :: u8 where "ETHARP_FLAG_TRY_HARD = 1"
definition ETHARP_FLAG_FIND_ONLY :: u8 where "ETHARP_FLAG_FIND_ONLY = 2"
definition SIZEOF_ETHARP_HDR :: nat where [simp]: "SIZEOF_ETHARP_HDR = 28"
definition HWTYPE_ETHERNET :: u16 where "HWTYPE_ETHERNET = 1"
definition ARP_REQUEST :: u16 where "ARP_REQUEST = 1"
definition ARP_REPLY :: u16 where "ARP_REPLY = 2"

definition set_entry :: "nat \<Rightarrow> (etharp_entry \<Rightarrow> etharp_entry) \<Rightarrow> 'x etharp_scheme \<Rightarrow> 'x etharp_scheme" where
  "set_entry i f s = s\<lparr>arp_table := (arp_table s)[i := f (arp_table s ! i)]\<rparr>"

abbreviation hwaddr :: "nat \<Rightarrow> 'x t41_scheme \<Rightarrow> u8 list" where
  "hwaddr netif s \<equiv> nf_hwaddr (nf_store (t_ifs s) netif)"

abbreviation ip_addr :: "nat \<Rightarrow> 'x t41_scheme \<Rightarrow> u32" where
  "ip_addr netif s \<equiv> nf_ip_addr (nf_store (t_ifs s) netif)"

section \<open>Sending ARP packets\<close>

definition etharp_raw ::
  "custom_free \<Rightarrow> 'x etharp_scheme linkoutput_fn \<Rightarrow> nat \<Rightarrow> u8 list \<Rightarrow> u8 list \<Rightarrow> u8 list \<Rightarrow> u32 \<Rightarrow> u8 list \<Rightarrow> u32 \<Rightarrow> u16 \<Rightarrow>
   'x etharp_scheme \<Rightarrow> ('x etharp_scheme \<times> err_t) option" where
  "etharp_raw cfree lo netif ethsrc_addr ethdst_addr hwsrc_addr ipsrc_addr hwdst_addr ipdst_addr opcode s = do {
     (st, p) \<leftarrow> pbuf_alloc cfree PBUF_LINK SIZEOF_ETHARP_HDR PBUF_RAM (t_ps s);
     let s = s\<lparr>t_ps := st\<rparr>;
     case p of
       None \<Rightarrow> Some (arp_count (\<lambda>c. c\<lparr>st_memerr := STATS_INC (st_memerr c)\<rparr>) s, ERR_MEM)
     | Some p \<Rightarrow> do {
         b \<leftarrow> deref st p;
         let hdr = pb_payload b;
         let st = memcpy (hdr + 6) (bytes16 (lwip_htons opcode)) st;
         let st = memcpy (hdr + 8) hwsrc_addr st;
         let st = memcpy (hdr + 18) hwdst_addr st;
         let st = memcpy (hdr + 14) (bytes32 ipsrc_addr) st;
         let st = memcpy (hdr + 24) (bytes32 ipdst_addr) st;
         let st = memcpy hdr (bytes16 (lwip_htons HWTYPE_ETHERNET)) st;
         let st = memcpy (hdr + 2) (bytes16 (lwip_htons ETHTYPE_IP)) st;
         let st = memcpy (hdr + 4) [6] st;
         let st = memcpy (hdr + 5) [4] st;
         (s, _) \<leftarrow> ethernet_output lo netif p ethsrc_addr ethdst_addr ETHTYPE_ARP (s\<lparr>t_ps := st\<rparr>);
         let s = arp_count (\<lambda>c. c\<lparr>st_xmit := STATS_INC (st_xmit c)\<rparr>) s;
         (st, _) \<leftarrow> pbuf_free cfree (Some p) (t_ps s);
         Some (s\<lparr>t_ps := st\<rparr>, ERR_OK)
       }
   }"

definition etharp_request_dst ::
  "custom_free \<Rightarrow> 'x etharp_scheme linkoutput_fn \<Rightarrow> nat \<Rightarrow> u32 \<Rightarrow> u8 list \<Rightarrow> 'x etharp_scheme \<Rightarrow> ('x etharp_scheme \<times> err_t) option" where
  "etharp_request_dst cfree lo netif ipaddr hw_dst_addr s =
     etharp_raw cfree lo netif (hwaddr netif s) hw_dst_addr (hwaddr netif s) (ip_addr netif s) ethzero ipaddr ARP_REQUEST s"

definition etharp_request ::
  "custom_free \<Rightarrow> 'x etharp_scheme linkoutput_fn \<Rightarrow> nat \<Rightarrow> u32 \<Rightarrow> 'x etharp_scheme \<Rightarrow> ('x etharp_scheme \<times> err_t) option" where
  "etharp_request cfree lo netif ipaddr s = etharp_request_dst cfree lo netif ipaddr ethbroadcast s"

section \<open>Ageing\<close>

definition etharp_free_entry :: "custom_free \<Rightarrow> nat \<Rightarrow> 'x etharp_scheme \<Rightarrow> 'x etharp_scheme option" where
  "etharp_free_entry cfree i s = do {
     e \<leftarrow> nth_opt (arp_table s) i;
     s \<leftarrow> (case ae_q e of
            None \<Rightarrow> Some s
          | Some q \<Rightarrow> do {
              (st, _) \<leftarrow> pbuf_free cfree (Some q) (t_ps s);
              Some (set_entry i (\<lambda>e. e\<lparr>ae_q := None\<rparr>) (s\<lparr>t_ps := st\<rparr>))
            });
     Some (set_entry i (\<lambda>e. e\<lparr>ae_state := ETHARP_STATE_EMPTY\<rparr>) s)
   }"

fun for_each :: "(nat \<Rightarrow> 's \<Rightarrow> 's option) \<Rightarrow> nat list \<Rightarrow> 's \<Rightarrow> 's option" where
  "for_each f [] s = Some s"
| "for_each f (i # is) s = do { s \<leftarrow> f i s; for_each f is s }"

definition tmr_entry :: "custom_free \<Rightarrow> 'x etharp_scheme linkoutput_fn \<Rightarrow> nat \<Rightarrow> 'x etharp_scheme \<Rightarrow> 'x etharp_scheme option" where
  "tmr_entry cfree lo i s = do {
     e \<leftarrow> nth_opt (arp_table s) i;
     if ae_state e \<noteq> ETHARP_STATE_EMPTY then do {
       let ctime = to_u16 (ae_ctime e + 1);
       let s = set_entry i (\<lambda>e. e\<lparr>ae_ctime := ctime\<rparr>) s;
       if ARP_MAXAGE \<le> ctime \<or> ae_state e = ETHARP_STATE_PENDING \<and> ARP_MAXPENDING \<le> ctime then etharp_free_entry cfree i s
       else if ae_state e = ETHARP_STATE_STABLE_REREQUESTING_1 then
         Some (set_entry i (\<lambda>e. e\<lparr>ae_state := ETHARP_STATE_STABLE_REREQUESTING_2\<rparr>) s)
       else if ae_state e = ETHARP_STATE_STABLE_REREQUESTING_2 then
         Some (set_entry i (\<lambda>e. e\<lparr>ae_state := ETHARP_STATE_STABLE\<rparr>) s)
       else if ae_state e = ETHARP_STATE_PENDING then do {
         netif \<leftarrow> ae_netif e;
         (s, _) \<leftarrow> etharp_request cfree lo netif (ae_ipaddr e) s;
         Some s
       } else Some s
     } else Some s
   }"

definition etharp_tmr :: "custom_free \<Rightarrow> 'x etharp_scheme linkoutput_fn \<Rightarrow> 'x etharp_scheme \<Rightarrow> 'x etharp_scheme option" where
  "etharp_tmr cfree lo s = for_each (tmr_entry cfree lo) [0..<ARP_TABLE_SIZE] s"

section \<open>Looking up and creating entries\<close>

text \<open>The candidates that the sweep over the table remembers; \<open>ARP_TABLE_SIZE\<close> stands for none.\<close>

record candidates =
  c_empty :: nat
  c_stable :: nat
  c_pending :: nat
  c_queue :: nat
  c_age_stable :: nat
  c_age_pending :: nat
  c_age_queue :: nat

definition no_candidates :: candidates where
  "no_candidates = \<lparr>c_empty = ARP_TABLE_SIZE, c_stable = ARP_TABLE_SIZE, c_pending = ARP_TABLE_SIZE, c_queue = ARP_TABLE_SIZE,
     c_age_stable = 0, c_age_pending = 0, c_age_queue = 0\<rparr>"

definition remember :: "nat \<Rightarrow> etharp_entry \<Rightarrow> candidates \<Rightarrow> candidates" where
  "remember i e c =
     (if ae_state e = ETHARP_STATE_PENDING then
        if ae_q e \<noteq> None then
          (if c_age_queue c \<le> ae_ctime e then c\<lparr>c_queue := i, c_age_queue := ae_ctime e\<rparr> else c)
        else
          (if c_age_pending c \<le> ae_ctime e then c\<lparr>c_pending := i, c_age_pending := ae_ctime e\<rparr> else c)
      else if ETHARP_STATE_STABLE \<le> ae_state e then
        (if c_age_stable c \<le> ae_ctime e then c\<lparr>c_stable := i, c_age_stable := ae_ctime e\<rparr> else c)
      else c)"

fun find_sweep :: "u32 option \<Rightarrow> nat \<Rightarrow> etharp_entry list \<Rightarrow> candidates \<Rightarrow> nat + candidates" where
  "find_sweep ipaddr i [] c = Inr c"
| "find_sweep ipaddr i (e # es) c =
     (if c_empty c = ARP_TABLE_SIZE \<and> ae_state e = ETHARP_STATE_EMPTY then find_sweep ipaddr (i + 1) es (c\<lparr>c_empty := i\<rparr>)
      else if ae_state e \<noteq> ETHARP_STATE_EMPTY then
        if ipaddr = Some (ae_ipaddr e) then Inl i
        else find_sweep ipaddr (i + 1) es (remember i e c)
      else find_sweep ipaddr (i + 1) es c)"

definition take_entry :: "u32 option \<Rightarrow> nat \<Rightarrow> 'x etharp_scheme \<Rightarrow> 'x etharp_scheme" where
  "take_entry ipaddr i s =
     set_entry i (\<lambda>e. e\<lparr>ae_ctime := 0\<rparr>) (case ipaddr of None \<Rightarrow> s | Some a \<Rightarrow> set_entry i (\<lambda>e. e\<lparr>ae_ipaddr := a\<rparr>) s)"

definition recycle :: "custom_free \<Rightarrow> u32 option \<Rightarrow> nat \<Rightarrow> 'x etharp_scheme \<Rightarrow> ('x etharp_scheme \<times> (err_t + nat)) option" where
  "recycle cfree ipaddr i s = do { s \<leftarrow> etharp_free_entry cfree i s; Some (take_entry ipaddr i s, Inr i) }"

definition etharp_find_entry ::
  "custom_free \<Rightarrow> u32 option \<Rightarrow> u8 \<Rightarrow> 'x etharp_scheme \<Rightarrow> ('x etharp_scheme \<times> (err_t + nat)) option" where
  "etharp_find_entry cfree ipaddr flags s =
     (case find_sweep ipaddr 0 (arp_table s) no_candidates of
        Inl i \<Rightarrow> Some (s, Inr i)
      | Inr c \<Rightarrow>
          if flags AND ETHARP_FLAG_FIND_ONLY \<noteq> 0 \<or> c_empty c = ARP_TABLE_SIZE \<and> flags AND ETHARP_FLAG_TRY_HARD = 0 then Some (s, Inl ERR_MEM)
          else if c_empty c < ARP_TABLE_SIZE then Some (take_entry ipaddr (c_empty c) s, Inr (c_empty c))
          else if c_stable c < ARP_TABLE_SIZE then recycle cfree ipaddr (c_stable c) s
          else if c_pending c < ARP_TABLE_SIZE then recycle cfree ipaddr (c_pending c) s
          else if c_queue c < ARP_TABLE_SIZE then recycle cfree ipaddr (c_queue c) s
          else Some (s, Inl ERR_MEM))"

definition send_queued ::
  "custom_free \<Rightarrow> 'x etharp_scheme linkoutput_fn \<Rightarrow> nat \<Rightarrow> u8 list \<Rightarrow> nat \<Rightarrow> 'x etharp_scheme \<Rightarrow> 'x etharp_scheme option" where
  "send_queued cfree lo netif ethaddr i s = do {
     e \<leftarrow> nth_opt (arp_table s) i;
     case ae_q e of
       None \<Rightarrow> Some s
     | Some p \<Rightarrow> do {
         let s = set_entry i (\<lambda>e. e\<lparr>ae_q := None\<rparr>) s;
         (s, _) \<leftarrow> ethernet_output lo netif p (hwaddr netif s) ethaddr ETHTYPE_IP s;
         (st, _) \<leftarrow> pbuf_free cfree (Some p) (t_ps s);
         Some (s\<lparr>t_ps := st\<rparr>)
       }
   }"

definition etharp_update_arp_entry ::
  "custom_free \<Rightarrow> 'x etharp_scheme linkoutput_fn \<Rightarrow> nat \<Rightarrow> u32 \<Rightarrow> u8 list \<Rightarrow> u8 \<Rightarrow> 'x etharp_scheme \<Rightarrow> ('x etharp_scheme \<times> err_t) option" where
  "etharp_update_arp_entry cfree lo netif ipaddr ethaddr flags s =
     (if ip4_addr_isany ipaddr \<or> ip4_addr_isbroadcast_u32 ipaddr (nf_store (t_ifs s) netif) \<or> ip4_addr_ismulticast ipaddr then Some (s, ERR_ARG)
      else do {
        (s, r) \<leftarrow> etharp_find_entry cfree (Some ipaddr) flags s;
        case r of
          Inl err \<Rightarrow> Some (s, err)
        | Inr i \<Rightarrow> do {
            let s = set_entry i (\<lambda>e. e\<lparr>ae_state := ETHARP_STATE_STABLE, ae_netif := Some netif, ae_ethaddr := ethaddr, ae_ctime := 0\<rparr>) s;
            s \<leftarrow> send_queued cfree lo netif ethaddr i s;
            Some (s, ERR_OK)
          }
      })"

definition cleanup_entry :: "custom_free \<Rightarrow> nat \<Rightarrow> nat \<Rightarrow> 'x etharp_scheme \<Rightarrow> 'x etharp_scheme option" where
  "cleanup_entry cfree netif i s = do {
     e \<leftarrow> nth_opt (arp_table s) i;
     if ae_state e \<noteq> ETHARP_STATE_EMPTY \<and> ae_netif e = Some netif then etharp_free_entry cfree i s else Some s
   }"

definition etharp_cleanup_netif :: "custom_free \<Rightarrow> nat \<Rightarrow> 'x etharp_scheme \<Rightarrow> 'x etharp_scheme option" where
  "etharp_cleanup_netif cfree netif s = for_each (cleanup_entry cfree netif) [0..<ARP_TABLE_SIZE] s"

text \<open>The index of a stable entry, with the two addresses that the C function returns through pointers.\<close>

definition etharp_find_addr ::
  "custom_free \<Rightarrow> u32 \<Rightarrow> 'x etharp_scheme \<Rightarrow> ('x etharp_scheme \<times> (nat \<times> u8 list \<times> u32) option) option" where
  "etharp_find_addr cfree ipaddr s = do {
     (s, r) \<leftarrow> etharp_find_entry cfree (Some ipaddr) ETHARP_FLAG_FIND_ONLY s;
     case r of
       Inl _ \<Rightarrow> Some (s, None)
     | Inr i \<Rightarrow> do {
         e \<leftarrow> nth_opt (arp_table s) i;
         Some (s, if ETHARP_STATE_STABLE \<le> ae_state e then Some (i, ae_ethaddr e, ae_ipaddr e) else None)
       }
   }"

definition etharp_get_entry :: "nat \<Rightarrow> 'x etharp_scheme \<Rightarrow> (u32 \<times> nat option \<times> u8 list) option option" where
  "etharp_get_entry i s =
     (if i < ARP_TABLE_SIZE then do {
        e \<leftarrow> nth_opt (arp_table s) i;
        Some (if ETHARP_STATE_STABLE \<le> ae_state e then Some (ae_ipaddr e, ae_netif e, ae_ethaddr e) else None)
      } else Some None)"

section \<open>ARP packets in\<close>

text \<open>\<open>dhcp_arp_reply\<close> tells the DHCP client which host has answered.\<close>

definition etharp_input ::
  "custom_free \<Rightarrow> 'x etharp_scheme linkoutput_fn \<Rightarrow> (nat \<Rightarrow> u32 \<Rightarrow> 'x etharp_scheme \<Rightarrow> 'x etharp_scheme option) \<Rightarrow> nat \<Rightarrow> nat \<Rightarrow>
   'x etharp_scheme \<Rightarrow> 'x etharp_scheme option" where
  "etharp_input cfree lo dhcp_arp_reply p netif s = do {
     b \<leftarrow> deref (t_ps s) p;
     let hdr = pb_payload b;
     if ld16 (t_ps s) hdr \<noteq> lwip_htons HWTYPE_ETHERNET \<or> ld8 (t_ps s) (hdr + 4) \<noteq> 6 \<or> ld8 (t_ps s) (hdr + 5) \<noteq> 4 \<or>
        ld16 (t_ps s) (hdr + 2) \<noteq> lwip_htons ETHTYPE_IP
     then do {
       let s = arp_count (\<lambda>c. c\<lparr>st_proterr := STATS_INC (st_proterr c), st_drop := STATS_INC (st_drop c)\<rparr>) s;
       (st, _) \<leftarrow> pbuf_free cfree (Some p) (t_ps s);
       Some (s\<lparr>t_ps := st\<rparr>)
     } else do {
       let s = arp_count (\<lambda>c. c\<lparr>st_recv := STATS_INC (st_recv c)\<rparr>) s;
       let sipaddr = ld32 (t_ps s) (hdr + 14);
       let dipaddr = ld32 (t_ps s) (hdr + 24);
       let for_us = (if ip4_addr_isany (ip_addr netif s) then False else dipaddr = ip_addr netif s);
       (s, _) \<leftarrow> etharp_update_arp_entry cfree lo netif sipaddr (rd (ps_bytes (t_ps s)) (hdr + 8) 6)
                 (if for_us then ETHARP_FLAG_TRY_HARD else ETHARP_FLAG_FIND_ONLY) s;
       s \<leftarrow> (if ld16 (t_ps s) (hdr + 6) = lwip_htons ARP_REQUEST then
               if for_us then do {
                 let shwaddr = rd (ps_bytes (t_ps s)) (hdr + 8) 6;
                 (s, _) \<leftarrow> etharp_raw cfree lo netif (hwaddr netif s) shwaddr (hwaddr netif s) (ip_addr netif s) shwaddr sipaddr ARP_REPLY s;
                 Some s
               } else Some s
             else if ld16 (t_ps s) (hdr + 6) = lwip_htons ARP_REPLY then dhcp_arp_reply netif sipaddr s
             else Some (arp_count (\<lambda>c. c\<lparr>st_err := STATS_INC (st_err c)\<rparr>) s));
       (st, _) \<leftarrow> pbuf_free cfree (Some p) (t_ps s);
       Some (s\<lparr>t_ps := st\<rparr>)
     }
   }"

section \<open>Packets out\<close>

definition rerequest ::
  "custom_free \<Rightarrow> 'x etharp_scheme linkoutput_fn \<Rightarrow> nat \<Rightarrow> nat \<Rightarrow> 'x etharp_scheme \<Rightarrow> 'x etharp_scheme option" where
  "rerequest cfree lo netif arp_idx s = do {
     e \<leftarrow> nth_opt (arp_table s) arp_idx;
     if ae_state e = ETHARP_STATE_STABLE then
       if ARP_AGE_REREQUEST_USED_BROADCAST \<le> ae_ctime e then do {
         (s, err) \<leftarrow> etharp_request cfree lo netif (ae_ipaddr e) s;
         Some (if err = ERR_OK then set_entry arp_idx (\<lambda>e. e\<lparr>ae_state := ETHARP_STATE_STABLE_REREQUESTING_1\<rparr>) s else s)
       } else if ARP_AGE_REREQUEST_USED_UNICAST \<le> ae_ctime e then do {
         (s, err) \<leftarrow> etharp_request_dst cfree lo netif (ae_ipaddr e) (ae_ethaddr e) s;
         Some (if err = ERR_OK then set_entry arp_idx (\<lambda>e. e\<lparr>ae_state := ETHARP_STATE_STABLE_REREQUESTING_1\<rparr>) s else s)
       } else Some s
     else Some s
   }"

definition etharp_output_to_arp_index ::
  "custom_free \<Rightarrow> 'x etharp_scheme linkoutput_fn \<Rightarrow> nat \<Rightarrow> nat \<Rightarrow> nat \<Rightarrow> 'x etharp_scheme \<Rightarrow> ('x etharp_scheme \<times> err_t) option" where
  "etharp_output_to_arp_index cfree lo netif q arp_idx s = do {
     s \<leftarrow> rerequest cfree lo netif arp_idx s;
     e \<leftarrow> nth_opt (arp_table s) arp_idx;
     ethernet_output lo netif q (hwaddr netif s) (ae_ethaddr e) ETHTYPE_IP s
   }"

text \<open>The first pbuf of a packet that is not \<open>PBUF_ROM\<close>.\<close>

partial_function (option) first_not_rom :: "nat option \<Rightarrow> pstate \<Rightarrow> nat option option" where
  "first_not_rom p st =
     (case p of
        None \<Rightarrow> Some None
      | Some a \<Rightarrow> do { b \<leftarrow> deref st a; if pb_type b \<noteq> PBUF_ROM then Some (Some a) else first_not_rom (pb_next b) st })"

definition copy_to_queue :: "custom_free \<Rightarrow> nat \<Rightarrow> pstate \<Rightarrow> (pstate \<times> nat option) option" where
  "copy_to_queue cfree q st = do {
     r \<leftarrow> first_not_rom (Some q) st;
     case r of
       Some p \<Rightarrow> do {
         b \<leftarrow> deref st p;
         (st, p) \<leftarrow> pbuf_alloc cfree PBUF_LINK (pb_tot_len b) PBUF_RAM st;
         case p of
           None \<Rightarrow> Some (st, None)
         | Some a \<Rightarrow> do {
             (st, err) \<leftarrow> pbuf_copy (Some a) (Some q) st;
             if err \<noteq> ERR_OK then do { (st, _) \<leftarrow> pbuf_free cfree (Some a) st; Some (st, None) }
             else Some (st, Some a)
           }
       }
     | None \<Rightarrow> do { st \<leftarrow> pbuf_ref (Some q) st; Some (st, Some q) }
   }"

definition queue_packet ::
  "custom_free \<Rightarrow> nat \<Rightarrow> nat \<Rightarrow> 'x etharp_scheme \<Rightarrow> ('x etharp_scheme \<times> err_t) option" where
  "queue_packet cfree i q s = do {
     (st, p) \<leftarrow> copy_to_queue cfree q (t_ps s);
     let s = s\<lparr>t_ps := st\<rparr>;
     case p of
       Some p \<Rightarrow> do {
         e \<leftarrow> nth_opt (arp_table s) i;
         s \<leftarrow> (case ae_q e of None \<Rightarrow> Some s | Some old \<Rightarrow> do { (st, _) \<leftarrow> pbuf_free cfree (Some old) (t_ps s); Some (s\<lparr>t_ps := st\<rparr>) });
         Some (set_entry i (\<lambda>e. e\<lparr>ae_q := Some p\<rparr>) s, ERR_OK)
       }
     | None \<Rightarrow> Some (arp_count (\<lambda>c. c\<lparr>st_memerr := STATS_INC (st_memerr c)\<rparr>) s, ERR_MEM)
   }"

definition query_deliver ::
  "custom_free \<Rightarrow> 'x etharp_scheme linkoutput_fn \<Rightarrow> nat \<Rightarrow> nat \<Rightarrow> nat \<Rightarrow> err_t \<Rightarrow> 'x etharp_scheme \<Rightarrow> ('x etharp_scheme \<times> err_t) option" where
  "query_deliver cfree lo netif i q result s = do {
     e \<leftarrow> nth_opt (arp_table s) i;
     if ETHARP_STATE_STABLE \<le> ae_state e then
       ethernet_output lo netif q (hwaddr netif s) (ae_ethaddr e) ETHTYPE_IP (s\<lparr>etharp_cached_entry := i\<rparr>)
     else if ae_state e = ETHARP_STATE_PENDING then queue_packet cfree i q s
     else Some (s, result)
   }"

definition etharp_query ::
  "custom_free \<Rightarrow> 'x etharp_scheme linkoutput_fn \<Rightarrow> nat \<Rightarrow> u32 \<Rightarrow> nat option \<Rightarrow> 'x etharp_scheme \<Rightarrow> ('x etharp_scheme \<times> err_t) option" where
  "etharp_query cfree lo netif ipaddr q s =
     (if ip4_addr_isbroadcast_u32 ipaddr (nf_store (t_ifs s) netif) \<or> ip4_addr_ismulticast ipaddr \<or> ip4_addr_isany ipaddr then Some (s, ERR_ARG)
      else do {
        (s, r) \<leftarrow> etharp_find_entry cfree (Some ipaddr) ETHARP_FLAG_TRY_HARD s;
        case r of
          Inl err \<Rightarrow> Some (if q \<noteq> None then arp_count (\<lambda>c. c\<lparr>st_memerr := STATS_INC (st_memerr c)\<rparr>) s else s, err)
        | Inr i \<Rightarrow> do {
            e \<leftarrow> nth_opt (arp_table s) i;
            let is_new_entry = (ae_state e = ETHARP_STATE_EMPTY);
            let s = (if is_new_entry then set_entry i (\<lambda>e. e\<lparr>ae_state := ETHARP_STATE_PENDING, ae_netif := Some netif\<rparr>) s else s);
            (s, result) \<leftarrow> (if is_new_entry \<or> q = None then etharp_request cfree lo netif ipaddr s else Some (s, ERR_MEM));
            case q of None \<Rightarrow> Some (s, result) | Some p \<Rightarrow> query_deliver cfree lo netif i p result s
          }
      })"

fun stable_index :: "u32 \<Rightarrow> nat \<Rightarrow> etharp_entry list \<Rightarrow> nat option" where
  "stable_index a i [] = None"
| "stable_index a i (e # es) = (if ETHARP_STATE_STABLE \<le> ae_state e \<and> a = ae_ipaddr e then Some i else stable_index a (i + 1) es)"

definition etharp_output ::
  "custom_free \<Rightarrow> 'x etharp_scheme linkoutput_fn \<Rightarrow> nat \<Rightarrow> nat \<Rightarrow> u32 \<Rightarrow> 'x etharp_scheme \<Rightarrow> ('x etharp_scheme \<times> err_t) option" where
  "etharp_output cfree lo netif q ipaddr s =
     (let n = nf_store (t_ifs s) netif in
      if ip4_addr_isbroadcast_u32 ipaddr n then ethernet_output lo netif q (nf_hwaddr n) ethbroadcast ETHTYPE_IP s
      else if ip4_addr_ismulticast ipaddr then
        ethernet_output lo netif q (nf_hwaddr n) [0x01, 0x00, 0x5e, octet 1 ipaddr AND 0x7f, octet 2 ipaddr, octet 3 ipaddr] ETHTYPE_IP s
      else if \<not> ip4_addr_netcmp ipaddr (nf_ip_addr n) (nf_netmask n) \<and> \<not> ip4_addr_islinklocal ipaddr \<and> ip4_addr_isany (nf_gw n) then Some (s, ERR_RTE)
      else do {
        let dst_addr = (if \<not> ip4_addr_netcmp ipaddr (nf_ip_addr n) (nf_netmask n) \<and> \<not> ip4_addr_islinklocal ipaddr then nf_gw n else ipaddr);
        e \<leftarrow> nth_opt (arp_table s) (etharp_cached_entry s);
        if ETHARP_STATE_STABLE \<le> ae_state e \<and> dst_addr = ae_ipaddr e then
          etharp_output_to_arp_index cfree lo netif q (etharp_cached_entry s) (arp_count (\<lambda>c. c\<lparr>st_cachehit := STATS_INC (st_cachehit c)\<rparr>) s)
        else
          case stable_index dst_addr 0 (arp_table s) of
            Some i \<Rightarrow> etharp_output_to_arp_index cfree lo netif q i (s\<lparr>etharp_cached_entry := i\<rparr>)
          | None \<Rightarrow> etharp_query cfree lo netif dst_addr (Some q) s
      })"

end
