(* ===== verification/Etharp_Table.thy ===== *)
theory Etharp_Table
  imports Etharp
begin

text \<open>
  What the operations of \<open>Etharp\<close> do: the table stands for a map from addresses to what is known of them, every operation
  changes that map in the way RFC 826 describes, and the frames that go out are given byte by byte.  The locale \<open>arp_link\<close> holds
  the results over any link that keeps the contract \<open>link_output\<close>; the driver is one.
\<close>

section \<open>The table as a map\<close>

text \<open>What the table knows of an address: the packet waiting for it, if any, or its hardware address.\<close>

datatype arp_status = Waiting "u8 list option" | Known "u8 list"

definition used :: "etharp_entry \<Rightarrow> bool" where
  "used e \<longleftrightarrow> ae_state e \<noteq> ETHARP_STATE_EMPTY"

definition resolved :: "etharp_entry \<Rightarrow> bool" where
  "resolved e \<longleftrightarrow> ETHARP_STATE_STABLE \<le> ae_state e"

definition pending :: "etharp_entry \<Rightarrow> bool" where
  "pending e \<longleftrightarrow> ae_state e = ETHARP_STATE_PENDING"

definition status :: "(nat \<Rightarrow> pkt option) \<Rightarrow> etharp_entry \<Rightarrow> arp_status" where
  "status M e = (if pending e then Waiting (map_option (\<lambda>p. pk_data (the (M p))) (ae_q e)) else Known (ae_ethaddr e))"

definition ether_if :: "netifs \<Rightarrow> nat \<Rightarrow> bool" where
  "ether_if ifs n \<longleftrightarrow> length (nf_hwaddr (nf_store ifs n)) = 6"

definition sendable :: "pkt \<Rightarrow> bool" where
  "sendable k \<longleftrightarrow> 16 \<le> pk_room k \<and> length (pk_data k) \<le> 1520"

definition entry_ok :: "netifs \<Rightarrow> (nat \<Rightarrow> pkt option) \<Rightarrow> etharp_entry \<Rightarrow> bool" where
  "entry_ok ifs M e \<longleftrightarrow> (\<forall>p. ae_q e = Some p \<longrightarrow> pending e \<and> (\<exists>k. M p = Some k \<and> sendable k)) \<and>
     (used e \<longrightarrow> ae_ctime e < 300 \<and> (\<exists>n. ae_netif e = Some n \<and> ether_if ifs n)) \<and> (resolved e \<longrightarrow> length (ae_ethaddr e) = 6)"

definition tbl_rep :: "netifs \<Rightarrow> etharp_entry list \<Rightarrow> (nat \<Rightarrow> pkt option) \<Rightarrow> (u32 \<Rightarrow> arp_status option) \<Rightarrow> bool" where
  "tbl_rep ifs tbl M T \<longleftrightarrow> length tbl = 10 \<and> (\<forall>i<10. entry_ok ifs M (tbl ! i)) \<and>
     (\<forall>i<10. \<forall>j<10. used (tbl ! i) \<and> used (tbl ! j) \<and> ae_ipaddr (tbl ! i) = ae_ipaddr (tbl ! j) \<longrightarrow> i = j) \<and>
     (\<forall>i<10. \<forall>j<10. \<forall>p. ae_q (tbl ! i) = Some p \<and> ae_q (tbl ! j) = Some p \<longrightarrow> i = j) \<and>
     (\<forall>a x. T a = Some x \<longleftrightarrow> (\<exists>i<10. used (tbl ! i) \<and> ae_ipaddr (tbl ! i) = a \<and> x = status M (tbl ! i)))"

definition queued :: "etharp_entry list \<Rightarrow> nat set" where
  "queued tbl = {p. \<exists>i<10. ae_q (tbl ! i) = Some p}"

lemma state_cases: "used e \<longleftrightarrow> pending e \<or> resolved e" "\<not> (pending e \<and> resolved e)"
  by (cases "ae_state e"; simp add: used_def pending_def resolved_def less_eq_etharp_state_def)+

lemma tbl_repD:
  assumes "tbl_rep ifs tbl M T"
  shows "length tbl = 10" "\<And>i. i < 10 \<Longrightarrow> entry_ok ifs M (tbl ! i)"
    "\<And>i j. i < 10 \<Longrightarrow> j < 10 \<Longrightarrow> used (tbl ! i) \<Longrightarrow> used (tbl ! j) \<Longrightarrow> ae_ipaddr (tbl ! i) = ae_ipaddr (tbl ! j) \<Longrightarrow> i = j"
    "\<And>i j p. i < 10 \<Longrightarrow> j < 10 \<Longrightarrow> ae_q (tbl ! i) = Some p \<Longrightarrow> ae_q (tbl ! j) = Some p \<Longrightarrow> i = j"
    "\<And>a x. T a = Some x \<longleftrightarrow> (\<exists>i<10. used (tbl ! i) \<and> ae_ipaddr (tbl ! i) = a \<and> x = status M (tbl ! i))"
  using assms unfolding tbl_rep_def by blast+

lemma tbl_rep_at: "tbl_rep ifs tbl M T \<Longrightarrow> i < 10 \<Longrightarrow> used (tbl ! i) \<Longrightarrow> T (ae_ipaddr (tbl ! i)) = Some (status M (tbl ! i))"
  using tbl_repD(5) by blast

lemma tbl_rep_none: "tbl_rep ifs tbl M T \<Longrightarrow> T a = None \<longleftrightarrow> (\<forall>i<10. used (tbl ! i) \<longrightarrow> ae_ipaddr (tbl ! i) \<noteq> a)"
  using tbl_repD(5) [of ifs tbl M T a] by (metis not_Some_eq)

text \<open>Changing one entry.\<close>

definition retire :: "etharp_entry \<Rightarrow> (u32 \<Rightarrow> arp_status option) \<Rightarrow> u32 \<Rightarrow> arp_status option" where
  "retire e T = (if used e then T(ae_ipaddr e := None) else T)"

definition enter :: "(nat \<Rightarrow> pkt option) \<Rightarrow> etharp_entry \<Rightarrow> (u32 \<Rightarrow> arp_status option) \<Rightarrow> u32 \<Rightarrow> arp_status option" where
  "enter M e T = (if used e then T(ae_ipaddr e \<mapsto> status M e) else T)"

lemma status_same: "(\<And>p. ae_q e = Some p \<Longrightarrow> M' p = M p) \<Longrightarrow> status M' e = status M e"
  by (cases "ae_q e") (auto simp: status_def)

lemma entry_ok_same: "entry_ok ifs M e \<Longrightarrow> (\<And>p. ae_q e = Some p \<Longrightarrow> M' p = M p) \<Longrightarrow> entry_ok ifs M' e"
  by (auto simp: entry_ok_def)

lemma retire_at:
  assumes "tbl_rep ifs tbl M T" and "i < 10"
  shows "retire (tbl ! i) T a = Some x \<longleftrightarrow> (\<exists>j<10. j \<noteq> i \<and> used (tbl ! j) \<and> ae_ipaddr (tbl ! j) = a \<and> x = status M (tbl ! j))"
  using assms tbl_repD(5) [OF assms(1), of a x] tbl_repD(3) [OF assms(1)] by (auto simp: retire_def)

lemma tbl_rep_set:
  assumes r: "tbl_rep ifs tbl M T" and i: "i < 10" and e: "entry_ok ifs M' e" and u: "used e \<Longrightarrow> retire (tbl ! i) T (ae_ipaddr e) = None"
    and o: "\<And>j p. j < 10 \<Longrightarrow> j \<noteq> i \<Longrightarrow> ae_q (tbl ! j) = Some p \<Longrightarrow> M' p = M p \<and> ae_q e \<noteq> Some p"
  shows "tbl_rep ifs (tbl[i := e]) M' (enter M' e (retire (tbl ! i) T))"
proof -
  note d = tbl_repD [OF r]
  have nth: "tbl[i := e] ! j = (if j = i then e else tbl ! j)" if "j < 10" for j using that d(1) i by (simp add: nth_list_update)
  have ip: "ae_ipaddr (tbl ! j) \<noteq> ae_ipaddr e" if "used e" "j < 10" "j \<noteq> i" "used (tbl ! j)" for j
    using retire_at [OF r i, of "ae_ipaddr e"] u that by (metis option.distinct(1))
  have st: "status M' (tbl ! j) = status M (tbl ! j)" if "j < 10" "j \<noteq> i" for j using o [OF that] by (intro status_same) blast
  have "enter M' e (retire (tbl ! i) T) a = Some x \<longleftrightarrow>
      (\<exists>j<10. used (tbl[i := e] ! j) \<and> ae_ipaddr (tbl[i := e] ! j) = a \<and> x = status M' (tbl[i := e] ! j))" for a x
  proof (cases "used e \<and> ae_ipaddr e = a")
    case True
    then have "(\<exists>j<10. used (tbl[i := e] ! j) \<and> ae_ipaddr (tbl[i := e] ! j) = a \<and> x = status M' (tbl[i := e] ! j)) \<longleftrightarrow> x = status M' e"
      using nth ip i by metis
    then show ?thesis using True by (auto simp: enter_def)
  next
    case False
    then have "enter M' e (retire (tbl ! i) T) a = retire (tbl ! i) T a" by (auto simp: enter_def)
    moreover have "(\<exists>j<10. used (tbl[i := e] ! j) \<and> ae_ipaddr (tbl[i := e] ! j) = a \<and> x = status M' (tbl[i := e] ! j)) \<longleftrightarrow>
        (\<exists>j<10. j \<noteq> i \<and> used (tbl ! j) \<and> ae_ipaddr (tbl ! j) = a \<and> x = status M (tbl ! j))"
      using False nth st by metis
    ultimately show ?thesis using retire_at [OF r i] by simp
  qed
  moreover have "entry_ok ifs M' (tbl[i := e] ! j)" if "j < 10" for j
    using e nth [OF that] entry_ok_same [OF d(2) [OF that]] o [OF that] by auto
  moreover have "j = l" if "j < 10" "l < 10" "used (tbl[i := e] ! j)" "used (tbl[i := e] ! l)"
      "ae_ipaddr (tbl[i := e] ! j) = ae_ipaddr (tbl[i := e] ! l)" for j l
    using that nth ip d(3) by metis
  moreover have "j = l" if "j < 10" "l < 10" "ae_q (tbl[i := e] ! j) = Some p" "ae_q (tbl[i := e] ! l) = Some p" for j l p
    using that nth o d(4) by metis
  ultimately show ?thesis using d(1) unfolding tbl_rep_def by simp
qed

lemma queued_set:
  assumes "tbl_rep ifs tbl M T" and "i < 10"
  shows "queued (tbl[i := e]) = (queued tbl - set_option (ae_q (tbl ! i))) \<union> set_option (ae_q e)"
proof -
  have nth: "tbl[i := e] ! j = (if j = i then e else tbl ! j)" if "j < 10" for j using that tbl_repD(1) [OF assms(1)] assms(2) by (simp add: nth_list_update)
  have "p \<in> queued (tbl[i := e]) \<longleftrightarrow> p \<in> (queued tbl - set_option (ae_q (tbl ! i))) \<union> set_option (ae_q e)" for p
  proof -
    have "(\<exists>j<10. ae_q (tbl[i := e] ! j) = Some p) \<longleftrightarrow> (\<exists>j<10. j \<noteq> i \<and> ae_q (tbl ! j) = Some p) \<or> ae_q e = Some p"
      using nth assms(2) by metis
    moreover have "(\<exists>j<10. j \<noteq> i \<and> ae_q (tbl ! j) = Some p) \<longleftrightarrow> (\<exists>j<10. ae_q (tbl ! j) = Some p) \<and> ae_q (tbl ! i) \<noteq> Some p"
      using tbl_repD(4) [OF assms(1)] assms(2) by metis
    ultimately show ?thesis by (simp add: queued_def elem_set)
  qed
  then show ?thesis by blast
qed

section \<open>States of the ARP layer\<close>

definition arp_in :: "'x etharp_scheme \<Rightarrow> (nat \<Rightarrow> pkt option) \<Rightarrow> (u32 \<Rightarrow> arp_status option) \<Rightarrow> bool" where
  "arp_in s M T \<longleftrightarrow> pkts (t_ps s) M \<and> tbl_rep (t_ifs s) (arp_table s) M T \<and> etharp_cached_entry s < 10"

text \<open>\<open>arp_rep s U T\<close>: the table stands for \<open>T\<close>, and \<open>U\<close> are the packets other than those queued in the table.\<close>

definition arp_rep :: "'x etharp_scheme \<Rightarrow> (nat \<Rightarrow> pkt option) \<Rightarrow> (u32 \<Rightarrow> arp_status option) \<Rightarrow> bool" where
  "arp_rep s U T \<longleftrightarrow> (\<exists>M. arp_in s M T \<and> U = M |` (- queued (arp_table s)))"

text \<open>What the ARP layer leaves alone.\<close>

definition arp_only :: "'x etharp_scheme \<Rightarrow> 'x etharp_scheme \<Rightarrow> bool" where
  "arp_only s s' \<longleftrightarrow> t_ifs s' = t_ifs s \<and> same_rx s s' \<and> etharp.more s' = etharp.more s"

lemma arp_only_trans: "arp_only s s' \<Longrightarrow> arp_only s' s'' \<Longrightarrow> arp_only s s''"
  by (simp add: arp_only_def same_rx_def)

lemma arp_only_refl [simp]: "arp_only s s"
  by (simp add: arp_only_def same_rx_def)

lemma etharp_more: "t41.more s' = t41.more s \<Longrightarrow> etharp.more s' = etharp.more s" "t41.more s' = t41.more s \<Longrightarrow> arp_table s' = arp_table s"
  "t41.more s' = t41.more s \<Longrightarrow> etharp_cached_entry s' = etharp_cached_entry s"
  for s s' :: "'x etharp_scheme"
  by (cases s; cases s'; simp)+

lemma out_arp_only: "out_only s s' \<Longrightarrow> arp_only s s'" for s s' :: "'x etharp_scheme"
  using out_only_fields [of s s'] etharp_more(1) [of s' s] by (simp add: arp_only_def)

text \<open>\<open>quiet s s'\<close>: nothing was sent.\<close>

definition quiet :: "'x etharp_scheme \<Rightarrow> 'x etharp_scheme \<Rightarrow> bool" where
  "quiet s s' \<longleftrightarrow> (\<exists>st tb c h. s' = s\<lparr>t_ps := st, arp_table := tb, etharp_stats := c, etharp_cached_entry := h\<rparr>)"

lemma quietD: "quiet s s' \<Longrightarrow> same_tx s s'" "quiet s s' \<Longrightarrow> arp_only s s'" "quiet s s' \<Longrightarrow> t_ifs s' = t_ifs s"
  by (auto simp: quiet_def same_tx_def arp_only_def same_rx_def)

lemma quiet_refl [simp]: "quiet s s"
  unfolding quiet_def by (intro exI [of _ "t_ps s"] exI [of _ "arp_table s"] exI [of _ "etharp_stats s"] exI [of _ "etharp_cached_entry s"]) simp

lemma quiet_trans: "quiet s s' \<Longrightarrow> quiet s' s'' \<Longrightarrow> quiet s s''"
proof -
  assume "quiet s s'" and "quiet s' s''"
  then obtain st tb c h st' tb' c' h' where
    "s' = s\<lparr>t_ps := st, arp_table := tb, etharp_stats := c, etharp_cached_entry := h\<rparr>"
    "s'' = s'\<lparr>t_ps := st', arp_table := tb', etharp_stats := c', etharp_cached_entry := h'\<rparr>" unfolding quiet_def by blast
  then have "s'' = s\<lparr>t_ps := st', arp_table := tb', etharp_stats := c', etharp_cached_entry := h'\<rparr>" by simp
  then show ?thesis unfolding quiet_def by blast
qed

lemma quiet_ops [simp]: "quiet s (set_entry i f s)" "quiet s (s\<lparr>t_ps := st\<rparr>)" "quiet s (arp_count g s)" "quiet s (s\<lparr>etharp_cached_entry := h\<rparr>)"
proof -
  have "set_entry i f s = s\<lparr>t_ps := t_ps s, arp_table := (arp_table s)[i := f (arp_table s ! i)], etharp_stats := etharp_stats s, etharp_cached_entry := etharp_cached_entry s\<rparr>"
    "s\<lparr>t_ps := st\<rparr> = s\<lparr>t_ps := st, arp_table := arp_table s, etharp_stats := etharp_stats s, etharp_cached_entry := etharp_cached_entry s\<rparr>"
    "arp_count g s = s\<lparr>t_ps := t_ps s, arp_table := arp_table s, etharp_stats := g (etharp_stats s), etharp_cached_entry := etharp_cached_entry s\<rparr>"
    "s\<lparr>etharp_cached_entry := h\<rparr> = s\<lparr>t_ps := t_ps s, arp_table := arp_table s, etharp_stats := etharp_stats s, etharp_cached_entry := h\<rparr>"
    by (simp_all add: set_entry_def arp_count_def)
  then show "quiet s (set_entry i f s)" "quiet s (s\<lparr>t_ps := st\<rparr>)" "quiet s (arp_count g s)" "quiet s (s\<lparr>etharp_cached_entry := h\<rparr>)"
    unfolding quiet_def by blast+
qed

lemma arp_inD:
  assumes "arp_in s M T"
  shows "pkts (t_ps s) M" "tbl_rep (t_ifs s) (arp_table s) M T" "etharp_cached_entry s < 10" "length (arp_table s) = 10"
  using assms tbl_repD(1) by (auto simp: arp_in_def)

lemma arp_count_in [simp]: "arp_in (arp_count f s) M T = arp_in s M T" "arp_rep (arp_count f s) U T = arp_rep s U T"
  by (simp_all add: arp_in_def arp_rep_def arp_count_def)

lemma arp_count_fields [simp]: "t_ps (arp_count f s) = t_ps s" "t_ifs (arp_count f s) = t_ifs s"
  "arp_table (arp_count f (s :: 'x etharp_scheme)) = arp_table s" "etharp_cached_entry (arp_count f s) = etharp_cached_entry s"
  by (simp_all add: arp_count_def)

lemma set_entry_fields [simp]: "t_ps (set_entry i f s) = t_ps s" "t_ifs (set_entry i f s) = t_ifs s"
  "arp_table (set_entry i f s) = (arp_table s)[i := f (arp_table s ! i)]" "etharp_cached_entry (set_entry i f s) = etharp_cached_entry s"
  by (simp_all add: set_entry_def)

lemma nth_opt_10: "arp_in s M T \<Longrightarrow> i < 10 \<Longrightarrow> nth_opt (arp_table s) i = Some (arp_table s ! i)"
  using arp_inD(4) [of s M T] by (simp add: nth_opt_def)

subsection \<open>Freeing an entry\<close>

definition vacated :: "etharp_entry \<Rightarrow> etharp_entry" where
  "vacated e = e\<lparr>ae_q := None, ae_state := ETHARP_STATE_EMPTY\<rparr>"

lemma vacated_simps [simp]: "\<not> used (vacated e)" "ae_q (vacated e) = None" "entry_ok ifs M (vacated e)"
  by (simp_all add: vacated_def used_def entry_ok_def resolved_def less_eq_etharp_state_def)

lemma free_entry_spec:
  assumes "arp_in s M T" and "i < 10"
  shows "\<exists>s'. etharp_free_entry cfree i s = Some s' \<and> arp_in s' (M |` (- set_option (ae_q (arp_table s ! i)))) (retire (arp_table s ! i) T) \<and>
    arp_table s' = (arp_table s)[i := vacated (arp_table s ! i)] \<and> quiet s s'"
proof -
  note d = arp_inD [OF assms(1)]
  let ?e = "arp_table s ! i" and ?M = "M |` (- set_option (ae_q (arp_table s ! i)))"
  have t: "tbl_rep (t_ifs s) ((arp_table s)[i := vacated ?e]) ?M (retire ?e T)"
  proof -
    have "?M p = M p" if "j < 10" "j \<noteq> i" "ae_q (arp_table s ! j) = Some p" for j p
      using tbl_repD(4) [OF d(2) that(1) assms(2) that(3)] that(2) by (auto simp: restrict_map_def)
    then show ?thesis using tbl_rep_set [OF d(2) assms(2), of ?M "vacated ?e"] by (simp add: enter_def)
  qed
  show ?thesis
  proof (cases "ae_q ?e")
    case None
    then have v: "vacated ?e = ?e\<lparr>ae_state := ETHARP_STATE_EMPTY\<rparr>" by (cases ?e) (simp add: vacated_def)
    have "etharp_free_entry cfree i s = Some (set_entry i vacated s)"
      using None by (simp add: etharp_free_entry_def nth_opt_10 [OF assms] set_entry_def v)
    moreover have "?M = M" using None by (simp add: restrict_map_def)
    ultimately show ?thesis using t d by (simp add: arp_in_def)
  next
    case (Some q)
    obtain k where k: "M q = Some k" using tbl_repD(2) [OF d(2) assms(2)] Some by (auto simp: entry_ok_def)
    obtain st c where f: "pbuf_free cfree (Some q) (t_ps s) = Some (st, c)" "pkts st (M(q := None))" using pkts_free [OF d(1) k] by blast
    have "?M = M(q := None)" using Some by (auto simp: fun_eq_iff restrict_map_def)
    moreover have "etharp_free_entry cfree i s = Some (set_entry i vacated (s\<lparr>t_ps := st\<rparr>))"
      using Some d(4) assms(2) f(1) by (simp add: etharp_free_entry_def nth_opt_10 [OF assms] set_entry_def vacated_def)
    moreover have "quiet s (set_entry i vacated (s\<lparr>t_ps := st\<rparr>))" using quiet_trans [OF quiet_ops(2) quiet_ops(1)] .
    ultimately show ?thesis using t d(3) f(2) by (simp add: arp_in_def)
  qed
qed

subsection \<open>The sweep\<close>

definition oldest :: "(etharp_entry \<Rightarrow> bool) \<Rightarrow> etharp_entry list \<Rightarrow> nat \<Rightarrow> bool" where
  "oldest P tbl i \<longleftrightarrow> i < length tbl \<and> P (tbl ! i) \<and> (\<forall>e. e \<in> set tbl \<longrightarrow> P e \<longrightarrow> ae_ctime e \<le> ae_ctime (tbl ! i))"

definition waits :: "etharp_entry \<Rightarrow> bool" where
  "waits e \<longleftrightarrow> pending e \<and> ae_q e \<noteq> None"

definition idles :: "etharp_entry \<Rightarrow> bool" where
  "idles e \<longleftrightarrow> pending e \<and> ae_q e = None"

definition candidate :: "(etharp_entry \<Rightarrow> bool) \<Rightarrow> etharp_entry list \<Rightarrow> nat \<Rightarrow> nat \<Rightarrow> bool" where
  "candidate P xs i age \<longleftrightarrow> (if i = 10 then age = 0 \<and> (\<forall>e. e \<in> set xs \<longrightarrow> \<not> P e) else oldest P xs i \<and> age = ae_ctime (xs ! i))"

definition first_empty :: "etharp_entry list \<Rightarrow> nat \<Rightarrow> bool" where
  "first_empty xs i \<longleftrightarrow> (if i = 10 then (\<forall>e. e \<in> set xs \<longrightarrow> used e) else i < length xs \<and> \<not> used (xs ! i) \<and> (\<forall>j<i. used (xs ! j)))"

definition swept :: "etharp_entry list \<Rightarrow> candidates \<Rightarrow> bool" where
  "swept xs c \<longleftrightarrow> first_empty xs (c_empty c) \<and> candidate resolved xs (c_stable c) (c_age_stable c) \<and>
     candidate idles xs (c_pending c) (c_age_pending c) \<and> candidate waits xs (c_queue c) (c_age_queue c)"

lemma candidate_new:
  "length xs < 10 \<Longrightarrow> candidate P xs i age \<Longrightarrow> P e \<Longrightarrow> age \<le> ae_ctime e \<Longrightarrow> candidate P (xs @ [e]) (length xs) (ae_ctime e)"
  by (auto simp: candidate_def oldest_def nth_append split: if_splits)

lemma candidate_old:
  "candidate P xs i age \<Longrightarrow> P e \<longrightarrow> \<not> age \<le> ae_ctime e \<Longrightarrow> candidate P (xs @ [e]) i age"
  by (auto simp: candidate_def oldest_def nth_append split: if_splits)

lemma first_empty_used: "first_empty xs i \<Longrightarrow> used e \<Longrightarrow> first_empty (xs @ [e]) i"
  by (auto simp: first_empty_def nth_append)

lemma swept_remember:
  assumes "swept xs c" and "used e" and "length xs < 10"
  shows "swept (xs @ [e]) (remember (length xs) e c)"
proof -
  note s = assms(1) [unfolded swept_def] and cn = candidate_new [OF assms(3)]
  have f: "first_empty (xs @ [e]) (c_empty c)" using s first_empty_used assms(2) by blast
  consider "resolved e" "\<not> idles e" "\<not> waits e" "ae_state e \<noteq> ETHARP_STATE_PENDING" | "idles e" "\<not> waits e" "\<not> resolved e" | "waits e" "\<not> idles e" "\<not> resolved e"
    using assms(2) state_cases [of e] unfolding idles_def waits_def pending_def by (cases "ae_q e") auto
  then show ?thesis
  proof cases
    case 1
    then show ?thesis using s f cn [of resolved] candidate_old [of resolved xs] candidate_old [of idles xs _ _ e] candidate_old [of waits xs _ _ e]
      by (auto simp: swept_def remember_def resolved_def)
  next
    case 2
    then show ?thesis using s f cn [of idles] candidate_old [of resolved xs _ _ e] candidate_old [of idles xs] candidate_old [of waits xs _ _ e]
      by (auto simp: swept_def remember_def idles_def pending_def)
  next
    case 3
    then show ?thesis using s f cn [of waits] candidate_old [of resolved xs _ _ e] candidate_old [of idles xs _ _ e] candidate_old [of waits xs]
      by (auto simp: swept_def remember_def waits_def pending_def)
  qed
qed

lemma swept_empty:
  assumes "swept xs c" and "\<not> used e" and "length xs < 10"
  shows "swept (xs @ [e]) (if c_empty c = 10 then c\<lparr>c_empty := length xs\<rparr> else c)"
proof -
  have n: "\<not> resolved e" "\<not> idles e" "\<not> waits e" using assms(2) state_cases [of e] by (auto simp: idles_def waits_def)
  have "candidate resolved (xs @ [e]) (c_stable c) (c_age_stable c)" "candidate idles (xs @ [e]) (c_pending c) (c_age_pending c)"
    "candidate waits (xs @ [e]) (c_queue c) (c_age_queue c)"
    using assms(1) n by (auto simp: swept_def intro!: candidate_old)
  moreover have "first_empty (xs @ [e]) (if c_empty c = 10 then length xs else c_empty c)"
    using assms by (auto simp: swept_def first_empty_def nth_append)
  ultimately show ?thesis by (cases "c_empty c = 10") (simp_all add: swept_def)
qed

definition sweep_ok :: "u32 \<Rightarrow> etharp_entry list \<Rightarrow> nat + candidates \<Rightarrow> bool" where
  "sweep_ok a tbl r = (case r of
      Inl i \<Rightarrow> i < length tbl \<and> used (tbl ! i) \<and> ae_ipaddr (tbl ! i) = a
    | Inr c \<Rightarrow> swept tbl c \<and> (\<forall>e. e \<in> set tbl \<longrightarrow> used e \<longrightarrow> ae_ipaddr e \<noteq> a))"

lemma find_sweep_result:
  assumes "swept xs c" and "length (xs @ ys) \<le> 10" and "\<And>e. e \<in> set xs \<Longrightarrow> used e \<Longrightarrow> ae_ipaddr e \<noteq> a"
  shows "sweep_ok a (xs @ ys) (find_sweep (Some a) (length xs) ys c)"
  using assms
proof (induction ys arbitrary: xs c)
  case Nil
  then show ?case by (simp add: sweep_ok_def)
next
  case (Cons e ys)
  have l: "length xs < 10" using Cons.prems(2) by simp
  consider "used e" "ae_ipaddr e = a" | "used e" "ae_ipaddr e \<noteq> a" | "\<not> used e" by blast
  then show ?case
  proof cases
    case 1
    then show ?thesis by (simp add: used_def sweep_ok_def)
  next
    case 2
    have "e' \<in> set (xs @ [e]) \<Longrightarrow> used e' \<Longrightarrow> ae_ipaddr e' \<noteq> a" for e' using Cons.prems(3) 2(2) by auto
    then show ?thesis using Cons.IH [OF swept_remember [OF Cons.prems(1) 2(1) l]] Cons.prems(2) 2 by (auto simp: used_def)
  next
    case 3
    have "e' \<in> set (xs @ [e]) \<Longrightarrow> used e' \<Longrightarrow> ae_ipaddr e' \<noteq> a" for e' using Cons.prems(3) 3 by auto
    then show ?thesis using Cons.IH [OF swept_empty [OF Cons.prems(1) 3 l]] Cons.prems(2) 3
      by (cases "c_empty c = 10") (simp_all add: used_def)
  qed
qed

lemma swept_none: "swept [] no_candidates"
  by (simp add: swept_def no_candidates_def candidate_def first_empty_def)

subsection \<open>Finding or creating an entry\<close>

text \<open>The entry that gives way when the table is full: the oldest resolved one, otherwise the oldest pending one without a packet,
  otherwise the oldest pending one.\<close>

definition has :: "(etharp_entry \<Rightarrow> bool) \<Rightarrow> etharp_entry list \<Rightarrow> bool" where
  "has P tbl \<longleftrightarrow> (\<exists>e. e \<in> set tbl \<and> P e)"

definition victim :: "etharp_entry list \<Rightarrow> nat \<Rightarrow> bool" where
  "victim tbl i \<longleftrightarrow> (\<forall>e. e \<in> set tbl \<longrightarrow> used e) \<and>
     (if has resolved tbl then oldest resolved tbl i
      else if has idles tbl then oldest idles tbl i
      else oldest waits tbl i)"

lemma rest_vacated:
  assumes "arp_in s M T" and "i < 10" and "arp_table s' = (arp_table s)[i := e]" and "ae_q e = None"
  shows "M |` (- set_option (ae_q (arp_table s ! i))) |` (- queued (arp_table s')) = M |` (- queued (arp_table s))"
proof -
  have "queued (arp_table s') = queued (arp_table s) - set_option (ae_q (arp_table s ! i))"
    using queued_set [OF arp_inD(2) [OF assms(1)] assms(2), of e] assms(3,4) by simp
  moreover have "set_option (ae_q (arp_table s ! i)) \<subseteq> queued (arp_table s)" using assms(2) by (auto simp: queued_def)
  ultimately show ?thesis by (auto simp: restrict_map_def fun_eq_iff)
qed

definition taken :: "u32 \<Rightarrow> etharp_entry \<Rightarrow> etharp_entry" where
  "taken a e = e\<lparr>ae_ipaddr := a, ae_ctime := 0\<rparr>"

lemma taken_simps [simp]: "used (taken a e) = used e" "ae_q (taken a e) = ae_q e" "ae_ipaddr (taken a e) = a" "ae_ctime (taken a e) = 0"
  "ae_state (taken a e) = ae_state e"
  by (simp_all add: taken_def used_def)

lemma take_entry_eq: "i < length (arp_table s) \<Longrightarrow> take_entry (Some a) i s = set_entry i (taken a) s"
  by (simp add: take_entry_def set_entry_def taken_def)

lemma empty_entry:
  assumes "entry_ok ifs M e" and "\<not> used e"
  shows "ae_q e = None"
  using assms state_cases(1) [of e] by (cases "ae_q e") (auto simp: entry_ok_def)

lemma take_entry_spec:
  assumes "arp_in s M T" and "i < 10" and "\<not> used (arp_table s ! i)"
  shows "arp_in (take_entry (Some a) i s) M T" and "arp_table (take_entry (Some a) i s) = (arp_table s)[i := taken a (arp_table s ! i)]"
    and "quiet s (take_entry (Some a) i s)"
proof -
  note d = arp_inD [OF assms(1)]
  let ?e = "arp_table s ! i"
  have t: "take_entry (Some a) i s = set_entry i (taken a) s" using take_entry_eq [of i s a] d(4) assms(2) by simp
  have n: "ae_q ?e = None" using empty_entry tbl_repD(2) [OF d(2)] assms(2,3) by blast
  have e: "entry_ok (t_ifs s) M (taken a ?e)" using n assms(3) state_cases(1) [of "taken a ?e"] by (simp add: entry_ok_def)
  show "arp_in (take_entry (Some a) i s) M T"
    using tbl_rep_set [OF d(2) assms(2) e] assms(3) n d t by (simp add: arp_in_def enter_def retire_def)
  show "arp_table (take_entry (Some a) i s) = (arp_table s)[i := taken a ?e]" "quiet s (take_entry (Some a) i s)" using t by simp_all
qed

lemma sweep_of:
  assumes "arp_in s M T"
  shows "sweep_ok a (arp_table s) (find_sweep (Some a) 0 (arp_table s) no_candidates)"
  using find_sweep_result [OF swept_none, of "arp_table s" a] arp_inD(4) [OF assms] by simp

lemma find_entry_found:
  assumes "arp_in s M T" and "i < 10" and "used (arp_table s ! i)" and "ae_ipaddr (arp_table s ! i) = a"
  shows "etharp_find_entry cfree (Some a) flags s = Some (s, Inr i)"
proof -
  have m: "arp_table s ! i \<in> set (arp_table s)" using arp_inD(4) [OF assms(1)] assms(2) by simp
  obtain j where "find_sweep (Some a) 0 (arp_table s) no_candidates = Inl j" "j < 10" "used (arp_table s ! j)" "ae_ipaddr (arp_table s ! j) = a"
    using sweep_of [OF assms(1), of a] m assms(3,4) arp_inD(4) [OF assms(1)] by (auto simp: sweep_ok_def split: sum.splits)
  moreover have "j = i" using tbl_repD(3) [OF arp_inD(2) [OF assms(1)]] calculation assms(2,3,4) by simp
  ultimately show ?thesis by (simp add: etharp_find_entry_def)
qed

lemma sweep_none:
  assumes "arp_in s M T" and "T a = None"
  obtains c where "find_sweep (Some a) 0 (arp_table s) no_candidates = Inr c" "swept (arp_table s) c"
proof (cases "find_sweep (Some a) 0 (arp_table s) no_candidates")
  case (Inl i)
  then show ?thesis using sweep_of [OF assms(1), of a] tbl_rep_none [OF arp_inD(2) [OF assms(1)], of a] assms(2) arp_inD(4) [OF assms(1)]
    by (auto simp: sweep_ok_def)
next
  case (Inr c)
  then show ?thesis using sweep_of [OF assms(1), of a] by (intro that) (auto simp: sweep_ok_def)
qed

lemma find_entry_only:
  assumes "arp_in s M T" and "T a = None"
  shows "etharp_find_entry cfree (Some a) ETHARP_FLAG_FIND_ONLY s = Some (s, Inl ERR_MEM)"
  by (rule sweep_none [OF assms]) (simp add: etharp_find_entry_def ETHARP_FLAG_FIND_ONLY_def)

text \<open>Which entry is taken.\<close>

definition choice :: "candidates \<Rightarrow> nat" where
  "choice c = (if c_empty c < 10 then c_empty c else if c_stable c < 10 then c_stable c else if c_pending c < 10 then c_pending c else c_queue c)"

lemma candidate_at: "candidate P xs i age \<Longrightarrow> length xs = 10 \<Longrightarrow> if i < 10 then oldest P xs i else \<not> has P xs"
  by (auto simp: candidate_def oldest_def has_def split: if_splits)

lemma oldest_has: "oldest P tbl i \<Longrightarrow> has P tbl"
  by (auto simp: oldest_def has_def intro: exI [of _ "tbl ! i"])

lemma choice_spec:
  assumes "swept tbl c" and "length tbl = 10"
  shows "choice c < 10" and "c_empty c < 10 \<Longrightarrow> \<not> used (tbl ! choice c)" and "\<not> c_empty c < 10 \<Longrightarrow> victim tbl (choice c)"
proof -
  note w = assms(1) [unfolded swept_def] and l = assms(2)
  have ca: "if c_stable c < 10 then oldest resolved tbl (c_stable c) else \<not> has resolved tbl"
    "if c_pending c < 10 then oldest idles tbl (c_pending c) else \<not> has idles tbl"
    "if c_queue c < 10 then oldest waits tbl (c_queue c) else \<not> has waits tbl"
    using w candidate_at [OF _ l] by blast+
  show 1: "\<not> used (tbl ! choice c)" if "c_empty c < 10" using w that by (auto simp: first_empty_def choice_def split: if_splits)
  have v: "choice c < 10 \<and> victim tbl (choice c)" if n: "\<not> c_empty c < 10"
  proof -
    have u: "used e" if "e \<in> set tbl" for e using w n l that by (auto simp: first_empty_def split: if_splits)
    have "tbl ! 0 \<in> set tbl" using l by simp
    then have "has resolved tbl \<or> has idles tbl \<or> has waits tbl" using u state_cases(1) by (metis has_def idles_def waits_def)
    then have "c_stable c < 10 \<or> c_pending c < 10 \<or> c_queue c < 10" using ca by meson
    then show ?thesis using ca n u oldest_has [of _ tbl] by (simp add: choice_def victim_def split: if_splits)
  qed
  show "victim tbl (choice c)" if "\<not> c_empty c < 10" using v that by blast
  show "choice c < 10"
  proof (cases "c_empty c < 10")
    case True
    then show ?thesis by (simp add: choice_def)
  next
    case False
    then show ?thesis using v by blast
  qed
qed

lemma vacated_same: "entry_ok ifs M e \<Longrightarrow> \<not> used e \<Longrightarrow> vacated e = e"
  using empty_entry [of ifs M e] by (cases e) (simp add: vacated_def used_def)

lemma flags_and [simp]: "ETHARP_FLAG_TRY_HARD AND ETHARP_FLAG_FIND_ONLY = 0" "ETHARP_FLAG_TRY_HARD \<noteq> 0"
  by (simp_all add: ETHARP_FLAG_TRY_HARD_def ETHARP_FLAG_FIND_ONLY_def)

lemma find_entry_choice:
  assumes "arp_in s M T" and "find_sweep (Some a) 0 (arp_table s) no_candidates = Inr c" and "swept (arp_table s) c"
  shows "etharp_find_entry cfree (Some a) ETHARP_FLAG_TRY_HARD s =
    (if c_empty c < 10 then Some (take_entry (Some a) (choice c) s, Inr (choice c)) else recycle cfree (Some a) (choice c) s)"
  using choice_spec(1) [OF assms(3)] arp_inD(4) [OF assms(1)] assms(2)
  by (simp add: etharp_find_entry_def choice_def split: if_splits)

lemma find_entry_new:
  assumes "arp_in s M T" and "T a = None"
  shows "\<exists>s' i. etharp_find_entry cfree (Some a) ETHARP_FLAG_TRY_HARD s = Some (s', Inr i) \<and> i < 10 \<and>
    (used (arp_table s ! i) \<longrightarrow> victim (arp_table s) i) \<and>
    arp_in s' (M |` (- set_option (ae_q (arp_table s ! i)))) (retire (arp_table s ! i) T) \<and>
    arp_table s' = (arp_table s)[i := taken a (vacated (arp_table s ! i))] \<and> quiet s s'"
proof -
  note d = arp_inD [OF assms(1)]
  obtain c where c: "find_sweep (Some a) 0 (arp_table s) no_candidates = Inr c" "swept (arp_table s) c" by (rule sweep_none [OF assms])
  let ?i = "choice c" and ?e = "arp_table s ! choice c"
  note ch = choice_spec [OF c(2) d(4)] and eq = find_entry_choice [OF assms(1) c]
  show ?thesis
  proof (cases "c_empty c < 10")
    case True
    then have u: "\<not> used ?e" using ch(2) by simp
    have q: "ae_q ?e = None" "vacated ?e = ?e" using empty_entry vacated_same tbl_repD(2) [OF d(2) ch(1)] u by blast+
    have "M |` (- set_option (ae_q ?e)) = M" using q by (simp add: restrict_map_def)
    then show ?thesis using take_entry_spec [OF assms(1) ch(1) u, of a] eq True ch(1) q u
      by (intro exI [of _ "take_entry (Some a) ?i s"] exI [of _ ?i]) (simp add: retire_def)
  next
    case False
    obtain s1 where s1: "etharp_free_entry cfree ?i s = Some s1" "arp_in s1 (M |` (- set_option (ae_q ?e))) (retire ?e T)"
      "arp_table s1 = (arp_table s)[?i := vacated ?e]" "quiet s s1" using free_entry_spec [OF assms(1) ch(1)] by blast
    have n: "arp_table s1 ! ?i = vacated ?e" using s1(3) d(4) ch(1) by simp
    note t = take_entry_spec [OF s1(2) ch(1), of a, unfolded n, OF vacated_simps(1)]
    have "recycle cfree (Some a) ?i s = Some (take_entry (Some a) ?i s1, Inr ?i)" using s1(1) by (simp add: recycle_def)
    then show ?thesis using eq False ch t s1(3) quiet_trans [OF s1(4) t(3)] by (intro exI [of _ "take_entry (Some a) ?i s1"] exI [of _ ?i]) simp
  qed
qed

section \<open>Resolving an address\<close>

text \<open>What learning \<open>ethaddr\<close> for the address of entry \<open>e\<close> sends: the packet that was waiting.\<close>

definition ip_frame :: "u8 list \<Rightarrow> u8 list \<Rightarrow> u8 list \<Rightarrow> u8 list \<Rightarrow> bool" where
  "ip_frame dst src d f \<longleftrightarrow> (\<exists>pad. length pad = 2 \<and> f = eth_header pad dst src ETHTYPE_IP @ d)"

definition waiting_for :: "(u32 \<Rightarrow> arp_status option) \<Rightarrow> u32 \<Rightarrow> u8 list option" where
  "waiting_for T a = (case T a of Some (Waiting d) \<Rightarrow> d | _ \<Rightarrow> None)"

definition resolves :: "u8 list \<Rightarrow> u8 list \<Rightarrow> u8 list option \<Rightarrow> u8 list list \<Rightarrow> bool" where
  "resolves dst src d fs \<longleftrightarrow> (case d of None \<Rightarrow> fs = [] | Some d \<Rightarrow> \<exists>f. fs = [f] \<and> ip_frame dst src d f)"

definition settled :: "nat \<Rightarrow> u8 list \<Rightarrow> etharp_entry \<Rightarrow> etharp_entry" where
  "settled netif ethaddr e = e\<lparr>ae_state := ETHARP_STATE_STABLE, ae_netif := Some netif, ae_ethaddr := ethaddr, ae_ctime := 0\<rparr>"

locale arp_link = link_output linkoutput frames
  for linkoutput :: "'x etharp_scheme linkoutput_fn" and frames
begin

lemma quiet_frames: "frames s w \<Longrightarrow> quiet s s' \<Longrightarrow> frames s' w"
  using frames_same quietD(1) by blast

text \<open>Sending the packet that entry \<open>i\<close> holds.\<close>

lemma send_queued_spec:
  assumes "pkts (t_ps s) M" and "length (arp_table s) = 10" and "etharp_cached_entry s < 10"
    and "frames s w" and "i < 10" and "ae_q (arp_table s ! i) = Some p" and "M p = Some k" and "sendable k"
    and "ether_if (t_ifs s) netif" and "length dst = 6" and "tbl_rep (t_ifs s) ((arp_table s)[i := (arp_table s ! i)\<lparr>ae_q := None\<rparr>]) (M(p := None)) T'"
  shows "\<exists>s' f. send_queued cfree linkoutput netif dst i s = Some s' \<and> arp_in s' (M(p := None)) T' \<and>
    arp_table s' = (arp_table s)[i := (arp_table s ! i)\<lparr>ae_q := None\<rparr>] \<and> frames s' (w @ [f]) \<and>
    ip_frame dst (hwaddr netif s) (pk_data k) f \<and> arp_only s s'"
proof -
  define s1 where "s1 = set_entry i (\<lambda>e. e\<lparr>ae_q := None\<rparr>) s"
  have q: "quiet s s1" by (simp add: s1_def)
  obtain s2 pad where s2: "ethernet_output linkoutput netif p (hwaddr netif s) dst ETHTYPE_IP s1 = Some (s2, ERR_OK)" "length pad = 2"
    "pkts (t_ps s2) (M(p \<mapsto> push (eth_header pad dst (hwaddr netif s) ETHTYPE_IP) k))"
    "frames s2 (w @ [eth_header pad dst (hwaddr netif s) ETHTYPE_IP @ pk_data k])" "out_only s1 s2"
    using ethernet_output_sends [OF quiet_frames [OF assms(4) q], of M p k "hwaddr netif s" dst netif ETHTYPE_IP] assms(1,7-10)
    by (auto simp: s1_def sendable_def ether_if_def)
  obtain st c where f: "pbuf_free cfree (Some p) (t_ps s2) = Some (st, c)" "pkts st (M(p := None))"
    using pkts_free_new [OF s2(3), of cfree] by blast
  define s3 where "s3 = s2\<lparr>t_ps := st\<rparr>"
  have fr: "frames s3 (w @ [eth_header pad dst (hwaddr netif s) ETHTYPE_IP @ pk_data k])" using quiet_frames [OF s2(4)] by (simp add: s3_def)
  have o: "t_ifs s3 = t_ifs s" "arp_table s3 = arp_table s1" "etharp_cached_entry s3 = etharp_cached_entry s"
    using out_only_fields [OF s2(5)] etharp_more(2,3) [OF out_only_fields(2) [OF s2(5)]] by (simp_all add: s3_def s1_def)
  have "send_queued cfree linkoutput netif dst i s = Some s3"
    using s2(1) f(1) assms(2,5,6) by (simp add: send_queued_def nth_opt_def s3_def Let_def s1_def [symmetric]) (simp add: s1_def)
  moreover have "arp_in s3 (M(p := None)) T'" using o assms(11,3) f(2) by (simp add: arp_in_def s1_def s3_def)
  moreover have "arp_only s s3"
    using arp_only_trans [OF quietD(2) [OF q] arp_only_trans [OF out_arp_only [OF s2(5)]], of s3] quietD(2) [OF quiet_ops(2), of s2 st] by (simp add: s3_def)
  ultimately show ?thesis using o fr s2(2) by (auto simp: ip_frame_def s1_def intro!: exI [of _ s3])
qed

end

interpretation t41_arp: arp_link "\<lambda>netif. t41_low_level_output dma_tx" sent
  by unfold_locales

definition unicast :: "netif \<Rightarrow> u32 \<Rightarrow> bool" where
  "unicast n a \<longleftrightarrow> \<not> ip4_addr_isany a \<and> \<not> ip4_addr_isbroadcast_u32 a n \<and> \<not> ip4_addr_ismulticast a"

text \<open>Making room for \<open>a\<close>: nothing is given up unless the table is full and does not hold \<open>a\<close>.\<close>

definition made_room :: "etharp_entry list \<Rightarrow> u32 \<Rightarrow> (u32 \<Rightarrow> arp_status option) \<Rightarrow> (u32 \<Rightarrow> arp_status option) \<Rightarrow> bool" where
  "made_room tbl a T T' \<longleftrightarrow>
     (if a \<in> dom T \<or> has (\<lambda>e. \<not> used e) tbl then T' = T else \<exists>i. victim tbl i \<and> T' = T(ae_ipaddr (tbl ! i) := None))"

definition ready_for :: "u32 \<Rightarrow> (u32 \<Rightarrow> arp_status option) \<Rightarrow> etharp_entry \<Rightarrow> bool" where
  "ready_for a T e \<longleftrightarrow> ae_ipaddr e = a \<and> (if a \<in> dom T then used e else \<not> used e \<and> ae_q e = None \<and> ae_ctime e = 0)"

lemma find_or_make:
  assumes "arp_in s M T" and "a \<in> dom T \<or> flags = ETHARP_FLAG_TRY_HARD"
  shows "\<exists>s' i M' T'. etharp_find_entry cfree (Some a) flags s = Some (s', Inr i) \<and> i < 10 \<and> arp_in s' M' T' \<and>
    made_room (arp_table s) a T T' \<and> T' a = T a \<and> ready_for a T (arp_table s' ! i) \<and>
    M' |` (- queued (arp_table s')) = M |` (- queued (arp_table s)) \<and> quiet s s'"
proof (cases "a \<in> dom T")
  case True
  then obtain i where i: "i < 10" "used (arp_table s ! i)" "ae_ipaddr (arp_table s ! i) = a"
    using tbl_repD(5) [OF arp_inD(2) [OF assms(1)], of a] by auto
  show ?thesis using find_entry_found [OF assms(1) i, of cfree flags] assms(1) True i
    by (intro exI [of _ s] exI [of _ i] exI [of _ M] exI [of _ T]) (simp add: made_room_def ready_for_def)
next
  case False
  note d = arp_inD [OF assms(1)]
  obtain s' i where r: "etharp_find_entry cfree (Some a) ETHARP_FLAG_TRY_HARD s = Some (s', Inr i)" "i < 10"
    "used (arp_table s ! i) \<longrightarrow> victim (arp_table s) i" "arp_in s' (M |` (- set_option (ae_q (arp_table s ! i)))) (retire (arp_table s ! i) T)"
    "arp_table s' = (arp_table s)[i := taken a (vacated (arp_table s ! i))]" "quiet s s'"
    using find_entry_new [OF assms(1), of a cfree] False by (auto simp: domIff)
  have m: "arp_table s ! i \<in> set (arp_table s)" using d(4) r(2) by simp
  have "has (\<lambda>e. \<not> used e) (arp_table s) \<longleftrightarrow> \<not> used (arp_table s ! i)" using r(3) m by (auto simp: has_def victim_def)
  then have "made_room (arp_table s) a T (retire (arp_table s ! i) T)" using False r(3) by (auto simp: made_room_def retire_def)
  moreover have "retire (arp_table s ! i) T a = T a" using False by (auto simp: retire_def)
  moreover have "ready_for a T (arp_table s' ! i)" using r(5) d(4) r(2) False by (simp add: ready_for_def)
  ultimately show ?thesis using r rest_vacated [OF assms(1) r(2,5)] assms(2) False by (intro exI) (auto simp del: fun_upd_apply)
qed

lemma status_settled [simp]: "status M (settled n x e) = Known x" "used (settled n x e)" "ae_ipaddr (settled n x e) = ae_ipaddr e"
  "ae_q (settled n x e) = ae_q e" "status M ((settled n x e)\<lparr>ae_q := q\<rparr>) = Known x" "used ((settled n x e)\<lparr>ae_q := q\<rparr>)"
  by (simp_all add: status_def settled_def used_def pending_def)

lemma settle_rep:
  assumes "tbl_rep ifs tbl M T" and "i < 10" and "ready_for a T (tbl ! i)" and "ether_if ifs netif" and "length x = 6"
    and "M' = M |` (- set_option (ae_q (tbl ! i)))"
  shows "tbl_rep ifs (tbl[i := (settled netif x (tbl ! i))\<lparr>ae_q := None\<rparr>]) M' (T(a \<mapsto> Known x))"
proof -
  let ?e = "(settled netif x (tbl ! i))\<lparr>ae_q := None\<rparr>"
  have 1: "entry_ok ifs M' ?e" using assms(4,5) by (simp add: entry_ok_def settled_def)
  have ip: "ae_ipaddr ?e = a" using assms(3) by (simp add: ready_for_def)
  have 2: "retire (tbl ! i) T (ae_ipaddr ?e) = None" using assms(3) by (auto simp: ready_for_def retire_def domIff split: if_splits)
  have 3: "M' p = M p" if "j < 10" "j \<noteq> i" "ae_q (tbl ! j) = Some p" for j p
    using tbl_repD(4) [OF assms(1) that(1) assms(2) that(3)] that(2) by (auto simp: assms(6) restrict_map_def)
  have "enter M' ?e (retire (tbl ! i) T) = T(a \<mapsto> Known x)"
    using ip assms(3) by (auto simp: enter_def retire_def ready_for_def)
  then show ?thesis using tbl_rep_set [OF assms(1,2) 1 2] 3 by simp
qed

lemma status_in:
  assumes "arp_in s M T" and "i < 10" and "used (arp_table s ! i)" and "ae_ipaddr (arp_table s ! i) = a"
  shows "T a = Some (status M (arp_table s ! i))"
  using tbl_rep_at [OF arp_inD(2) [OF assms(1)] assms(2,3)] assms(4) by simp

lemma waiting_ready:
  assumes "arp_in s M T" and "i < 10" and "ready_for a T (arp_table s ! i)"
  shows "waiting_for T a = map_option (\<lambda>p. pk_data (the (M p))) (ae_q (arp_table s ! i))"
proof (cases "used (arp_table s ! i)")
  case True
  have "ae_q (arp_table s ! i) \<noteq> None \<longrightarrow> pending (arp_table s ! i)" using tbl_repD(2) [OF arp_inD(2) [OF assms(1)] assms(2)] by (auto simp: entry_ok_def)
  then show ?thesis using status_in [OF assms(1,2) True] assms(3)
    by (cases "ae_q (arp_table s ! i)") (auto simp: waiting_for_def status_def ready_for_def)
next
  case False
  then show ?thesis using assms(3) by (auto simp: ready_for_def waiting_for_def domIff split: if_splits)
qed

lemma update_eq:
  assumes "unicast (nf_store (t_ifs s) netif) a" and "etharp_find_entry cfree (Some a) flags s = Some (s1, Inr i)"
  shows "etharp_update_arp_entry cfree lo netif a x flags s =
    do { s' \<leftarrow> send_queued cfree lo netif x i (set_entry i (settled netif x) s1); Some (s', ERR_OK) }"
  using assms by (simp add: etharp_update_arp_entry_def unicast_def settled_def [abs_def])

context arp_link
begin

lemma update_spec:
  assumes "arp_rep s U T" and "frames s w" and "unicast (nf_store (t_ifs s) netif) a" and "a \<in> dom T \<or> flags = ETHARP_FLAG_TRY_HARD"
    and "ether_if (t_ifs s) netif" and "length x = 6"
  shows "\<exists>s' T' fs. etharp_update_arp_entry cfree linkoutput netif a x flags s = Some (s', ERR_OK) \<and> arp_rep s' U (T'(a \<mapsto> Known x)) \<and>
    made_room (arp_table s) a T T' \<and> frames s' (w @ fs) \<and> resolves x (hwaddr netif s) (waiting_for T a) fs \<and> arp_only s s'"
proof -
  obtain M where M: "arp_in s M T" "U = M |` (- queued (arp_table s))" using assms(1) by (auto simp: arp_rep_def)
  obtain s1 i M1 T1 where r: "etharp_find_entry cfree (Some a) flags s = Some (s1, Inr i)" "i < 10" "arp_in s1 M1 T1"
    "made_room (arp_table s) a T T1" "T1 a = T a" "ready_for a T (arp_table s1 ! i)"
    "M1 |` (- queued (arp_table s1)) = U" "quiet s s1"
    using find_or_make [OF M(1) assms(4), of cfree] M(2) by metis
  note d = arp_inD [OF r(3)]
  have rd: "ready_for a T1 (arp_table s1 ! i)" using r(5,6) by (simp add: ready_for_def domIff)
  have ifs: "t_ifs s1 = t_ifs s" using quietD(3) [OF r(8)] .
  let ?e = "arp_table s1 ! i"
  define s2 where "s2 = set_entry i (settled netif x) s1"
  have tb: "arp_table s2 ! i = settled netif x ?e" "arp_table s2 = (arp_table s1)[i := settled netif x ?e]" using d(4) r(2) by (simp_all add: s2_def)
  have q2: "quiet s s2" using quiet_trans [OF r(8)] by (simp add: s2_def)
  have wf: "waiting_for T a = map_option (\<lambda>p. pk_data (the (M1 p))) (ae_q ?e)"
    using waiting_ready [OF r(3,2) rd] r(5) by (simp add: waiting_for_def)
  note eq = update_eq [OF assms(3) r(1), of linkoutput x, folded s2_def]
  show ?thesis
  proof (cases "ae_q ?e")
    case None
    have n: "(settled netif x ?e)\<lparr>ae_q := None\<rparr> = settled netif x ?e" using None by (cases ?e) (simp add: settled_def)
    have "tbl_rep (t_ifs s1) (arp_table s2) M1 (T1(a \<mapsto> Known x))"
      using settle_rep [OF d(2) r(2) rd, of netif x M1] assms(5,6) ifs None n tb(2) by (simp add: restrict_map_def)
    then have i2: "arp_in s2 M1 (T1(a \<mapsto> Known x))" using d by (simp add: arp_in_def s2_def)
    have "queued (arp_table s2) = queued (arp_table s1)" using queued_set [OF d(2) r(2), of "settled netif x ?e"] None tb(2) by simp
    then have "arp_rep s2 U (T1(a \<mapsto> Known x))" using i2 r(7) by (auto simp: arp_rep_def)
    moreover have "send_queued cfree linkoutput netif x i s2 = Some s2" using None tb(1) by (simp add: send_queued_def nth_opt_10 [OF i2 r(2)])
    ultimately show ?thesis using eq r(4) quiet_frames [OF assms(2) q2] quietD(2) [OF q2] wf None
      by (intro exI [of _ s2] exI [of _ T1] exI [of _ "[]"]) (simp add: resolves_def)
  next
    case (Some p)
    obtain k where k: "M1 p = Some k" "sendable k" using tbl_repD(2) [OF d(2) r(2)] Some by (auto simp: entry_ok_def)
    have m: "M1(p := None) = M1 |` (- set_option (ae_q ?e))" using Some by (auto simp: fun_eq_iff restrict_map_def)
    have rep: "tbl_rep (t_ifs s2) ((arp_table s2)[i := (arp_table s2 ! i)\<lparr>ae_q := None\<rparr>]) (M1(p := None)) (T1(a \<mapsto> Known x))"
      using settle_rep [OF d(2) r(2) rd, of netif x, OF _ _ m] assms(5,6) ifs tb by (simp add: s2_def)
    have pk: "pkts (t_ps s2) M1" "length (arp_table s2) = 10" "etharp_cached_entry s2 < 10" using d by (simp_all add: s2_def)
    have aq: "ae_q (arp_table s2 ! i) = Some p" using Some tb(1) by simp
    have eif: "ether_if (t_ifs s2) netif" using assms(5) ifs by (simp add: s2_def)
    obtain s3 f where s3: "send_queued cfree linkoutput netif x i s2 = Some s3" "arp_in s3 (M1(p := None)) (T1(a \<mapsto> Known x))"
      "arp_table s3 = (arp_table s2)[i := (arp_table s2 ! i)\<lparr>ae_q := None\<rparr>]" "frames s3 (w @ [f])"
      "ip_frame x (hwaddr netif s2) (pk_data k) f" "arp_only s2 s3"
      using send_queued_spec [OF pk quiet_frames [OF assms(2) q2] r(2) aq k eif assms(6) rep, of cfree] by blast
    have "queued (arp_table s3) = queued (arp_table s1) - {p}"
      using queued_set [OF d(2) r(2), of "(settled netif x ?e)\<lparr>ae_q := None\<rparr>"] Some s3(3) tb by simp
    moreover have "p \<in> queued (arp_table s1)" using Some r(2) by (auto simp: queued_def)
    ultimately have "M1(p := None) |` (- queued (arp_table s3)) = U" unfolding r(7) [symmetric] by (auto simp: restrict_map_def fun_eq_iff)
    then have "arp_rep s3 U (T1(a \<mapsto> Known x))" using s3(2) by (auto simp: arp_rep_def)
    then show ?thesis using eq r(4) s3 arp_only_trans [OF quietD(2) [OF q2] s3(6)] wf Some k ifs
      by (intro exI [of _ s3] exI [of _ T1] exI [of _ "[f]"]) (simp add: resolves_def s2_def)
  qed
qed

end

section \<open>ARP packets on the wire\<close>

definition arp_packet :: "u16 \<Rightarrow> u8 list \<Rightarrow> u32 \<Rightarrow> u8 list \<Rightarrow> u32 \<Rightarrow> u8 list" where
  "arp_packet opcode shw sip dhw dip = bytes16 (lwip_htons HWTYPE_ETHERNET) @ bytes16 (lwip_htons ETHTYPE_IP) @ [6, 4] @
     bytes16 (lwip_htons opcode) @ shw @ bytes32 sip @ dhw @ bytes32 dip"

definition arp_frame :: "u8 list \<Rightarrow> u8 list \<Rightarrow> u8 list \<Rightarrow> u8 list \<Rightarrow> bool" where
  "arp_frame dst src d f \<longleftrightarrow> (\<exists>pad. length pad = 2 \<and> f = eth_header pad dst src ETHTYPE_ARP @ d)"

lemma arp_packet_patches:
  assumes "length d = 28" and "length op = 2" and "length shw = 6" and "length dhw = 6" and "length sip = 4" and "length dip = 4"
    and "length ht = 2" and "length et = 2"
  shows "patch 5 [y] (patch 4 [x] (patch 2 et (patch 0 ht (patch 24 dip (patch 14 sip (patch 18 dhw (patch 8 shw (patch 6 op d)))))))) =
    ht @ et @ [x, y] @ op @ shw @ sip @ dhw @ dip"
  using assms by (simp add: patch_def)

definition no_arp_memory :: "custom_free \<Rightarrow> pstate \<Rightarrow> bool" where
  "no_arp_memory cfree st \<longleftrightarrow> (\<exists>st'. pbuf_alloc cfree PBUF_LINK 28 PBUF_RAM st = Some (st', None))"

lemma arp_rep_ps:
  assumes "arp_in s M T" and "pkts st M"
  shows "arp_in (s\<lparr>t_ps := st\<rparr>) M T"
  using assms by (simp add: arp_in_def)

lemma arp_in_out:
  assumes "arp_in s M T" and "out_only s s'" and "pkts (t_ps s') M'" and "\<And>p. p \<in> queued (arp_table s) \<Longrightarrow> M' p = M p"
  shows "arp_in s' M' T"
proof -
  note o = out_only_fields [OF assms(2)]
  have "tbl_rep (t_ifs s) (arp_table s) M' T"
  proof -
    note d = tbl_repD [OF arp_inD(2) [OF assms(1)]]
    have m: "M' p = M p" if "i < 10" "ae_q (arp_table s ! i) = Some p" for i p using assms(4) that by (auto simp: queued_def)
    have e: "entry_ok (t_ifs s) M' (arp_table s ! i)" and x: "status M' (arp_table s ! i) = status M (arp_table s ! i)" if "i < 10" for i
      using entry_ok_same [OF d(2) [OF that]] status_same m [OF that] by blast+
    have "T a = Some y \<longleftrightarrow> (\<exists>i<10. used (arp_table s ! i) \<and> ae_ipaddr (arp_table s ! i) = a \<and> y = status M' (arp_table s ! i))" for a y
      unfolding d(5) using x by metis
    then show ?thesis using d(1,3,4) e unfolding tbl_rep_def by blast
  qed
  then show ?thesis using assms(1,3) o(1) etharp_more(2,3) [OF o(2)] by (simp add: arp_in_def)
qed

context arp_link
begin

lemma raw_spec:
  assumes "arp_rep s U T" and "frames s w" and "length ethsrc = 6" and "length ethdst = 6" and "length shw = 6" and "length dhw = 6"
  shows "\<exists>s' e fs. etharp_raw cfree linkoutput netif ethsrc ethdst shw sip dhw dip opcode s = Some (s', e) \<and> arp_rep s' U T \<and>
    frames s' (w @ fs) \<and> arp_only s s' \<and> arp_table s' = arp_table s \<and>
    (if no_arp_memory cfree (t_ps s) then e = ERR_MEM \<and> fs = []
     else e = ERR_OK \<and> (\<exists>f. fs = [f] \<and> arp_frame ethdst ethsrc (arp_packet opcode shw sip dhw dip) f))"
proof -
  obtain M where M: "arp_in s M T" "U = M |` (- queued (arp_table s))" using assms(1) by (auto simp: arp_rep_def)
  note d = arp_inD [OF M(1)]
  consider (none) st where "pbuf_alloc cfree PBUF_LINK 28 PBUF_RAM (t_ps s) = Some (st, None)" "pkts st M"
    | (new) st p x where "pbuf_alloc cfree PBUF_LINK 28 PBUF_RAM (t_ps s) = Some (st, Some p)" "M p = None" "length x = 28"
        "pkts st (M(p \<mapsto> fresh PBUF_LINK x))"
    using pkts_alloc_ram [OF d(1), of 28 cfree PBUF_LINK] by auto
  then show ?thesis
  proof cases
    case none
    then have "no_arp_memory cfree (t_ps s)" by (auto simp: no_arp_memory_def)
    moreover have "etharp_raw cfree linkoutput netif ethsrc ethdst shw sip dhw dip opcode s =
        Some (arp_count (\<lambda>c. c\<lparr>st_memerr := STATS_INC (st_memerr c)\<rparr>) (s\<lparr>t_ps := st\<rparr>), ERR_MEM)"
      using none(1) by (simp add: etharp_raw_def)
    moreover have "arp_in (arp_count g (s\<lparr>t_ps := st\<rparr>)) M T" for g using arp_rep_ps [OF M(1) none(2)] by simp
    ultimately show ?thesis using M(2) quiet_frames [OF assms(2) quiet_trans [OF quiet_ops(2) quiet_ops(3)]]
        quietD(2) [OF quiet_trans [OF quiet_ops(2) quiet_ops(3)]]
      by (intro exI [of _ "arp_count (\<lambda>c. c\<lparr>st_memerr := STATS_INC (st_memerr c)\<rparr>) (s\<lparr>t_ps := st\<rparr>)"] exI [of _ ERR_MEM] exI [of _ "[]"])
        (auto simp: arp_rep_def arp_count_def)
  next
    case new
    then have nm: "\<not> no_arp_memory cfree (t_ps s)" by (auto simp: no_arp_memory_def)
    define ws where "ws = [(6 :: nat, bytes16 (lwip_htons opcode)), (8, shw), (18, dhw), (14, bytes32 sip), (24, bytes32 dip),
      (0, bytes16 (lwip_htons HWTYPE_ETHERNET)), (2, bytes16 (lwip_htons ETHTYPE_IP)), (4, [6]), (5, [4 :: u8])]"
    define st1 where "st1 = writes ws (p + 20 + 16) st"
    have pd: "patches ws x = arp_packet opcode shw sip dhw dip"
      using arp_packet_patches [OF new(3), of "bytes16 (lwip_htons opcode)" shw dhw] assms(5,6) by (simp add: ws_def arp_packet_def)
    let ?k = "fresh PBUF_LINK (arp_packet opcode shw sip dhw dip)"
    have lp: "length (arp_packet opcode shw sip dhw dip) = 28" using assms(5,6) by (simp add: arp_packet_def)
    have bd: "i + length bs \<le> pk_head (fresh PBUF_LINK x)" if "(i, bs) \<in> set ws" for i bs
      using that new(3) assms(5,6) by (auto simp: ws_def fresh_def)
    have p1: "pkts st1 (M(p \<mapsto> ?k))"
      using pkts_writes [OF new(4) fun_upd_same, of ws] bd new(3) lp pd by (simp add: st1_def fresh_def del: fun_upd_apply)
    have p1': "pkts (t_ps (s\<lparr>t_ps := st1\<rparr>)) (M(p \<mapsto> ?k))" using p1 by simp
    have f1: "frames (s\<lparr>t_ps := st1\<rparr>) w" using quiet_frames [OF assms(2)] by simp
    obtain s2 pad where s2: "ethernet_output linkoutput netif p ethsrc ethdst ETHTYPE_ARP (s\<lparr>t_ps := st1\<rparr>) = Some (s2, ERR_OK)" "length pad = 2"
      "pkts (t_ps s2) (M(p \<mapsto> push (eth_header pad ethdst ethsrc ETHTYPE_ARP) ?k))"
      "frames s2 (w @ [eth_header pad ethdst ethsrc ETHTYPE_ARP @ arp_packet opcode shw sip dhw dip])" "out_only (s\<lparr>t_ps := st1\<rparr>) s2"
      using ethernet_output_sends [OF f1 p1' fun_upd_same, of ethsrc ethdst netif ETHTYPE_ARP] assms(3,4) lp
      by (auto simp del: fun_upd_apply)
    obtain st4 c where f: "pbuf_free cfree (Some p) (t_ps s2) = Some (st4, c)" "pkts st4 M"
      using pkts_free_new [OF s2(3), of cfree] new(2) by (metis fun_upd_triv)
    define s4 where "s4 = (arp_count (\<lambda>c. c\<lparr>st_xmit := STATS_INC (st_xmit c)\<rparr>) s2)\<lparr>t_ps := st4\<rparr>"
    have o: "out_only s (s2\<lparr>t_ps := st4\<rparr>)" by (rule out_only_trans [OF out_only_trans [OF out_only_ps s2(5)] out_only_ps])
    have "arp_in (s2\<lparr>t_ps := st4\<rparr>) M T" using arp_in_out [OF M(1) o] f(2) by simp
    then have i4: "arp_in s4 M T" by (simp add: s4_def arp_in_def arp_count_def)
    have t4: "arp_table s4 = arp_table s" using etharp_more(2) [OF out_only_fields(2) [OF o]] by (simp add: s4_def arp_count_def)
    have q: "quiet s2 s4" unfolding s4_def by (rule quiet_trans [OF quiet_ops(3) quiet_ops(2)])
    have "etharp_raw cfree linkoutput netif ethsrc ethdst shw sip dhw dip opcode s = Some (s4, ERR_OK)"
      using new(1) s2(1) f(1) pkts_facts [OF new(4) fun_upd_same]
      by (simp add: etharp_raw_def Let_def st1_def ws_def s4_def fresh_def arp_count_def)
    moreover have "arp_only s s4" using arp_only_trans [OF out_arp_only [OF out_only_trans [OF out_only_ps s2(5)]] quietD(2) [OF q]] .
    ultimately show ?thesis using i4 t4 M(2) nm quiet_frames [OF s2(4) q] s2(2)
      by (intro exI [of _ s4] exI [of _ ERR_OK]) (auto simp: arp_rep_def arp_frame_def)
  qed
qed

end

text \<open>The broadcast question for address \<open>a\<close> that interface \<open>netif\<close> sends.\<close>

definition asks :: "'x t41_scheme \<Rightarrow> nat \<Rightarrow> u32 \<Rightarrow> u8 list \<Rightarrow> u8 list \<Rightarrow> bool" where
  "asks s netif a dst f \<longleftrightarrow> arp_frame dst (hwaddr netif s) (arp_packet ARP_REQUEST (hwaddr netif s) (ip_addr netif s) ethzero a) f"

lemma length_consts [simp]: "length ethzero = 6" "length ethbroadcast = 6"
  by (simp_all add: ethzero_def ethbroadcast_def)

context arp_link
begin

lemma request_dst_spec:
  assumes "arp_rep s U T" and "frames s w" and "ether_if (t_ifs s) netif" and "length dst = 6"
  shows "\<exists>s' e fs. etharp_request_dst cfree linkoutput netif a dst s = Some (s', e) \<and> arp_rep s' U T \<and>
    frames s' (w @ fs) \<and> arp_only s s' \<and> arp_table s' = arp_table s \<and>
    (if no_arp_memory cfree (t_ps s) then e = ERR_MEM \<and> fs = [] else e = ERR_OK \<and> (\<exists>f. fs = [f] \<and> asks s netif a dst f))"
  unfolding etharp_request_dst_def asks_def
  by (rule raw_spec [OF assms(1,2)]) (use assms(3,4) in \<open>simp_all add: ether_if_def\<close>)

lemma request_spec:
  assumes "arp_rep s U T" and "frames s w" and "ether_if (t_ifs s) netif"
  shows "\<exists>s' e fs. etharp_request cfree linkoutput netif a s = Some (s', e) \<and> arp_rep s' U T \<and>
    frames s' (w @ fs) \<and> arp_only s s' \<and> arp_table s' = arp_table s \<and>
    (if no_arp_memory cfree (t_ps s) then e = ERR_MEM \<and> fs = [] else e = ERR_OK \<and> (\<exists>f. fs = [f] \<and> asks s netif a ethbroadcast f))"
  using request_dst_spec [OF assms, of ethbroadcast cfree a] by (simp add: etharp_request_def)

end

section \<open>Queueing a packet\<close>

lemma copy_to_queue_spec:
  assumes "pkts st M" and "M q = Some k" and "0 < pk_head k"
  shows "\<exists>st' r. copy_to_queue cfree q st = Some (st', r) \<and>
    (case r of None \<Rightarrow> pkts st' M | Some p \<Rightarrow> M p = None \<and> pkts st' (M(p \<mapsto> fresh PBUF_LINK (pk_data k))))"
proof -
  note f = pkts_facts [OF assms(1,2)]
  have "first_not_rom (Some q) st = Some (Some q)" using f(1,8) by (subst first_not_rom.simps) auto
  then have eq: "copy_to_queue cfree q st = do {
      (st, p) \<leftarrow> pbuf_alloc cfree PBUF_LINK (length (pk_data k)) PBUF_RAM st;
      case p of
        None \<Rightarrow> Some (st, None)
      | Some a \<Rightarrow> do {
          (st, err) \<leftarrow> pbuf_copy (Some a) (Some q) st;
          if err \<noteq> ERR_OK then do { (st, _) \<leftarrow> pbuf_free cfree (Some a) st; Some (st, None) } else Some (st, Some a)
        }
    }" using f by (simp add: copy_to_queue_def)
  from pkts_alloc_ram [OF assms(1) f(7), of cfree PBUF_LINK] show ?thesis
  proof (elim disjE exE conjE)
    fix st' assume "pbuf_alloc cfree PBUF_LINK (length (pk_data k)) PBUF_RAM st = Some (st', None)" "pkts st' M"
    then show ?thesis using eq by simp
  next
    fix st1 p d
    assume a: "pbuf_alloc cfree PBUF_LINK (length (pk_data k)) PBUF_RAM st = Some (st1, Some p)" "M p = None" "length d = length (pk_data k)"
      "pkts st1 (M(p \<mapsto> fresh PBUF_LINK d))"
    have n: "p \<noteq> q" using a(2) assms(2) by auto
    have m: "(M(p \<mapsto> fresh PBUF_LINK d)) q = Some k" using n assms(2) by simp
    have z: "0 < length (pk_data k)" using f(6) assms(3) by linarith
    obtain st2 where "pbuf_copy (Some p) (Some q) st1 = Some (st2, ERR_OK)"
      "pkts st2 (M(p \<mapsto> (fresh PBUF_LINK d)\<lparr>pk_data := pk_data k\<rparr>))"
      using pkts_copy [OF a(4) fun_upd_same m n] assms(3) a(3) z by (auto simp del: fun_upd_apply)
    moreover have "(fresh PBUF_LINK d)\<lparr>pk_data := pk_data k\<rparr> = fresh PBUF_LINK (pk_data k)" using a(3) by simp
    ultimately show ?thesis using a eq by simp
  qed
qed

text \<open>The entry of a pending address gets the packet, unless memory runs out.\<close>

lemma queue_rep:
  assumes "tbl_rep ifs tbl M T" and "i < 10" and "pending (tbl ! i)" and "M' p = Some k" and "sendable k" and "p \<notin> queued tbl"
    and "\<And>x. x \<noteq> p \<Longrightarrow> x \<notin> set_option (ae_q (tbl ! i)) \<Longrightarrow> M' x = M x"
  shows "tbl_rep ifs (tbl[i := (tbl ! i)\<lparr>ae_q := Some p\<rparr>]) M' (T(ae_ipaddr (tbl ! i) \<mapsto> Waiting (Some (pk_data k))))"
proof -
  let ?e = "(tbl ! i)\<lparr>ae_q := Some p\<rparr>"
  have u: "used (tbl ! i)" "used ?e" "pending ?e" "\<not> resolved ?e" using assms(3) state_cases [of "tbl ! i"]
    by (auto simp: pending_def used_def resolved_def)
  have 1: "entry_ok ifs M' ?e" using tbl_repD(2) [OF assms(1,2)] assms(4,5) u by (simp add: entry_ok_def)
  have 2: "retire (tbl ! i) T (ae_ipaddr ?e) = None" using u by (simp add: retire_def)
  have 3: "M' x = M x \<and> Some p \<noteq> Some x" if "j < 10" "j \<noteq> i" "ae_q (tbl ! j) = Some x" for j x
  proof -
    have "x \<noteq> p" using assms(6) that by (auto simp: queued_def)
    moreover have "x \<notin> set_option (ae_q (tbl ! i))" using tbl_repD(4) [OF assms(1) that(1) assms(2) that(3)] that(2) by auto
    ultimately show ?thesis using assms(7) by simp
  qed
  have "enter M' ?e (retire (tbl ! i) T) = T(ae_ipaddr (tbl ! i) \<mapsto> Waiting (Some (pk_data k)))"
    using u assms(4) by (simp add: enter_def retire_def status_def)
  then show ?thesis using tbl_rep_set [OF assms(1,2) 1 2] 3 by simp
qed

lemma queued_dom: "arp_in s M T \<Longrightarrow> p \<in> queued (arp_table s) \<Longrightarrow> \<exists>k. M p = Some k \<and> sendable k"
  using tbl_repD(2) [OF arp_inD(2)] by (fastforce simp: queued_def entry_ok_def)

lemma pending_status:
  assumes "arp_in s M T" and "i < 10" and "pending (arp_table s ! i)" and "ae_ipaddr (arp_table s ! i) = a"
  shows "T a = Some (Waiting (waiting_for T a))"
  using status_in [OF assms(1,2) _ assms(4)] assms(3) state_cases(1) [of "arp_table s ! i"] by (simp add: status_def waiting_for_def)

lemma free_old:
  assumes "pkts st (M(p \<mapsto> k))" and "p \<noteq> old" and "M old = Some k'"
  shows "\<exists>st' c. pbuf_free cfree (Some old) st = Some (st', c) \<and> pkts st' ((M(old := None))(p \<mapsto> k))"
  using pkts_free [OF assms(1), of old k' cfree] assms(2,3) by (simp add: fun_upd_twist)

lemma queue_packet_spec:
  assumes "arp_rep s U T" and "U q = Some k" and "sendable k" and "0 < pk_head k" and "i < 10" and "pending (arp_table s ! i)"
    and "ae_ipaddr (arp_table s ! i) = a"
  shows "\<exists>s' e d. queue_packet cfree i q s = Some (s', e) \<and> quiet s s' \<and> arp_rep s' U (T(a \<mapsto> Waiting d)) \<and>
    (e = ERR_OK \<and> d = Some (pk_data k) \<or> e = ERR_MEM \<and> d = waiting_for T a)"
proof -
  obtain M where M: "arp_in s M T" "U = M |` (- queued (arp_table s))" using assms(1) by (auto simp: arp_rep_def)
  note d = arp_inD [OF M(1)]
  have q: "M q = Some k" using assms(2) M(2) by (auto simp: restrict_map_def split: if_splits)
  obtain st r where c: "copy_to_queue cfree q (t_ps s) = Some (st, r)"
    "case r of None \<Rightarrow> pkts st M | Some p \<Rightarrow> M p = None \<and> pkts st (M(p \<mapsto> fresh PBUF_LINK (pk_data k)))"
    using copy_to_queue_spec [OF d(1) q assms(4), of cfree] by blast
  show ?thesis
  proof (cases r)
    case None
    let ?s = "arp_count (\<lambda>c. c\<lparr>st_memerr := STATS_INC (st_memerr c)\<rparr>) (s\<lparr>t_ps := st\<rparr>)"
    have "arp_in (s\<lparr>t_ps := st\<rparr>) M T" using arp_rep_ps [OF M(1)] c(2) None by simp
    then have "arp_rep ?s U T" using M(2) by (auto simp: arp_rep_def)
    moreover have "T(a \<mapsto> Waiting (waiting_for T a)) = T" using pending_status [OF M(1) assms(5-7)] by (simp add: fun_upd_idem)
    moreover have "quiet s ?s" by (rule quiet_trans [OF quiet_ops(2) quiet_ops(3)])
    ultimately show ?thesis using c(1) None
      by (intro exI [of _ ?s] exI [of _ ERR_MEM] exI [of _ "waiting_for T a"]) (simp add: queue_packet_def)
  next
    case (Some p)
    let ?f = "fresh PBUF_LINK (pk_data k)" and ?e = "arp_table s ! i"
    have p: "M p = None" "pkts st (M(p \<mapsto> ?f))" using c(2) Some by simp_all
    have pq: "p \<notin> queued (arp_table s)" using queued_dom [OF M(1), of p] p(1) by auto
    have sf: "sendable ?f" using assms(3) by (simp add: sendable_def)
    have nt: "nth_opt (arp_table s) i = Some ?e" using nth_opt_10 [OF M(1) assms(5)] .
    let ?M = "(M |` (- set_option (ae_q ?e)))(p \<mapsto> ?f)"
    obtain st' where st': "queue_packet cfree i q s = Some (set_entry i (\<lambda>e. e\<lparr>ae_q := Some p\<rparr>) (s\<lparr>t_ps := st'\<rparr>), ERR_OK)" "pkts st' ?M"
    proof (cases "ae_q ?e")
      case None
      then show ?thesis using that [of st] c(1) Some p(2) nt by (simp add: queue_packet_def restrict_map_def)
    next
      case o: (Some old)
      obtain k' where k': "M old = Some k'" using tbl_repD(2) [OF d(2) assms(5)] o by (auto simp: entry_ok_def)
      have ne: "p \<noteq> old" using p(1) k' by auto
      obtain st2 n where f: "pbuf_free cfree (Some old) st = Some (st2, n)" "pkts st2 ((M(old := None))(p \<mapsto> ?f))"
        using free_old [OF p(2) ne k', of cfree] by blast
      have "M |` (- set_option (ae_q ?e)) = M(old := None)" using o by (auto simp: restrict_map_def fun_eq_iff)
      then show ?thesis using that [of st2] c(1) Some f nt o by (simp add: queue_packet_def)
    qed
    let ?s = "set_entry i (\<lambda>e. e\<lparr>ae_q := Some p\<rparr>) (s\<lparr>t_ps := st'\<rparr>)"
    have "tbl_rep (t_ifs s) ((arp_table s)[i := ?e\<lparr>ae_q := Some p\<rparr>]) ?M (T(ae_ipaddr ?e \<mapsto> Waiting (Some (pk_data ?f))))"
      using sf pq by (intro queue_rep [OF d(2) assms(5,6)]) auto
    then have "arp_in ?s ?M (T(a \<mapsto> Waiting (Some (pk_data k))))" using st'(2) d(3) assms(7) by (simp add: arp_in_def)
    moreover have "queued (arp_table ?s) = (queued (arp_table s) - set_option (ae_q ?e)) \<union> {p}"
      using queued_set [OF d(2) assms(5), of "?e\<lparr>ae_q := Some p\<rparr>"] by simp
    then have "?M |` (- queued (arp_table ?s)) = U" using M(2) p(1) assms(5) by (auto simp: restrict_map_def fun_eq_iff queued_def)
    ultimately have "arp_rep ?s U (T(a \<mapsto> Waiting (Some (pk_data k))))" unfolding arp_rep_def by blast
    then show ?thesis using st'(1) quiet_trans [OF quiet_ops(2) quiet_ops(1)] by blast
  qed
qed

end
