(* ===== verification/Spec2Isabelle.thy ===== *)
theory Spec2Isabelle
  imports Inet_Chksum Timeouts Etharp_Table
begin

text \<open>
  A verification library for the Teensy 4.1 Ethernet code: the driver \<open>lwip_t41.c\<close> and the lwIP 2.0 stack that it
  feeds, in the configuration of \<open>lwipopts.h\<close> (no operating system, IPv4, a 24000 byte heap, checksums in hardware, two bytes
  of padding in front of the Ethernet header).  Paths are relative to \<open>src/t41ether/lwip/src\<close>.

  \<^bold>\<open>The program.\<close>  The MAC writes received frames into the buffers of a descriptor ring.  The interrupt handler marks that
  something arrived; \<open>enet_proc_input\<close> takes frames from the ring, copies each into a packet buffer (a chain of \<open>struct pbuf\<close>)
  and hands it to the interface's input function.  Packets to send are copied into the transmit ring.  Packet buffers
  come from a pool (\<open>memp.c\<close>) or from the heap (\<open>mem.c\<close>).  \<open>netif.c\<close> keeps the list of interfaces and their
  addresses; \<open>timeouts.c\<close> runs the timers of all protocols.

  \<^bold>\<open>Theories.\<close>
  \<^item> \<open>Lwip_Prelude\<close>: integer types of \<open>arch/cc.h\<close>, error codes of \<open>lwip/err.h\<close>, wrap-around of C assignments, generic lemmas.
  \<^item> \<open>Lwip_Def\<close>: \<open>core/def.c\<close>, byte order and string helpers.
  \<^item> \<open>Netif\<close>: \<open>struct netif\<close>.  \<open>Netif_Ops\<close>: \<open>core/netif.c\<close>; the linked list of interfaces refines a plain list.
  \<^item> \<open>Ip4_Addr\<close>: \<open>core/ipv4/ip4_addr.c\<close>, netmasks, parsing and printing of addresses.
  \<^item> \<open>Inet_Chksum\<close>: \<open>core/inet_chksum.c\<close> and \<open>arch/checksum.c\<close>; the four routines agree with each other and with the
    one's complement sum.
  \<^item> \<open>Mem\<close>: \<open>core/mem.c\<close>.  \<open>Memp\<close>: \<open>core/memp.c\<close>.  \<open>Timeouts\<close>: \<open>core/timeouts.c\<close> on a pool of \<open>Memp\<close>.
  \<^item> \<open>Pbuf\<close>: \<open>core/pbuf.c\<close> on the heap and the pools.  \<open>Packets\<close>: pbufs as a map from packets to bytes, the interface
    that the layers above use.
  \<^item> \<open>Lwip_T41\<close>: \<open>lwip_t41.c\<close> and the MAC's side of the two rings.

  \<^bold>\<open>Modelling.\<close>  Pointers are natural numbers, null is \<open>None\<close>; memory is a function from addresses.  A function whose C code
  could follow a bad pointer, leave an array or not return has an \<open>option\<close> result, and \<open>None\<close> means just that; loops are
  \<open>partial_function (option)\<close>, so that every theorem of the form \<open>f x = Some y\<close> includes that the loop ends.  There is no
  fuel anywhere.  The state of the layers is one extensible record: the operations of a layer work on every extension of its
  record.  Calls of \<open>netif.c\<close> into other components are recorded as a list of events.  The MAC and the PHY are
  not code of the repository: \<open>dma_rx\<close> and \<open>dma_tx\<close> follow their documented behaviour, and the application's functions are arguments.

  \<^bold>\<open>Not modelled.\<close>  TCP, DHCP, DNS and the applications are above the modelled parts.  IPv6, PPP, raw sockets, AutoIP, SNMP
  and the sequential and socket API are compiled out in this configuration.  Register writes of the driver without effect on the
  rings (clocks, pads, PHY, time stamps) are left out.
\<close>

end
